(* ===== verification/C_Prelude.thy ===== *)
theory C_Prelude
  imports Main "HOL-Library.Monad_Syntax"
begin

text \<open>
  Shared vocabulary of the development: the C constructs that every component uses.

  \<^item> A computation that may run into undefined behaviour of C (an index outside its array,
    a conversion that does not fit, a null pointer) has an \<open>option\<close> result, and
    \<^const>\<open>None\<close> is the undefined behaviour.
  \<^item> A C array is a function from indices together with its declared extent, which every
    read (\<open>rd\<close>, \<open>rd2\<close>) and write (\<open>wr\<close>, \<open>wr2\<close>) checks.
  \<^item> \<open>for (int i = a; i < b; ++i)\<close> is \<open>for_up\<close>; a body that may \<open>break\<close> is run by
    \<open>for_brk\<close>; a \<open>while\<close> loop is \<open>while_ub\<close>, whose outer \<^const>\<open>None\<close> is divergence
    and whose inner \<^const>\<open>None\<close> is undefined behaviour.
  \<^item> \<open>cdiv\<close> and \<open>crem\<close> are C's truncating division and remainder on \<open>int\<close>; \<open>u8\<close>,
    \<open>u16\<close>, \<open>i8\<close>, \<open>i16\<close> are the conversions to the narrow integer types.
\<close>

named_theorems c_simps \<open>evaluation of array accesses, loops and narrow integers\<close>
named_theorems c_dest \<open>what a defined array access says about its index\<close>

section \<open>Arrays with a declared extent\<close>

type_synonym 'v arr = "int \<Rightarrow> 'v"
type_synonym 'v arr2 = "int \<Rightarrow> int \<Rightarrow> 'v"

definition rd :: "int \<Rightarrow> 'v arr \<Rightarrow> int \<Rightarrow> 'v option" where
  "rd n a i = (if 0 \<le> i \<and> i < n then Some (a i) else None)"

definition wr :: "int \<Rightarrow> 'v arr \<Rightarrow> int \<Rightarrow> 'v \<Rightarrow> 'v arr option" where
  "wr n a i v = (if 0 \<le> i \<and> i < n then Some (a(i := v)) else None)"

definition rd2 :: "int \<Rightarrow> int \<Rightarrow> 'v arr2 \<Rightarrow> int \<Rightarrow> int \<Rightarrow> 'v option" where
  "rd2 n m a i j = (if 0 \<le> i \<and> i < n \<and> 0 \<le> j \<and> j < m then Some (a i j) else None)"

definition wr2 :: "int \<Rightarrow> int \<Rightarrow> 'v arr2 \<Rightarrow> int \<Rightarrow> int \<Rightarrow> 'v \<Rightarrow> 'v arr2 option" where
  "wr2 n m a i j v =
     (if 0 \<le> i \<and> i < n \<and> 0 \<le> j \<and> j < m then Some (a(i := (a i)(j := v))) else None)"

lemma rd_Some [c_dest]: "rd n a i = Some v \<longleftrightarrow> 0 \<le> i \<and> i < n \<and> v = a i"
  by (auto simp: rd_def)

lemma wr_Some [c_dest]: "wr n a i v = Some b \<longleftrightarrow> 0 \<le> i \<and> i < n \<and> b = a(i := v)"
  by (auto simp: wr_def)

lemma rd2_Some [c_dest]:
  "rd2 n m a i j = Some v \<longleftrightarrow> 0 \<le> i \<and> i < n \<and> 0 \<le> j \<and> j < m \<and> v = a i j"
  by (auto simp: rd2_def)

lemma wr2_Some [c_dest]:
  "wr2 n m a i j v = Some b \<longleftrightarrow>
     0 \<le> i \<and> i < n \<and> 0 \<le> j \<and> j < m \<and> b = a(i := (a i)(j := v))"
  by (auto simp: wr2_def)

lemma rd_in [c_simps]: "0 \<le> i \<Longrightarrow> i < n \<Longrightarrow> rd n a i = Some (a i)"
  by (simp add: rd_def)

lemma wr_in [c_simps]: "0 \<le> i \<Longrightarrow> i < n \<Longrightarrow> wr n a i v = Some (a(i := v))"
  by (simp add: wr_def)

lemma rd2_in [c_simps]:
  "0 \<le> i \<Longrightarrow> i < n \<Longrightarrow> 0 \<le> j \<Longrightarrow> j < m \<Longrightarrow> rd2 n m a i j = Some (a i j)"
  by (simp add: rd2_def)

lemma wr2_in [c_simps]:
  "0 \<le> i \<Longrightarrow> i < n \<Longrightarrow> 0 \<le> j \<Longrightarrow> j < m \<Longrightarrow>
     wr2 n m a i j v = Some (a(i := (a i)(j := v)))"
  by (simp add: wr2_def)

section \<open>Counted loops\<close>

fun for_list :: "('i \<Rightarrow> 's \<Rightarrow> 's option) \<Rightarrow> 'i list \<Rightarrow> 's \<Rightarrow> 's option" where
  "for_list body [] s = Some s"
| "for_list body (i # is) s =
     (case body i s of None \<Rightarrow> None | Some t \<Rightarrow> for_list body is t)"

definition for_up :: "int \<Rightarrow> int \<Rightarrow> (int \<Rightarrow> 's \<Rightarrow> 's option) \<Rightarrow> 's \<Rightarrow> 's option" where
  "for_up a b body s = for_list body [a..b - 1] s"

text \<open>What the body of a loop that may be left early returns.\<close>

datatype 's ctl = Next 's | Break 's

fun for_brk_list :: "('i \<Rightarrow> 's \<Rightarrow> 's ctl option) \<Rightarrow> 'i list \<Rightarrow> 's \<Rightarrow> 's option" where
  "for_brk_list body [] s = Some s"
| "for_brk_list body (i # is) s =
     (case body i s of None \<Rightarrow> None
      | Some (Next t) \<Rightarrow> for_brk_list body is t
      | Some (Break t) \<Rightarrow> Some t)"

definition for_brk :: "int \<Rightarrow> int \<Rightarrow> (int \<Rightarrow> 's \<Rightarrow> 's ctl option) \<Rightarrow> 's \<Rightarrow> 's option" where
  "for_brk a b body s = for_brk_list body [a..b - 1] s"

lemma upto_Cons: "a < b \<Longrightarrow> [a..b - 1] = a # [a + 1..b - 1]"
  by (simp add: upto_rec1)

lemma for_up_stop [c_simps]: "b \<le> a \<Longrightarrow> for_up a b body s = Some s"
  by (simp add: for_up_def)

lemma for_up_step:
  "a < b \<Longrightarrow> for_up a b body s =
     (case body a s of None \<Rightarrow> None | Some t \<Rightarrow> for_up (a + 1) b body t)"
  by (simp add: for_up_def upto_Cons split: option.split)

lemma for_brk_stop [c_simps]: "b \<le> a \<Longrightarrow> for_brk a b body s = Some s"
  by (simp add: for_brk_def)

lemma for_brk_step:
  "a < b \<Longrightarrow> for_brk a b body s =
     (case body a s of None \<Rightarrow> None
      | Some (Next t) \<Rightarrow> for_brk (a + 1) b body t
      | Some (Break t) \<Rightarrow> Some t)"
  by (simp add: for_brk_def upto_Cons split: option.split ctl.split)

text \<open>Partial correctness: an invariant indexed by the loop variable.\<close>

lemma for_up_inv:
  assumes "for_up a b body s = Some s'" and "a \<le> b" and "P a s"
    and step: "\<And>i s t. a \<le> i \<Longrightarrow> i < b \<Longrightarrow> P i s \<Longrightarrow> body i s = Some t \<Longrightarrow> P (i + 1) t"
  shows "P b s'"
  using assms(1-3) step
proof (induction "nat (b - a)" arbitrary: a s)
  case 0
  then show ?case by (simp add: for_up_stop)
next
  case (Suc n)
  then have ab: "a < b" by simp
  with Suc.prems obtain t where t: "body a s = Some t" "for_up (a + 1) b body t = Some s'"
    by (auto simp: for_up_step split: option.splits)
  show ?case
  proof (rule Suc.hyps(1))
    show "n = nat (b - (a + 1))" using Suc.hyps(2) by simp
    show "P (a + 1) t" using Suc.prems(3,4) ab t(1) by auto
  qed (use ab t(2) Suc.prems(4) in auto)
qed

text \<open>Total correctness: the invariant also makes every iteration defined.\<close>

lemma for_up_total:
  assumes "a \<le> b" and "P a s"
    and step: "\<And>i s. a \<le> i \<Longrightarrow> i < b \<Longrightarrow> P i s \<Longrightarrow> \<exists>t. body i s = Some t \<and> P (i + 1) t"
  shows "\<exists>s'. for_up a b body s = Some s' \<and> P b s'"
  using assms
proof (induction "nat (b - a)" arbitrary: a s)
  case 0
  then show ?case by (simp add: for_up_stop)
next
  case (Suc n)
  then have ab: "a < b" by simp
  with Suc.prems obtain t where t: "body a s = Some t" "P (a + 1) t" by blast
  have "\<exists>s'. for_up (a + 1) b body t = Some s' \<and> P b s'"
    by (rule Suc.hyps(1)) (use ab t Suc.hyps(2) Suc.prems in auto)
  then show ?case using ab t(1) by (simp add: for_up_step)
qed

text \<open>A square table, row by row: the cells before \<open>(i, j)\<close>.\<close>

definition before :: "int \<Rightarrow> int \<Rightarrow> int \<Rightarrow> int \<Rightarrow> bool" where
  "before i j a b \<longleftrightarrow> a < i \<or> a = i \<and> b < j"

lemma before_step: "before i (j + 1) a b \<longleftrightarrow> before i j a b \<or> a = i \<and> b = j"
  by (auto simp: before_def)

lemma before_row:
  assumes "\<forall>a \<in> {0..<n}. \<forall>b \<in> {0..<n}. Q a b (before i n a b)"
  shows "\<forall>a \<in> {0..<n}. \<forall>b \<in> {0..<n}. Q a b (before (i + 1) 0 a b)"
proof (intro ballI)
  fix a b assume ab: "a \<in> {0..<n}" "b \<in> {0..<n}"
  have "before (i + 1) 0 a b = before i n a b" using ab by (auto simp: before_def)
  then show "Q a b (before (i + 1) 0 a b)" using assms ab by simp
qed

lemma before_ends: "0 \<le> a \<Longrightarrow> 0 \<le> b \<Longrightarrow> \<not> before 0 0 a b" "a < n \<Longrightarrow> before n 0 a b"
  by (auto simp: before_def)

lemma for_up_grid:
  assumes "0 \<le> n" and "I 0 0 s"
    and step: "\<And>i j u. 0 \<le> i \<Longrightarrow> i < n \<Longrightarrow> 0 \<le> j \<Longrightarrow> j < n \<Longrightarrow> I i j u \<Longrightarrow> \<exists>v. body i j u = Some v \<and> I i (j + 1) v"
    and row: "\<And>i u. I i n u \<Longrightarrow> I (i + 1) 0 u" and len: "\<And>i u. I i 0 u \<Longrightarrow> N u = n"
  shows "\<exists>v. for_up 0 n (\<lambda>i s. for_up 0 (N s) (body i) s) s = Some v \<and> I n 0 v"
proof (rule for_up_total)
  fix i u assume i: "0 \<le> i" "i < n" "I i 0 u"
  have "\<exists>v. for_up 0 n (body i) u = Some v \<and> I i n v"
    by (rule for_up_total) (use assms(1) i step in auto)
  then show "\<exists>v. for_up 0 (N u) (body i) u = Some v \<and> I (i + 1) 0 v" using row len[OF i(3)] by auto
qed (use assms in auto)

text \<open>The same for a loop that may be left: \<open>Q\<close> holds wherever it is left.\<close>

lemma for_brk_inv:
  assumes "for_brk a b body s = Some s'" and "a \<le> b" and "P a s"
    and step: "\<And>i s t. a \<le> i \<Longrightarrow> i < b \<Longrightarrow> P i s \<Longrightarrow> body i s = Some (Next t) \<Longrightarrow> P (i + 1) t"
    and brk: "\<And>i s t. a \<le> i \<Longrightarrow> i < b \<Longrightarrow> P i s \<Longrightarrow> body i s = Some (Break t) \<Longrightarrow> Q t"
    and fin: "\<And>t. P b t \<Longrightarrow> Q t"
  shows "Q s'"
  using assms
proof (induction "nat (b - a)" arbitrary: a s)
  case 0
  then show ?case by (simp add: for_brk_stop)
next
  case (Suc n)
  then have ab: "a < b" by simp
  show ?case
  proof (cases "body a s")
    case None
    with Suc.prems(1) ab show ?thesis by (simp add: for_brk_step)
  next
    case (Some r)
    show ?thesis
    proof (cases r)
      case (Next t)
      have "for_brk (a + 1) b body t = Some s'"
        using Suc.prems(1) ab Some Next by (simp add: for_brk_step)
      moreover have "P (a + 1) t" using Suc.prems(3,4) ab Some Next by auto
      moreover have "n = nat (b - (a + 1))" using Suc.hyps(2) by simp
      moreover have "Q v" if "a + 1 \<le> i" "i < b" "P i u" "body i u = Some (Break v)" for i u v
        using that Suc.prems(5)[of i u v] by simp
      ultimately show ?thesis
        by (intro Suc.hyps(1)[of "a + 1" t]) (use Suc.prems(4,6) ab in auto)
    next
      case (Break t)
      then show ?thesis using Suc.prems(1,3,5) ab Some by (auto simp: for_brk_step)
    qed
  qed
qed

lemma for_brk_total:
  assumes "a \<le> b" and "P a s"
    and step: "\<And>i s. a \<le> i \<Longrightarrow> i < b \<Longrightarrow> P i s \<Longrightarrow>
      (\<exists>t. body i s = Some (Next t) \<and> P (i + 1) t) \<or> (\<exists>t. body i s = Some (Break t) \<and> Q t)"
    and fin: "\<And>t. P b t \<Longrightarrow> Q t"
  shows "\<exists>s'. for_brk a b body s = Some s' \<and> Q s'"
  using assms
proof (induction "nat (b - a)" arbitrary: a s)
  case 0
  then show ?case by (simp add: for_brk_stop)
next
  case (Suc n)
  then have ab: "a < b" by simp
  from Suc.prems(3)[of a s] ab Suc.prems(2)
  consider t where "body a s = Some (Next t)" "P (a + 1) t"
    | t where "body a s = Some (Break t)" "Q t" by blast
  then show ?case
  proof cases
    case 1
    have "\<exists>s'. for_brk (a + 1) b body t = Some s' \<and> Q s'"
      by (rule Suc.hyps(1)) (use ab 1 Suc.hyps(2) Suc.prems in auto)
    then show ?thesis using ab 1 by (simp add: for_brk_step)
  next
    case 2
    then show ?thesis using ab by (simp add: for_brk_step)
  qed
qed

section \<open>While loops\<close>

partial_function (option) while_ub ::
  "('s \<Rightarrow> bool) \<Rightarrow> ('s \<Rightarrow> 's option) \<Rightarrow> 's \<Rightarrow> 's option option" where
  "while_ub b c s =
     (if b s then (case c s of None \<Rightarrow> Some None | Some t \<Rightarrow> while_ub b c t) else Some (Some s))"

declare while_ub.simps [code]

text \<open>
  A loop whose body decreases a well-founded relation under an invariant ends: in undefined
  behaviour or in a state that satisfies the invariant and not the guard.
\<close>

lemma while_ub_wf:
  assumes "wf r" and "I s"
    and step: "\<And>s t. I s \<Longrightarrow> b s \<Longrightarrow> c s = Some t \<Longrightarrow> I t \<and> (t, s) \<in> r"
  shows "while_ub b c s = Some None \<or> (\<exists>t. while_ub b c s = Some (Some t) \<and> I t \<and> \<not> b t)"
  using assms(1,2)
proof (induction s rule: wf_induct_rule)
  case (less s)
  show ?case
  proof (cases "b s")
    case False
    with less.prems show ?thesis by (simp add: while_ub.simps)
  next
    case True
    show ?thesis
    proof (cases "c s")
      case None
      with True show ?thesis by (simp add: while_ub.simps)
    next
      case (Some t)
      with step less.prems True have "I t" "(t, s) \<in> r" by blast+
      with less.IH show ?thesis using True Some by (simp add: while_ub.simps)
    qed
  qed
qed

lemma while_ub_total:
  assumes "wf r" and "I s"
    and step: "\<And>s. I s \<Longrightarrow> b s \<Longrightarrow> \<exists>t. c s = Some t \<and> I t \<and> (t, s) \<in> r"
  shows "\<exists>t. while_ub b c s = Some (Some t) \<and> I t \<and> \<not> b t"
  using assms(1,2)
proof (induction s rule: wf_induct_rule)
  case (less s)
  show ?case
  proof (cases "b s")
    case False
    with less.prems show ?thesis by (simp add: while_ub.simps)
  next
    case True
    with step less.prems obtain t where "c s = Some t" "I t" "(t, s) \<in> r" by blast
    with less.IH show ?thesis using True by (simp add: while_ub.simps)
  qed
qed

text \<open>
  Sequencing of steps that may diverge (the outer \<^const>\<open>None\<close>) or run into undefined
  behaviour (the inner one).
\<close>

definition run_then :: "'a option option \<Rightarrow> ('a \<Rightarrow> 'b option option) \<Rightarrow> 'b option option" where
  "run_then r f = (case r of None \<Rightarrow> None | Some None \<Rightarrow> Some None | Some (Some a) \<Rightarrow> f a)"

fun run_list :: "('i \<Rightarrow> 's \<Rightarrow> 's option option) \<Rightarrow> 'i list \<Rightarrow> 's \<Rightarrow> 's option option" where
  "run_list f [] s = Some (Some s)"
| "run_list f (i # js) s = run_then (f i s) (run_list f js)"

lemma run_then_Some [simp]: "run_then (Some (Some a)) f = f a" "run_then (Some None) f = Some None"
    "run_then None f = None"
  by (simp_all add: run_then_def)

lemma run_then_eq: "run_then r f = Some (Some b) \<longleftrightarrow> (\<exists>a. r = Some (Some a) \<and> f a = Some (Some b))"
  by (auto simp: run_then_def split: option.splits)

lemma run_list_inv:
  assumes "run_list f xs s = Some (Some s')" and "P s"
    and "\<And>x s t. x \<in> set xs \<Longrightarrow> P s \<Longrightarrow> f x s = Some (Some t) \<Longrightarrow> P t"
  shows "P s'"
  using assms
proof (induction xs arbitrary: s)
  case (Cons x xs)
  then obtain t where t: "f x s = Some (Some t)" "run_list f xs t = Some (Some s')" by (auto simp: run_then_eq)
  show ?case
    by (rule Cons.IH[of t]) (use t Cons.prems(2,3) in \<open>auto intro: Cons.prems(3)[of x s t]\<close>)
qed simp

section \<open>Narrow integers and C division\<close>

definition u8 :: "int \<Rightarrow> int" where
  "u8 v = v mod 256"

definition u16 :: "int \<Rightarrow> int" where
  "u16 v = v mod 65536"

definition i8 :: "int \<Rightarrow> int" where
  "i8 v = (v + 128) mod 256 - 128"

definition i16 :: "int \<Rightarrow> int" where
  "i16 v = (v + 32768) mod 65536 - 32768"

definition i32 :: "int \<Rightarrow> int" where
  "i32 v = (v + 2147483648) mod 4294967296 - 2147483648"

definition cdiv :: "int \<Rightarrow> int \<Rightarrow> int" where
  "cdiv a b = sgn a * sgn b * (\<bar>a\<bar> div \<bar>b\<bar>)"

definition crem :: "int \<Rightarrow> int \<Rightarrow> int" where
  "crem a b = a - cdiv a b * b"

lemma u8_id [c_simps]: "0 \<le> v \<Longrightarrow> v < 256 \<Longrightarrow> u8 v = v"
  by (simp add: u8_def)

lemma u8_range: "0 \<le> u8 v" "u8 v < 256"
  by (simp_all add: u8_def)

lemma u16_id [c_simps]: "0 \<le> v \<Longrightarrow> v < 65536 \<Longrightarrow> u16 v = v"
  by (simp add: u16_def)

lemma u16_range: "0 \<le> u16 v" "u16 v < 65536"
  by (simp_all add: u16_def)

lemma i8_id [c_simps]: "-128 \<le> v \<Longrightarrow> v < 128 \<Longrightarrow> i8 v = v"
  by (simp add: i8_def)

lemma i8_range: "-128 \<le> i8 v" "i8 v < 128"
  using pos_mod_bound[of 256 "v + 128"] by (simp_all add: i8_def)

lemma i16_range: "-32768 \<le> i16 v" "i16 v < 32768"
  using pos_mod_bound[of 65536 "v + 32768"] by (simp_all add: i16_def)

lemma cdiv_nonneg [c_simps]: "0 \<le> a \<Longrightarrow> 0 < b \<Longrightarrow> cdiv a b = a div b"
  by (cases "a = 0") (simp_all add: cdiv_def sgn_if)

lemma crem_nonneg [c_simps]: "0 \<le> a \<Longrightarrow> 0 < b \<Longrightarrow> crem a b = a mod b"
  by (simp add: crem_def cdiv_nonneg minus_div_mult_eq_mod)

section \<open>Step relations\<close>

text \<open>
  Threads and timers that share the globals are step relations. What a component promises is an
  invariant that every step keeps, and a condition that holds under the invariant.
\<close>

locale machine =
  fixes step :: "'s \<Rightarrow> 's \<Rightarrow> bool" and inv :: "'s \<Rightarrow> bool"
  assumes inv_step: "inv s \<Longrightarrow> step s t \<Longrightarrow> inv t"
begin

lemma inv_run: "step\<^sup>*\<^sup>* s t \<Longrightarrow> inv s \<Longrightarrow> inv t"
  by (induction rule: rtranclp_induct) (auto intro: inv_step)

end

locale safe_machine = machine +
  fixes safe :: "'s \<Rightarrow> bool"
  assumes inv_safe: "inv s \<Longrightarrow> safe s"
begin

lemma safe_run: "step\<^sup>*\<^sup>* s t \<Longrightarrow> inv s \<Longrightarrow> safe t"
  using inv_run inv_safe by blast

end

end
