(* ===== verification/Soft_Float.thy ===== *)
theory Soft_Float
  imports C_Prelude Complex_Main "HOL-Library.Log_Nat"
begin

text \<open>
  The floating-point types of the program: \<open>float\<close>/\<open>float32_t\<close> is IEEE 754 binary32 and
  \<open>double\<close> is binary64, rounded to nearest, ties to even. A finite value is its rational
  value; the sign of zero is not kept, since the code never divides by a computed zero whose
  sign could be negative and still uses the result. The elementary functions of the C
  library (\<open>pow\<close>, \<open>atan\<close>, \<open>sin\<close>, \<open>cos\<close>) are not specified to be correctly rounded and
  stay parameters of the definitions that call them; \<open>sqrt\<close> is specified, and is defined here.

  The first part is the rounding operation \<open>fround\<close> and its laws (monotone, exact on
  representable values), stated as the locale \<open>rounding\<close> and interpreted for both formats.
  The second part wraps the two formats as the types \<open>f32\<close> and \<open>f64\<close> and instantiates the
  arithmetic classes, so that the component theories read like the C expressions.
\<close>

named_theorems fl_simps \<open>evaluation of floating-point expressions\<close>

section \<open>Rounding a rational to a binary format\<close>

text \<open>\<open>ilog2 q\<close> is the exponent of the leading bit of \<open>q > 0\<close>.\<close>

definition ilog2 :: "rat \<Rightarrow> int" where
  "ilog2 q = (let (n, d) = quotient_of q; k = bitlen n - bitlen d
     in if 2 powi k \<le> q then k else k - 1)"

text \<open>The nearest integer, the even one of two.\<close>

definition rne :: "rat \<Rightarrow> int" where
  "rne q = (let f = \<lfloor>q\<rfloor>; r = q - of_int f
     in if r < 1 / 2 then f else if 1 / 2 < r then f + 1 else if even f then f else f + 1)"

datatype fl = Fin rat | PInf | NInf | NaN

record fmt =
  prec :: int
  emin :: int
  emax :: int

definition binary32 :: fmt where
  "binary32 = \<lparr>prec = 24, emin = -126, emax = 127\<rparr>"

definition binary64 :: fmt where
  "binary64 = \<lparr>prec = 53, emin = -1022, emax = 1023\<rparr>"

text \<open>The exponent of the last place kept for a value of magnitude \<open>q\<close>.\<close>

definition qexp :: "fmt \<Rightarrow> rat \<Rightarrow> int" where
  "qexp f q = max (ilog2 \<bar>q\<bar>) (emin f) - (prec f - 1)"

definition rnd_fin :: "fmt \<Rightarrow> rat \<Rightarrow> rat" where
  "rnd_fin f q = (if q = 0 then 0
     else of_int (rne (q / 2 powi qexp f q)) * 2 powi qexp f q)"

definition fround :: "fmt \<Rightarrow> rat \<Rightarrow> fl" where
  "fround f q = (let y = rnd_fin f q
     in if y \<noteq> 0 \<and> emax f < ilog2 \<bar>y\<bar> then (if 0 < y then PInf else NInf) else Fin y)"

section \<open>Laws of rounding\<close>

lemma ilog2_bounds:
  assumes "0 < q"
  shows "2 powi ilog2 q \<le> q \<and> q < 2 powi (ilog2 q + 1)"
proof -
  obtain n d where nd: "quotient_of q = (n, d)" by (cases "quotient_of q")
  have d: "0 < d" using quotient_of_denom_pos[OF nd] .
  have q: "q = of_int n / of_int d" using quotient_of_div[OF nd] .
  have n: "0 < n" using assms d unfolding q by (simp add: zero_less_divide_iff)
  have pn: "0 < bitlen n" "0 < bitlen d" using n d bitlen_eq_zero_iff[of n] bitlen_eq_zero_iff[of d] bitlen_nonneg[of n] bitlen_nonneg[of d] by linarith+
  have bn: "2 powi (bitlen n - 1) \<le> (of_int n :: rat) \<and> (of_int n :: rat) < 2 powi bitlen n"
  proof -
    have "2 ^ nat (bitlen n - 1) \<le> n \<and> n < 2 ^ nat (bitlen n)" using bitlen_bounds[OF n] .
    then have "(of_int (2 ^ nat (bitlen n - 1)) :: rat) \<le> of_int n
        \<and> (of_int n :: rat) < of_int (2 ^ nat (bitlen n))"
      by (simp only: of_int_le_iff of_int_less_iff)
    then show ?thesis using pn by (simp add: power_int_def)
  qed
  have bd: "2 powi (bitlen d - 1) \<le> (of_int d :: rat) \<and> (of_int d :: rat) < 2 powi bitlen d"
  proof -
    have "2 ^ nat (bitlen d - 1) \<le> d \<and> d < 2 ^ nat (bitlen d)" using bitlen_bounds[OF d] .
    then have "(of_int (2 ^ nat (bitlen d - 1)) :: rat) \<le> of_int d
        \<and> (of_int d :: rat) < of_int (2 ^ nat (bitlen d))"
      by (simp only: of_int_le_iff of_int_less_iff)
    then show ?thesis using pn by (simp add: power_int_def)
  qed
  let ?k = "bitlen n - bitlen d"
  have up: "q < 2 powi (?k + 1)"
  proof -
    have "of_int n < (2 powi bitlen n :: rat)" using bn by simp
    also have "\<dots> = 2 powi (?k + 1) * 2 powi (bitlen d - 1)"
      by (simp add: power_int_add[symmetric])
    also have "\<dots> \<le> 2 powi (?k + 1) * of_int d" using bd by (intro mult_left_mono) simp_all
    finally show ?thesis unfolding q using d by (simp add: divide_simps)
  qed
  have lo: "2 powi (?k - 1) \<le> q"
  proof -
    have "2 powi (?k - 1) * of_int d \<le> (2 powi (?k - 1) * 2 powi bitlen d :: rat)"
      using bd by (intro mult_left_mono) simp_all
    also have "\<dots> = 2 powi (bitlen n - 1)" by (simp add: power_int_add[symmetric])
    also have "\<dots> \<le> of_int n" using bn by simp
    finally show ?thesis unfolding q using d by (simp add: divide_simps)
  qed
  show ?thesis using up lo by (simp add: ilog2_def nd Let_def)
qed

lemma powi2_less_iff: "(2 powi a :: rat) < 2 powi b \<longleftrightarrow> a < b"
  using power_int_strict_increasing[of a b "2::rat"] power_int_increasing[of b a "2::rat"]
  by (cases "a < b") (auto simp: not_less)

lemma powi2_le_iff: "(2 powi a :: rat) \<le> 2 powi b \<longleftrightarrow> a \<le> b"
  using powi2_less_iff[of b a] by linarith

lemma ilog2_unique:
  assumes "2 powi e \<le> q" and "q < 2 powi (e + 1)"
  shows "ilog2 q = e"
proof -
  have q: "0 < q" using assms(1) by (rule less_le_trans[rotated]) simp
  from ilog2_bounds[OF q] assms have "(2 powi ilog2 q :: rat) < 2 powi (e + 1)"
    "(2 powi e :: rat) < 2 powi (ilog2 q + 1)" by linarith+
  then show ?thesis unfolding powi2_less_iff by simp
qed

lemma ilog2_mono: "0 < x \<Longrightarrow> x \<le> y \<Longrightarrow> ilog2 x \<le> ilog2 y"
proof -
  assume "0 < x" "x \<le> y"
  then have "(2 powi ilog2 x :: rat) < 2 powi (ilog2 y + 1)"
    using ilog2_bounds[of x] ilog2_bounds[of y] by linarith
  then show ?thesis unfolding powi2_less_iff by simp
qed

lemma rne_of_int [simp]: "rne (of_int n) = n"
  by (simp add: rne_def)

lemma rne_bounds: "\<lfloor>q\<rfloor> \<le> rne q \<and> rne q \<le> \<lfloor>q\<rfloor> + 1"
  by (simp add: rne_def Let_def)

lemma rne_mono: "x \<le> y \<Longrightarrow> rne x \<le> rne y"
proof -
  assume xy: "x \<le> y"
  show ?thesis
  proof (cases "\<lfloor>x\<rfloor> = \<lfloor>y\<rfloor>")
    case True
    with xy show ?thesis by (auto simp: rne_def Let_def)
  next
    case False
    then have "\<lfloor>x\<rfloor> + 1 \<le> \<lfloor>y\<rfloor>" using floor_mono[OF xy] by simp
    then show ?thesis using rne_bounds[of x] rne_bounds[of y] by linarith
  qed
qed

lemma rne_le: "q \<le> of_int n \<Longrightarrow> rne q \<le> n"
  using rne_mono[of q "of_int n"] by simp

lemma rne_ge: "of_int n \<le> q \<Longrightarrow> n \<le> rne q"
  using rne_mono[of "of_int n" q] by simp

lemma rne_split:
  obtains f r where "q = of_int f + r" "0 \<le> r" "r < 1" "\<lfloor>q\<rfloor> = f"
    "rne q = (if r < 1 / 2 then f else if 1 / 2 < r then f + 1 else if even f then f else f + 1)"
proof
  show "q = of_int \<lfloor>q\<rfloor> + (q - of_int \<lfloor>q\<rfloor>)" by simp
  show "0 \<le> q - of_int \<lfloor>q\<rfloor>" "q - of_int \<lfloor>q\<rfloor> < 1" using floor_correct[of q] by simp_all
qed (simp_all add: rne_def Let_def)

lemma rne_minus: "rne (- q) = - rne q"
proof -
  obtain f r where f: "q = of_int f + r" "0 \<le> r" "r < 1"
    "rne q = (if r < 1 / 2 then f else if 1 / 2 < r then f + 1 else if even f then f else f + 1)"
    by (rule rne_split)
  show ?thesis
  proof (cases "r = 0")
    case True
    then have "- q = of_int (- f)" using f(1) by simp
    then show ?thesis using f(4) True by (simp only: rne_of_int) simp
  next
    case False
    then have fl: "\<lfloor>- q\<rfloor> = - f - 1" using f(1-3) by (intro floor_unique) simp_all
    have r: "- q - of_int (- f - 1) = 1 - r" using f(1) by simp
    show ?thesis unfolding rne_def[of "- q"] fl Let_def r f(4) by auto
  qed
qed

lemma rne_close: "\<bar>of_int (rne q) - q\<bar> \<le> 1 / 2"
proof -
  obtain f r where "q = of_int f + r" "0 \<le> r" "r < 1"
    "rne q = (if r < 1 / 2 then f else if 1 / 2 < r then f + 1 else if even f then f else f + 1)"
    by (rule rne_split)
  then show ?thesis by (auto simp: abs_le_iff)
qed

lemma qexp_minus: "qexp f (- q) = qexp f q"
  by (simp add: qexp_def)

lemma rnd_fin_minus: "rnd_fin f (- q) = - rnd_fin f q"
  by (simp add: rnd_fin_def qexp_minus rne_minus)

lemma rnd_fin_0 [simp]: "rnd_fin f 0 = 0"
  by (simp add: rnd_fin_def)

lemma rnd_fin_nonneg: "0 \<le> q \<Longrightarrow> 0 \<le> rnd_fin f q"
  by (simp add: rnd_fin_def rne_ge)

text \<open>Upper and lower bounds of the rounded value by the powers of two around it.\<close>

lemma rnd_fin_le_powi:
  assumes "0 < q" and "1 \<le> prec f"
  shows "rnd_fin f q \<le> 2 powi (max (ilog2 q) (emin f) + 1)"
proof -
  let ?E = "max (ilog2 q) (emin f)" and ?Q = "qexp f q"
  have Q: "?E + 1 = prec f + ?Q" using assms(1) by (simp add: qexp_def)
  have "q < 2 powi (ilog2 q + 1)" using ilog2_bounds[OF assms(1)] by simp
  also have "\<dots> \<le> 2 powi (?E + 1)" by (simp add: powi2_le_iff)
  also have "\<dots> = 2 powi ?Q * 2 powi prec f" by (simp add: Q power_int_add mult.commute)
  finally have "q / 2 powi ?Q \<le> 2 powi prec f" by (simp add: divide_simps mult.commute)
  then have "q / 2 powi ?Q \<le> of_int (2 ^ nat (prec f))" using assms(2) by (simp add: power_int_def)
  then have "rne (q / 2 powi ?Q) \<le> 2 ^ nat (prec f)" by (rule rne_le)
  then have "of_int (rne (q / 2 powi ?Q)) \<le> (of_int (2 ^ nat (prec f)) :: rat)"
    by (simp only: of_int_le_iff)
  then have "of_int (rne (q / 2 powi ?Q)) * 2 powi ?Q \<le> (2 powi prec f * 2 powi ?Q :: rat)"
    using assms(2) by (intro mult_right_mono) (simp_all add: power_int_def)
  also have "\<dots> = 2 powi (?E + 1)" by (simp add: Q power_int_add)
  finally show ?thesis using assms(1) by (simp add: rnd_fin_def)
qed

lemma rnd_fin_ge_powi:
  assumes "0 < q" and "1 \<le> prec f" and "emin f \<le> ilog2 q"
  shows "2 powi ilog2 q \<le> rnd_fin f q"
proof -
  let ?E = "ilog2 q" and ?Q = "qexp f q"
  have "?E = (prec f - 1) + ?Q" using assms(1,3) by (simp add: qexp_def)
  then have Q: "2 powi (prec f - 1) * 2 powi ?Q = (2 powi ?E :: rat)"
    using power_int_add[of "2::rat" "prec f - 1" ?Q] by simp
  note Q
  also have "\<dots> \<le> q" using ilog2_bounds[OF assms(1)] by simp
  finally have "2 powi (prec f - 1) \<le> q / 2 powi ?Q" by (simp add: divide_simps mult.commute)
  then have "of_int (2 ^ nat (prec f - 1)) \<le> q / 2 powi ?Q" using assms(2) by (simp add: power_int_def)
  then have "2 ^ nat (prec f - 1) \<le> rne (q / 2 powi ?Q)" by (rule rne_ge)
  then have "(of_int (2 ^ nat (prec f - 1)) :: rat) \<le> of_int (rne (q / 2 powi ?Q))"
    by (simp only: of_int_le_iff)
  then have "(2 powi (prec f - 1) * 2 powi ?Q :: rat) \<le> of_int (rne (q / 2 powi ?Q)) * 2 powi ?Q"
    using assms(2) by (intro mult_right_mono) (simp_all add: power_int_def)
  then show ?thesis using assms(1) Q by (simp add: rnd_fin_def)
qed

lemma rnd_fin_mono_pos:
  assumes "0 < x" and "x \<le> y" and "1 \<le> prec f"
  shows "rnd_fin f x \<le> rnd_fin f y"
proof (cases "qexp f x = qexp f y")
  case True
  have "x / 2 powi qexp f x \<le> y / 2 powi qexp f x" using assms(2) by (intro divide_right_mono) simp_all
  then have "(of_int (rne (x / 2 powi qexp f x)) :: rat) \<le> of_int (rne (y / 2 powi qexp f x))"
    by (simp add: rne_mono)
  then show ?thesis using assms(1,2) True by (simp add: rnd_fin_def)
next
  case False
  have l: "ilog2 x \<le> ilog2 y" using assms(1,2) by (rule ilog2_mono)
  then have e: "max (ilog2 x) (emin f) + 1 \<le> ilog2 y" "emin f \<le> ilog2 y"
    using False assms(1,2) by (auto simp: qexp_def max_def split: if_splits)
  have "rnd_fin f x \<le> 2 powi (max (ilog2 x) (emin f) + 1)"
    using assms(1,3) by (rule rnd_fin_le_powi)
  also have "\<dots> \<le> 2 powi ilog2 y" using e(1) by (simp add: powi2_le_iff)
  also have "\<dots> \<le> rnd_fin f y" using assms e(2) by (intro rnd_fin_ge_powi) simp_all
  finally show ?thesis .
qed

lemma rnd_fin_mono:
  assumes "x \<le> y" and "1 \<le> prec f"
  shows "rnd_fin f x \<le> rnd_fin f y"
proof -
  consider "0 < x" | "y < 0" | "x \<le> 0" "0 \<le> y" by linarith
  then show ?thesis
  proof cases
    case 1 then show ?thesis using assms rnd_fin_mono_pos by blast
  next
    case 2
    then have "rnd_fin f (- y) \<le> rnd_fin f (- x)" using assms by (intro rnd_fin_mono_pos) simp_all
    then show ?thesis by (simp add: rnd_fin_minus)
  next
    case 3
    then have "rnd_fin f x \<le> 0" using rnd_fin_nonneg[of "- x" f] by (simp add: rnd_fin_minus)
    also have "\<dots> \<le> rnd_fin f y" using 3 by (simp add: rnd_fin_nonneg)
    finally show ?thesis .
  qed
qed

text \<open>A value with at most \<open>prec\<close> significant bits is not changed.\<close>

lemma rnd_fin_exact:
  assumes "\<bar>m\<bar> < 2 ^ nat (prec f)" and "1 \<le> prec f" and "emin f - (prec f - 1) \<le> e"
  shows "rnd_fin f (of_int m * 2 powi e) = of_int m * 2 powi e"
proof (cases "m = 0")
  case True then show ?thesis by simp
next
  case False
  let ?q = "of_int m * 2 powi e :: rat"
  have q: "0 < \<bar>?q\<bar>" using False by simp
  have "\<bar>?q\<bar> = of_int \<bar>m\<bar> * 2 powi e" by (simp add: abs_mult)
  also have "\<dots> < of_int (2 ^ nat (prec f)) * 2 powi e"
    using assms(1) by (intro mult_strict_right_mono) (simp_all only: of_int_less_iff, simp)
  also have "\<dots> = 2 powi (prec f + e)" using assms(2) by (simp add: power_int_def[of _ "prec f"] power_int_add)
  finally have "(2 powi ilog2 \<bar>?q\<bar> :: rat) < 2 powi (prec f + e)"
    using ilog2_bounds[OF q] by linarith
  then have "ilog2 \<bar>?q\<bar> \<le> prec f + e - 1" unfolding powi2_less_iff by simp
  then have Q: "qexp f ?q \<le> e" using assms(3) by (simp add: qexp_def)
  have "?q / 2 powi qexp f ?q = of_int m * 2 powi (e - qexp f ?q)"
    by (simp add: power_int_diff)
  also have "\<dots> = of_int (m * 2 ^ nat (e - qexp f ?q))" using Q by (simp add: power_int_def[of _ "e - _"])
  finally have eq: "?q / 2 powi qexp f ?q = of_int (m * 2 ^ nat (e - qexp f ?q))" .
  have "rnd_fin f ?q = of_int (rne (?q / 2 powi qexp f ?q)) * 2 powi qexp f ?q"
    using False by (simp add: rnd_fin_def)
  also have "\<dots> = ?q / 2 powi qexp f ?q * 2 powi qexp f ?q" by (simp only: eq rne_of_int)
  finally show ?thesis by simp
qed


lemma rnd_fin_idem:
  assumes "2 \<le> prec f"
  shows "rnd_fin f (rnd_fin f x) = rnd_fin f x"
proof (cases "x = 0")
  case True then show ?thesis by simp
next
  case False
  define e where "e = qexp f x"
  define m where "m = rne (x / 2 powi e)"
  have y: "rnd_fin f x = of_int m * 2 powi e" using False by (simp add: rnd_fin_def m_def e_def)
  have e: "emin f - (prec f - 1) \<le> e" by (simp add: e_def qexp_def)
  have "\<bar>rnd_fin f x\<bar> \<le> 2 powi (max (ilog2 \<bar>x\<bar>) (emin f) + 1)"
  proof (cases "0 < x")
    case True
    then show ?thesis using rnd_fin_le_powi[of x f] rnd_fin_nonneg[of x f] assms by simp
  next
    case neg: False
    then have "0 < - x" using False by simp
    then show ?thesis using rnd_fin_le_powi[of "- x" f] rnd_fin_nonneg[of "- x" f] assms
      by (simp add: rnd_fin_minus)
  qed
  also have "max (ilog2 \<bar>x\<bar>) (emin f) + 1 = prec f + e" by (simp add: e_def qexp_def)
  also have "(2 powi (prec f + e) :: rat) = of_int (2 ^ nat (prec f)) * 2 powi e"
    using assms by (simp add: power_int_add power_int_def[of _ "prec f"])
  finally have "(of_int \<bar>m\<bar> :: rat) * 2 powi e \<le> of_int (2 ^ nat (prec f)) * 2 powi e"
    by (simp add: y abs_mult)
  then have m: "\<bar>m\<bar> \<le> 2 ^ nat (prec f)"
    by (simp only: mult_le_cancel_right_pos zero_less_power_int of_int_le_iff zero_less_numeral)
  show ?thesis
  proof (cases "\<bar>m\<bar> = 2 ^ nat (prec f)")
    case False
    then show ?thesis unfolding y using m e assms by (intro rnd_fin_exact) simp_all
  next
    case True
    then have "m = 2 ^ nat (prec f) \<or> m = - (2 ^ nat (prec f))" by linarith
    then have "rnd_fin f x = of_int 1 * 2 powi (prec f + e) \<or> rnd_fin f x = of_int (- 1) * 2 powi (prec f + e)"
      unfolding y using assms by (auto simp: power_int_add power_int_def[of _ "prec f"])
    moreover have "(1::int) < 2 ^ nat (prec f)" using assms by (intro one_less_power) simp_all
    ultimately show ?thesis
      using rnd_fin_exact[of 1 f "prec f + e"] rnd_fin_exact[of "-1" f "prec f + e"] e assms by auto
  qed
qed

section \<open>Comparison and the interface of a rounding operation\<close>

definition fle :: "fl \<Rightarrow> fl \<Rightarrow> bool" where
  "fle x y = (case x of NaN \<Rightarrow> False
     | NInf \<Rightarrow> y \<noteq> NaN
     | PInf \<Rightarrow> y = PInf
     | Fin a \<Rightarrow> (case y of Fin b \<Rightarrow> a \<le> b | PInf \<Rightarrow> True | _ \<Rightarrow> False))"

definition flt :: "fl \<Rightarrow> fl \<Rightarrow> bool" where
  "flt x y = (fle x y \<and> x \<noteq> y)"

definition fneg :: "fl \<Rightarrow> fl" where
  "fneg x = (case x of NaN \<Rightarrow> NaN | PInf \<Rightarrow> NInf | NInf \<Rightarrow> PInf | Fin a \<Rightarrow> Fin (- a))"

lemma fle_simps [simp]:
  "fle (Fin a) (Fin b) = (a \<le> b)" "fle NInf (Fin b)" "fle (Fin a) PInf" "fle NInf PInf"
  "fle PInf PInf" "fle NInf NInf" "\<not> fle NaN x" "\<not> fle x NaN"
  "\<not> fle PInf (Fin b)" "\<not> fle (Fin a) NInf" "\<not> fle PInf NInf"
  by (simp_all add: fle_def split: fl.splits)

lemma flt_simps [simp]:
  "flt (Fin a) (Fin b) = (a < b)" "flt NInf (Fin b)" "flt (Fin a) PInf" "flt NInf PInf"
  "\<not> flt x x" "\<not> flt NaN x" "\<not> flt x NaN" "\<not> flt PInf x" "\<not> flt x NInf"
  by (auto simp: flt_def fle_def split: fl.splits)

lemma fneg_simps [simp]:
  "fneg (Fin a) = Fin (- a)" "fneg PInf = NInf" "fneg NInf = PInf" "fneg NaN = NaN"
  by (simp_all add: fneg_def)

lemma fle_trans: "fle x y \<Longrightarrow> fle y z \<Longrightarrow> fle x z"
  by (cases x; cases y; cases z) simp_all

locale rounding =
  fixes rnd :: "rat \<Rightarrow> fl"
  assumes rnd_mono: "x \<le> y \<Longrightarrow> fle (rnd x) (rnd y)"
    and rnd_zero: "rnd 0 = Fin 0"
    and rnd_neg: "rnd (- x) = fneg (rnd x)"
    and rnd_idem: "rnd x = Fin y \<Longrightarrow> rnd y = Fin y"
begin

lemma not_nan: "rnd x \<noteq> NaN"
  using rnd_mono[of x x] by auto

lemma upper: "rnd b = Fin b \<Longrightarrow> x \<le> b \<Longrightarrow> fle (rnd x) (Fin b)"
  using rnd_mono[of x b] by simp

lemma lower: "rnd b = Fin b \<Longrightarrow> b \<le> x \<Longrightarrow> fle (Fin b) (rnd x)"
  using rnd_mono[of b x] by simp

lemma nonneg: "0 \<le> x \<Longrightarrow> fle (Fin 0) (rnd x)"
  using lower[OF rnd_zero] .

lemma nonpos: "x \<le> 0 \<Longrightarrow> fle (rnd x) (Fin 0)"
  using upper[OF rnd_zero] .

text \<open>A value between two representable ones rounds to a value between them.\<close>

lemma between:
  assumes "rnd a = Fin a" and "rnd b = Fin b" and "a \<le> x" and "x \<le> b"
  obtains y where "rnd x = Fin y" "a \<le> y" "y \<le> b"
proof -
  have "fle (Fin a) (rnd x)" "fle (rnd x) (Fin b)" using assms lower upper by simp_all
  then show ?thesis using that by (cases "rnd x") simp_all
qed

end

lemma fround_alt:
  "fround f q = (let y = rnd_fin f q
     in if 2 powi (emax f + 1) \<le> y then PInf
        else if y \<le> - (2 powi (emax f + 1)) then NInf else Fin y)"
proof -
  define y where "y = rnd_fin f q"
  have *: "emax f < ilog2 z \<longleftrightarrow> 2 powi (emax f + 1) \<le> z" if "0 < z" for z
  proof
    assume "emax f < ilog2 z"
    then have "(2 powi (emax f + 1) :: rat) \<le> 2 powi ilog2 z" by (simp add: powi2_le_iff)
    then show "2 powi (emax f + 1) \<le> z" using ilog2_bounds[OF that] by simp
  next
    assume "2 powi (emax f + 1) \<le> z"
    then have "(2 powi (emax f + 1) :: rat) < 2 powi (ilog2 z + 1)"
      using ilog2_bounds[OF that] by linarith
    then show "emax f < ilog2 z" unfolding powi2_less_iff by simp
  qed
  have P: "0 < (2 powi (emax f + 1) :: rat)" by simp
  consider "y = 0" | "0 < y" | "y < 0" by linarith
  then show ?thesis
  proof cases
    case 1
    then show ?thesis using P by (simp add: fround_def y_def[symmetric] not_le)
  next
    case 2
    then show ?thesis using P *[of y] by (auto simp: fround_def y_def[symmetric])
  next
    case 3
    then have "\<not> 2 powi (emax f + 1) \<le> y" using P by linarith
    then show ?thesis using 3 *[of "- y"] by (auto simp: fround_def y_def[symmetric] le_minus_iff)
  qed
qed

lemma fround_mono:
  assumes "x \<le> y" and "1 \<le> prec f"
  shows "fle (fround f x) (fround f y)"
proof -
  have "0 < (2 powi (emax f + 1) :: rat)" by simp
  with rnd_fin_mono[OF assms] show ?thesis
    by (auto simp: fround_alt Let_def not_le)
qed

lemma fround_Fin:
  "fround f q = Fin y \<longleftrightarrow> y = rnd_fin f q \<and> \<bar>y\<bar> < 2 powi (emax f + 1)"
  by (auto simp: fround_alt Let_def abs_less_iff)

lemma fround_exact:
  assumes "\<bar>m\<bar> < 2 ^ nat (prec f)" and "1 \<le> prec f" and "emin f - (prec f - 1) \<le> e"
    and "\<bar>of_int m * 2 powi e\<bar> < (2 powi (emax f + 1) :: rat)"
  shows "fround f (of_int m * 2 powi e) = Fin (of_int m * 2 powi e)"
  using assms rnd_fin_exact[of m f e] by (simp add: fround_Fin)

lemma rounding_fround:
  assumes "2 \<le> prec f"
  shows "rounding (fround f)"
proof
  show "fle (fround f x) (fround f y)" if "x \<le> y" for x y
    using that assms by (intro fround_mono) simp_all
  show "fround f 0 = Fin 0" by (simp add: fround_def)
  show "fround f (- x) = fneg (fround f x)" for x
    by (auto simp: fround_def Let_def rnd_fin_minus)
  show "fround f y = Fin y" if "fround f x = Fin y" for x y
    using that assms by (auto simp: fround_Fin rnd_fin_idem)
qed

interpretation b32: rounding "fround binary32"
  by (rule rounding_fround) (simp add: binary32_def)

interpretation b64: rounding "fround binary64"
  by (rule rounding_fround) (simp add: binary64_def)

lemma fround_int64 [fl_simps]:
  assumes "\<bar>n\<bar> < 2 ^ 53"
  shows "fround binary64 (of_int n) = Fin (of_int n)"
proof -
  have "\<bar>of_int n\<bar> < (of_int (2 ^ 53) :: rat)" using assms by linarith
  also have "\<dots> \<le> 2 powi (emax binary64 + 1)" by (simp add: binary64_def power_int_def)
  finally show ?thesis using fround_exact[of n binary64 0] assms by (simp add: binary64_def)
qed

lemma fround_int32 [fl_simps]:
  assumes "\<bar>n\<bar> < 2 ^ 24"
  shows "fround binary32 (of_int n) = Fin (of_int n)"
proof -
  have "\<bar>of_int n\<bar> < (of_int (2 ^ 24) :: rat)" using assms by linarith
  also have "\<dots> \<le> 2 powi (emax binary32 + 1)" by (simp add: binary32_def power_int_def)
  finally show ?thesis using fround_exact[of n binary32 0] assms by (simp add: binary32_def)
qed

section \<open>Arithmetic\<close>

definition fadd :: "fmt \<Rightarrow> fl \<Rightarrow> fl \<Rightarrow> fl" where
  "fadd f x y = (case x of NaN \<Rightarrow> NaN
     | Fin a \<Rightarrow> (case y of Fin b \<Rightarrow> fround f (a + b) | _ \<Rightarrow> y)
     | PInf \<Rightarrow> (case y of NaN \<Rightarrow> NaN | NInf \<Rightarrow> NaN | _ \<Rightarrow> PInf)
     | NInf \<Rightarrow> (case y of NaN \<Rightarrow> NaN | PInf \<Rightarrow> NaN | _ \<Rightarrow> NInf))"

definition fsgn :: "fl \<Rightarrow> rat" where
  "fsgn x = (case x of Fin a \<Rightarrow> sgn a | PInf \<Rightarrow> 1 | NInf \<Rightarrow> - 1 | NaN \<Rightarrow> 0)"

definition finf :: "rat \<Rightarrow> fl" where
  "finf s = (if 0 < s then PInf else if s < 0 then NInf else NaN)"

definition fmul :: "fmt \<Rightarrow> fl \<Rightarrow> fl \<Rightarrow> fl" where
  "fmul f x y = (case x of NaN \<Rightarrow> NaN
     | Fin a \<Rightarrow> (case y of Fin b \<Rightarrow> fround f (a * b) | _ \<Rightarrow> finf (fsgn x * fsgn y))
     | _ \<Rightarrow> finf (fsgn x * fsgn y))"

definition fdiv :: "fmt \<Rightarrow> fl \<Rightarrow> fl \<Rightarrow> fl" where
  "fdiv f x y = (case x of NaN \<Rightarrow> NaN
     | Fin a \<Rightarrow> (case y of NaN \<Rightarrow> NaN
         | Fin b \<Rightarrow> if b = 0 then finf a else fround f (a / b)
         | _ \<Rightarrow> Fin 0)
     | _ \<Rightarrow> (case y of Fin b \<Rightarrow> if b < 0 then fneg x else x | _ \<Rightarrow> NaN))"

definition fabs :: "fl \<Rightarrow> fl" where
  "fabs x = (case x of Fin a \<Rightarrow> Fin \<bar>a\<bar> | NInf \<Rightarrow> PInf | _ \<Rightarrow> x)"

text \<open>Conversion to a 32-bit \<open>int\<close>: towards zero, undefined when the value does not fit.\<close>

definition ftrunc :: "rat \<Rightarrow> int" where
  "ftrunc q = (if 0 \<le> q then \<lfloor>q\<rfloor> else \<lceil>q\<rceil>)"

definition fint :: "fl \<Rightarrow> int option" where
  "fint x = (case x of
     Fin a \<Rightarrow> (if - 2147483648 \<le> ftrunc a \<and> ftrunc a < 2147483648 then Some (ftrunc a) else None)
   | _ \<Rightarrow> None)"

section \<open>The types of the program\<close>

datatype f32 = F32 (v32: fl)
datatype f64 = F64 (v64: fl)

instantiation f32 :: "{plus, minus, uminus, times, inverse, ord, zero, one}"
begin

definition zero_f32 :: f32 where "zero_f32 = F32 (Fin 0)"
definition one_f32 :: f32 where "one_f32 = F32 (Fin 1)"
definition uminus_f32 :: "f32 \<Rightarrow> f32" where "uminus_f32 x = F32 (fneg (v32 x))"
definition plus_f32 :: "f32 \<Rightarrow> f32 \<Rightarrow> f32" where
  "plus_f32 x y = F32 (fadd binary32 (v32 x) (v32 y))"
definition minus_f32 :: "f32 \<Rightarrow> f32 \<Rightarrow> f32" where
  "minus_f32 x y = F32 (fadd binary32 (v32 x) (fneg (v32 y)))"
definition times_f32 :: "f32 \<Rightarrow> f32 \<Rightarrow> f32" where
  "times_f32 x y = F32 (fmul binary32 (v32 x) (v32 y))"
definition divide_f32 :: "f32 \<Rightarrow> f32 \<Rightarrow> f32" where
  "divide_f32 x y = F32 (fdiv binary32 (v32 x) (v32 y))"
definition inverse_f32 :: "f32 \<Rightarrow> f32" where
  "inverse_f32 x = F32 (fdiv binary32 (Fin 1) (v32 x))"
definition less_eq_f32 :: "f32 \<Rightarrow> f32 \<Rightarrow> bool" where "less_eq_f32 x y = fle (v32 x) (v32 y)"
definition less_f32 :: "f32 \<Rightarrow> f32 \<Rightarrow> bool" where "less_f32 x y = flt (v32 x) (v32 y)"

instance ..

end

instantiation f64 :: "{plus, minus, uminus, times, inverse, ord, zero, one}"
begin

definition zero_f64 :: f64 where "zero_f64 = F64 (Fin 0)"
definition one_f64 :: f64 where "one_f64 = F64 (Fin 1)"
definition uminus_f64 :: "f64 \<Rightarrow> f64" where "uminus_f64 x = F64 (fneg (v64 x))"
definition plus_f64 :: "f64 \<Rightarrow> f64 \<Rightarrow> f64" where
  "plus_f64 x y = F64 (fadd binary64 (v64 x) (v64 y))"
definition minus_f64 :: "f64 \<Rightarrow> f64 \<Rightarrow> f64" where
  "minus_f64 x y = F64 (fadd binary64 (v64 x) (fneg (v64 y)))"
definition times_f64 :: "f64 \<Rightarrow> f64 \<Rightarrow> f64" where
  "times_f64 x y = F64 (fmul binary64 (v64 x) (v64 y))"
definition divide_f64 :: "f64 \<Rightarrow> f64 \<Rightarrow> f64" where
  "divide_f64 x y = F64 (fdiv binary64 (v64 x) (v64 y))"
definition inverse_f64 :: "f64 \<Rightarrow> f64" where
  "inverse_f64 x = F64 (fdiv binary64 (Fin 1) (v64 x))"
definition less_eq_f64 :: "f64 \<Rightarrow> f64 \<Rightarrow> bool" where "less_eq_f64 x y = fle (v64 x) (v64 y)"
definition less_f64 :: "f64 \<Rightarrow> f64 \<Rightarrow> bool" where "less_f64 x y = flt (v64 x) (v64 y)"

instance ..

end

lemmas f32_defs = zero_f32_def one_f32_def uminus_f32_def plus_f32_def minus_f32_def
  times_f32_def divide_f32_def inverse_f32_def less_eq_f32_def less_f32_def

lemmas f64_defs = zero_f64_def one_f64_def uminus_f64_def plus_f64_def minus_f64_def
  times_f64_def divide_f64_def inverse_f64_def less_eq_f64_def less_f64_def

text \<open>
  C's equality on floats: NaN is different from everything. \<open>lit\<close> is a literal, a \<open>double\<close>
  in C unless suffixed; the other functions are the conversions the code makes.
\<close>

definition feq :: "fl \<Rightarrow> fl \<Rightarrow> bool" where
  "feq x y = (fle x y \<and> fle y x)"

definition lit :: "rat \<Rightarrow> f64" where
  "lit q = F64 (fround binary64 q)"

definition s_of_int :: "int \<Rightarrow> f32" where
  "s_of_int n = F32 (fround binary32 (of_int n))"

definition d_of_int :: "int \<Rightarrow> f64" where
  "d_of_int n = F64 (fround binary64 (of_int n))"

definition to_d :: "f32 \<Rightarrow> f64" where
  "to_d x = F64 (v32 x)"

definition to_s :: "f64 \<Rightarrow> f32" where
  "to_s x = F32 (case v64 x of Fin a \<Rightarrow> fround binary32 a | y \<Rightarrow> y)"

definition d_abs :: "f64 \<Rightarrow> f64" where
  "d_abs x = F64 (fabs (v64 x))"

definition d_int :: "f64 \<Rightarrow> int option" where
  "d_int x = fint (v64 x)"

definition s_int :: "f32 \<Rightarrow> int option" where
  "s_int x = fint (v32 x)"

end
