(* ===== verification/Float_Sqrt.thy ===== *)
theory Float_Sqrt
  imports Soft_Float
begin

text \<open>
  The C library's \<open>sqrt\<close> on \<open>double\<close>: IEEE 754 requires it correctly rounded. \<open>isqrt\<close> is
  the integer square root, by binary digits; \<open>fsqrt\<close> scales its argument by a power of four
  until the integer root has more than \<open>prec\<close> bits, appends a sticky bit when the root is
  not exact, and rounds. The theorem used by the geometry of the program is that the
  truncated \<open>sqrt\<close> of an integer is its integer square root.
\<close>

section \<open>Integer square root\<close>

function isqrt :: "int \<Rightarrow> int" where
  "isqrt n = (if n \<le> 0 then 0
     else let r = 2 * isqrt (n div 4) in if (r + 1) * (r + 1) \<le> n then r + 1 else r)"
  by pat_completeness auto
termination
  by (relation "measure nat") auto

declare isqrt.simps [simp del]

lemma isqrt_bounds: "0 \<le> n \<Longrightarrow> 0 \<le> isqrt n \<and> isqrt n * isqrt n \<le> n \<and> n < (isqrt n + 1) * (isqrt n + 1)"
proof (induction n rule: isqrt.induct)
  case (1 n)
  show ?case
  proof (cases "n = 0")
    case True
    then show ?thesis by (simp add: isqrt.simps)
  next
    case False
    define q where "q = isqrt (n div 4)"
    have q: "0 \<le> q" "q * q \<le> n div 4" "n div 4 < (q + 1) * (q + 1)"
      using 1 False unfolding q_def by simp_all
    have n: "4 * (n div 4) \<le> n" "n < 4 * (n div 4) + 4" by simp_all
    have "isqrt n = (if (2 * q + 1) * (2 * q + 1) \<le> n then 2 * q + 1 else 2 * q)"
      using False 1 by (subst isqrt.simps) (simp add: q_def Let_def)
    moreover have "(2 * q) * (2 * q) \<le> n" using q(2) n(1) by simp
    moreover have "n < (2 * q + 1 + 1) * (2 * q + 1 + 1)"
    proof -
      have "n < 4 * ((q + 1) * (q + 1))" using q(3) n(2) by linarith
      then show ?thesis by (simp add: algebra_simps)
    qed
    ultimately show ?thesis using q(1) by (simp add: not_le)
  qed
qed

lemma isqrt_unique:
  assumes "0 \<le> r" "r * r \<le> n" "n < (r + 1) * (r + 1)"
  shows "isqrt n = r"
proof -
  have "0 \<le> r * r" by simp
  then have n: "0 \<le> n" using assms(2) by linarith
  note b = isqrt_bounds[OF n]
  have "\<not> r + 1 \<le> isqrt n"
  proof
    assume "r + 1 \<le> isqrt n"
    then have "(r + 1) * (r + 1) \<le> isqrt n * isqrt n" using assms(1) by (intro mult_mono) simp_all
    then show False using b assms(3) by linarith
  qed
  moreover have "\<not> isqrt n + 1 \<le> r"
  proof
    assume "isqrt n + 1 \<le> r"
    then have "(isqrt n + 1) * (isqrt n + 1) \<le> r * r" using b by (intro mult_mono) simp_all
    then show False using b assms(2) by linarith
  qed
  ultimately show ?thesis by linarith
qed

lemma isqrt_mono: "0 \<le> m \<Longrightarrow> m \<le> n \<Longrightarrow> isqrt m \<le> isqrt n"
proof (rule ccontr)
  assume mn: "0 \<le> m" "m \<le> n" "\<not> isqrt m \<le> isqrt n"
  then have n: "0 \<le> n" by simp
  have "(isqrt n + 1) * (isqrt n + 1) \<le> isqrt m * isqrt m"
    using mn(3) isqrt_bounds[OF n] by (intro mult_mono) simp_all
  then show False using isqrt_bounds[OF n] isqrt_bounds[OF mn(1)] mn(2) by linarith
qed

lemma isqrt_square [simp]: "0 \<le> a \<Longrightarrow> isqrt (a * a) = a"
  by (rule isqrt_unique) (simp_all add: algebra_simps)

section \<open>The floating-point square root\<close>

definition sqrt_scale :: "fmt \<Rightarrow> rat \<Rightarrow> nat" where
  "sqrt_scale f q = nat (prec f + 2 - ilog2 q div 2)"

definition sqrt_sticky :: "fmt \<Rightarrow> rat \<Rightarrow> rat" where
  "sqrt_sticky f q =
     (let k = sqrt_scale f q; y = q * 4 ^ k; s = isqrt \<lfloor>y\<rfloor>
      in if of_int (s * s) = y then of_int s / 2 ^ k else of_int (2 * s + 1) / 2 ^ (k + 1))"

definition fsqrt :: "fmt \<Rightarrow> fl \<Rightarrow> fl" where
  "fsqrt f x = (case x of
     Fin q \<Rightarrow> (if q < 0 then NaN else if q = 0 then Fin 0 else fround f (sqrt_sticky f q))
   | PInf \<Rightarrow> PInf | NInf \<Rightarrow> NaN | NaN \<Rightarrow> NaN)"

definition d_sqrt :: "f64 \<Rightarrow> f64" where
  "d_sqrt x = F64 (fsqrt binary64 (v64 x))"

text \<open>
  The value that is rounded lies on the same side of every multiple of \<open>2 ^ - k\<close> as the real
  root, and the rounding boundaries of the format are such multiples.
\<close>

lemma sqrt_sticky_side:
  assumes "0 \<le> q" and "0 \<le> m" and k: "k = sqrt_scale f q"
  shows "of_int m / 2 ^ k \<le> sqrt_sticky f q \<longleftrightarrow> of_int (m * m) \<le> q * 4 ^ k"
proof -
  define y where "y = q * 4 ^ k"
  define s where "s = isqrt \<lfloor>y\<rfloor>"
  have "0 \<le> \<lfloor>y\<rfloor>" using assms(1) by (simp add: y_def)
  note b = isqrt_bounds[OF this, folded s_def]
  have "m * m \<le> \<lfloor>y\<rfloor> \<longleftrightarrow> m \<le> s"
  proof
    assume "m \<le> s"
    then have "m * m \<le> s * s" using assms(2) by (intro mult_mono) simp_all
    then show "m * m \<le> \<lfloor>y\<rfloor>" using b by linarith
  next
    assume m: "m * m \<le> \<lfloor>y\<rfloor>"
    show "m \<le> s"
    proof (rule ccontr)
      assume "\<not> m \<le> s"
      then have "(s + 1) * (s + 1) \<le> m * m" using b by (intro mult_mono) simp_all
      then show False using b m by linarith
    qed
  qed
  then have 1: "of_int (m * m) \<le> y \<longleftrightarrow> m \<le> s" by (simp only: le_floor_iff)
  have "of_int m / 2 ^ k \<le> (of_int s / 2 ^ k :: rat) \<longleftrightarrow> m \<le> s"
    by (simp add: divide_le_cancel)
  moreover have "of_int m / 2 ^ k \<le> (of_int (2 * s + 1) / 2 ^ (k + 1) :: rat) \<longleftrightarrow> m \<le> s"
  proof -
    have "of_int m / 2 ^ k = (of_int (2 * m) / 2 ^ (k + 1) :: rat)" by simp
    then have "of_int m / 2 ^ k \<le> (of_int (2 * s + 1) / 2 ^ (k + 1) :: rat)
        \<longleftrightarrow> (of_int (2 * m) :: rat) \<le> of_int (2 * s + 1)"
      by (simp only: divide_le_cancel) simp
    also have "\<dots> \<longleftrightarrow> m \<le> s" by (simp only: of_int_le_iff) presburger
    finally show ?thesis .
  qed
  ultimately have "of_int m / 2 ^ k \<le> sqrt_sticky f q \<longleftrightarrow> m \<le> s"
    by (auto simp: sqrt_sticky_def Let_def k[symmetric] y_def[symmetric] s_def[symmetric])
  then show ?thesis using 1 y_def by simp
qed

lemma sqrt_scale_int:
  assumes "0 < n" and "n < 2 ^ 40"
  shows "22 \<le> sqrt_scale binary64 (of_int n)"
proof -
  have "(2 powi ilog2 (of_int n) :: rat) \<le> of_int n" using ilog2_bounds[of "of_int n"] assms(1) by simp
  also have "\<dots> < 2 powi 40" using assms(2) by (simp add: power_int_def)
  finally have "ilog2 (of_int n) < 40" unfolding powi2_less_iff .
  then show ?thesis by (simp add: sqrt_scale_def binary64_def)
qed

lemma d_sqrt_trunc:
  assumes "0 \<le> n" and "n < 2 ^ 40"
  shows "d_int (d_sqrt (F64 (Fin (of_int n)))) = Some (isqrt n)"
proof (cases "n = 0")
  case True
  then show ?thesis by (simp add: d_int_def d_sqrt_def fsqrt_def fint_def ftrunc_def isqrt.simps)
next
  case False
  then have n: "0 < n" using assms(1) by simp
  define r where "r = isqrt n"
  define k where "k = sqrt_scale binary64 (of_int n)"
  define v where "v = sqrt_sticky binary64 (of_int n)"
  note rb = isqrt_bounds[OF assms(1), folded r_def]
  have k: "22 \<le> k" using sqrt_scale_int[OF n assms(2)] by (simp add: k_def)
  have r20: "r < 2 ^ 20"
  proof (rule ccontr)
    assume "\<not> r < 2 ^ 20"
    then have "2 ^ 20 * 2 ^ 20 \<le> r * r" by (intro mult_mono) simp_all
    then show False using rb assms(2) by simp
  qed
  have two4: "(4::int) ^ k = 2 ^ k * 2 ^ k" by (simp add: power_mult_distrib[symmetric])
  have side: "of_int m / 2 ^ k \<le> v \<longleftrightarrow> m * m \<le> n * 4 ^ k" if "0 \<le> m" for m
  proof -
    have "of_int m / 2 ^ k \<le> v \<longleftrightarrow> (of_int (m * m) :: rat) \<le> of_int n * 4 ^ k"
      unfolding v_def by (rule sqrt_sticky_side) (use n that in \<open>simp_all add: k_def\<close>)
    also have "\<dots> \<longleftrightarrow> (of_int (m * m) :: rat) \<le> of_int (n * 4 ^ k)" by simp
    finally show ?thesis by (simp only: of_int_le_iff)
  qed
  have lo: "of_int r \<le> v"
  proof -
    have "(r * 2 ^ k) * (r * 2 ^ k) = (r * r) * 4 ^ k" by (simp add: two4 mult.commute mult.left_commute)
    also have "\<dots> \<le> n * 4 ^ k" using rb by (intro mult_right_mono) simp_all
    finally show ?thesis using side[of "r * 2 ^ k"] rb by simp
  qed
  define w :: rat where "w = of_int ((r + 1) * 2 ^ 22 - 1) * 2 powi (- 22)"
  have hi: "v \<le> w"
  proof -
    let ?a = "(r + 1) * 2 ^ 22 - 1 :: int"
    let ?m = "?a * 2 ^ (k - 22)"
    have a: "0 \<le> ?a" using rb by simp
    have kk: "(2::int) ^ k = 2 ^ 22 * 2 ^ (k - 22)"
      using k power_add[of "2::int" 22 "k - 22"] by (simp only: le_add_diff_inverse)
    have "?a * ?a = (r + 1) * (r + 1) * (2 ^ 22 * 2 ^ 22) - (2 ^ 23 * (r + 1) - 1)"
      by (simp add: algebra_simps)
    also have "\<dots> > n * (2 ^ 22 * 2 ^ 22)"
    proof -
      have "(n + 1) * (2 ^ 22 * 2 ^ 22) \<le> (r + 1) * (r + 1) * (2 ^ 22 * 2 ^ 22)"
        using rb by (intro mult_right_mono) simp_all
      then show ?thesis using r20 by (simp add: algebra_simps)
    qed
    finally have "n * (2 ^ 22 * 2 ^ 22) * (2 ^ (k - 22) * 2 ^ (k - 22)) < ?a * ?a * (2 ^ (k - 22) * 2 ^ (k - 22))"
      by (intro mult_strict_right_mono) simp_all
    also have "\<dots> = ?m * ?m" by (simp only: ac_simps)
    finally have "n * 4 ^ k < ?m * ?m" unfolding two4 kk by (simp only: ac_simps)
    then have "\<not> of_int ?m / 2 ^ k \<le> v" using side[of ?m] a by simp
    moreover have "of_int ?m / 2 ^ k = w"
    proof -
      have "(2::rat) ^ k = 2 ^ 22 * 2 ^ (k - 22)"
        using k power_add[of "2::rat" 22 "k - 22"] by (simp only: le_add_diff_inverse)
      then have "of_int ?m / (2::rat) ^ k = (of_int ?a * 2 ^ (k - 22)) / (2 ^ 22 * 2 ^ (k - 22))"
        by (simp only: of_int_mult of_int_power of_int_numeral)
      also have "\<dots> = of_int ?a / 2 ^ 22" by (rule mult_divide_mult_cancel_right) simp
      also have "\<dots> = w" unfolding w_def by (simp add: power_int_def power_divide)
      finally show ?thesis .
    qed
    ultimately show ?thesis by simp
  qed
  have w: "fround binary64 w = Fin w"
  proof -
    have a: "\<bar>(r + 1) * 2 ^ 22 - 1\<bar> < 2 ^ 42" using r20 rb by simp
    have p: "\<bar>x * 2 powi (- 22)\<bar> \<le> \<bar>x\<bar>" for x :: rat
      by (simp add: abs_mult power_int_def mult_left_le power_le_one)
    have "\<bar>w\<bar> \<le> of_int \<bar>(r + 1) * 2 ^ 22 - 1\<bar>" unfolding w_def of_int_abs by (rule p)
    also have "\<dots> < of_int (2 ^ 42)" using a by (simp only: of_int_less_iff)
    also have "\<dots> \<le> 2 powi (emax binary64 + 1)" by (simp add: binary64_def power_int_def)
    finally have "\<bar>w\<bar> < 2 powi (emax binary64 + 1)" .
    then show ?thesis using fround_exact[of "(r + 1) * 2 ^ 22 - 1" binary64 "- 22"] a
      by (simp add: w_def binary64_def)
  qed
  have "fround binary64 (of_int r) = Fin (of_int r)" using r20 rb by (intro fround_int64) simp
  then obtain y where y: "fround binary64 v = Fin y" "of_int r \<le> y" "y \<le> w"
    using b64.between[OF _ w lo hi] by blast
  have "w < of_int r + 1" by (simp add: w_def power_int_def field_simps)
  then have fl: "\<lfloor>y\<rfloor> = r" using y by (intro floor_unique) simp_all
  have "0 \<le> y" using y(2) rb by (simp add: order_trans[of 0 "of_int r"])
  then show ?thesis using n y(1) fl r20 rb
    by (simp add: d_int_def d_sqrt_def fsqrt_def fint_def ftrunc_def v_def r_def)
qed

end
