(* ===== verification/Path_Heap.thy ===== *)
theory Path_Heap
  imports C_Prelude "HOL-Library.Multiset"
begin

text \<open>
  The open list of the grid search of \<^verbatim>\<open>CODE/aco.c\<close>: \<open>struct nodee\<close>, the global array
  \<open>heap[MAX_N]\<close> with its fill \<open>sz\<close>, and the operations \<open>push\<close> and \<open>pop\<close>. The sift loops are
  recursive functions over the hole (\<open>now\<close>, \<open>rt\<close>); every access is checked against
  \<open>MAX_N\<close>, so \<open>push\<close> onto a full array and \<open>pop\<close> of an empty one are \<^const>\<open>None\<close>.

  The component's contract is the locale \<open>prio_queue\<close>: a bag of entries from which a least
  one by \<open>F\<close> is taken. It is interpreted on \<open>push\<close> and \<open>pop\<close>; the search builds on the
  interpretation's facts.
\<close>

section \<open>The interface of a bounded priority queue\<close>

locale prio_queue =
  fixes ins :: "'a \<Rightarrow> 'q \<Rightarrow> 'q option"
    and del :: "'q \<Rightarrow> ('a \<times> 'q) option"
    and bag :: "'q \<Rightarrow> 'a multiset"
    and inv :: "'q \<Rightarrow> bool"
    and key :: "'a \<Rightarrow> int"
    and cap :: nat
  assumes ins_ok: "inv q \<Longrightarrow> size (bag q) < cap \<Longrightarrow>
      \<exists>q'. ins x q = Some q' \<and> inv q' \<and> bag q' = add_mset x (bag q)"
    and ins_full: "inv q \<Longrightarrow> cap \<le> size (bag q) \<Longrightarrow> ins x q = None"
    and del_ok: "inv q \<Longrightarrow> bag q \<noteq> {#} \<Longrightarrow>
      \<exists>x q'. del q = Some (x, q') \<and> inv q' \<and> bag q = add_mset x (bag q')
        \<and> (\<forall>y \<in># bag q. key x \<le> key y)"
begin

lemma insD:
  assumes "inv q" and "ins x q = Some q'"
  shows "inv q'" and "bag q' = add_mset x (bag q)" and "size (bag q) < cap"
proof -
  show "size (bag q) < cap" using assms ins_full[of q x] by (cases "size (bag q) < cap") auto
  with ins_ok[OF assms(1), of x] assms(2) show "inv q'" "bag q' = add_mset x (bag q)" by auto
qed

lemma delD:
  assumes "inv q" and "bag q \<noteq> {#}" and "del q = Some (x, q')"
  shows "inv q'" and "bag q = add_mset x (bag q')" and "\<forall>y \<in># bag q. key x \<le> key y"
  using del_ok[OF assms(1,2)] assms(3) by auto

text \<open>Taking entries out until the queue is empty.\<close>

primrec drain :: "nat \<Rightarrow> 'q \<Rightarrow> 'a list option" where
  "drain 0 q = Some []"
| "drain (Suc n) q = (case del q of None \<Rightarrow> None
     | Some (x, q') \<Rightarrow> map_option ((#) x) (drain n q'))"

lemma drain_sorted:
  assumes "inv q"
  shows "\<exists>xs. drain (size (bag q)) q = Some xs \<and> mset xs = bag q \<and> sorted (map key xs)"
  using assms
proof (induction "size (bag q)" arbitrary: q)
  case 0
  then show ?case by simp
next
  case (Suc n)
  then have "bag q \<noteq> {#}" by auto
  with del_ok[OF Suc.prems] obtain x q' where
    q': "del q = Some (x, q')" "inv q'" "bag q = add_mset x (bag q')" "\<forall>y \<in># bag q. key x \<le> key y"
    by blast
  with Suc.hyps(2) have "n = size (bag q')" by simp
  with Suc.hyps(1) q'(2) obtain xs where
    xs: "drain n q' = Some xs" "mset xs = bag q'" "sorted (map key xs)" by blast
  have "\<forall>y \<in> set xs. key x \<le> key y" using xs(2) q'(3,4) set_mset_mset[of xs] by auto
  then have "drain (size (bag q)) q = Some (x # xs) \<and> mset (x # xs) = bag q
      \<and> sorted (map key (x # xs))"
    unfolding Suc.hyps(2)[symmetric] using q' xs by simp
  then show ?case by blast
qed

end

section \<open>The entries and the array\<close>

text \<open>The C struct has a further field \<open>id\<close>, which no statement reads or writes.\<close>

record nodee =
  nx :: int
  ny :: int
  nF :: int
  nG :: int
  nH :: int

definition MAX_N :: int where
  "MAX_N = 1000"

record pqueue =
  heap :: "nodee arr"
  sz :: int

function push_loop :: "nodee \<Rightarrow> nodee arr \<Rightarrow> int \<Rightarrow> (nodee arr \<times> int) option" where
  "push_loop ps h now =
     (if now > 0 then
        let f = (now - 1) div 2 in
        (case rd MAX_N h f of None \<Rightarrow> None
         | Some fa \<Rightarrow>
             if nF fa < nF ps then Some (h, now)
             else if nF fa = nF ps \<and> nH fa < nH ps then Some (h, now)
             else (case wr MAX_N h now fa of None \<Rightarrow> None
                   | Some h' \<Rightarrow> push_loop ps h' f))
      else Some (h, now))"
  by pat_completeness auto
termination
  by (relation "measure (\<lambda>(ps, h, now). nat now)") auto

declare push_loop.simps [simp del]

definition push :: "nodee \<Rightarrow> pqueue \<Rightarrow> pqueue option" where
  "push ps q =
     (case push_loop ps (heap q) (sz q) of None \<Rightarrow> None
      | Some (h, now) \<Rightarrow>
          (case wr MAX_N h now ps of None \<Rightarrow> None
           | Some h' \<Rightarrow> Some (q\<lparr>heap := h', sz := sz q + 1\<rparr>)))"

text \<open>The child the hole moves to: the smaller by \<open>F\<close>, then by \<open>H\<close>.\<close>

definition pop_child :: "nodee arr \<Rightarrow> int \<Rightarrow> int \<Rightarrow> int" where
  "pop_child h n rt =
     (let l = 2 * rt + 1; r = 2 * rt + 2;
          l1 = (if r < n \<and> nF (h r) < nF (h l) then r else l)
      in if r < n \<and> nF (h r) = nF (h l1) \<and> nH (h r) < nH (h l1) then r else l1)"

function pop_loop :: "nodee \<Rightarrow> int \<Rightarrow> nodee arr \<Rightarrow> int \<Rightarrow> nodee arr \<times> int" where
  "pop_loop x n h rt =
     (if 0 \<le> rt \<and> rt * 2 + 1 < n then
        let c = pop_child h n rt in
        if nF (h c) \<ge> nF x then (h, rt)
        else if nF (h c) = nF x \<and> nH (h c) > nH x then (h, rt)
        else pop_loop x n (h(rt := h c)) c
      else (h, rt))"
  by pat_completeness auto
termination
  by (relation "measure (\<lambda>(x, n, h, rt). nat (n - rt))") (auto simp: pop_child_def Let_def)

declare pop_loop.simps [simp del]

text \<open>
  \<open>pop\<close> reads \<open>heap[--sz]\<close>, which is outside the array when \<open>sz\<close> is 0; all later indices are
  below the decremented \<open>sz\<close>.
\<close>

definition pop :: "pqueue \<Rightarrow> (nodee \<times> pqueue) option" where
  "pop q =
     (let n = sz q - 1 in
      case rd MAX_N (heap q) 0 of None \<Rightarrow> None
      | Some res \<Rightarrow>
          (case rd MAX_N (heap q) n of None \<Rightarrow> None
           | Some x \<Rightarrow>
               let (h, rt) = pop_loop x n (heap q) 0
               in Some (res, q\<lparr>heap := h(rt := x), sz := n\<rparr>)))"

section \<open>Contents and order\<close>

definition arr_bag :: "'v arr \<Rightarrow> int \<Rightarrow> 'v multiset" where
  "arr_bag h n = image_mset h (mset_set {0..<n})"

definition pq_bag :: "pqueue \<Rightarrow> nodee multiset" where
  "pq_bag q = arr_bag (heap q) (sz q)"

definition par :: "int \<Rightarrow> int" where
  "par i = (i - 1) div 2"

definition heap_order :: "nodee arr \<Rightarrow> int \<Rightarrow> bool" where
  "heap_order h n \<longleftrightarrow> (\<forall>i. 0 < i \<and> i < n \<longrightarrow> nF (h (par i)) \<le> nF (h i))"

definition pq_inv :: "pqueue \<Rightarrow> bool" where
  "pq_inv q \<longleftrightarrow> 0 \<le> sz q \<and> sz q \<le> MAX_N \<and> heap_order (heap q) (sz q)"

lemma par_less: "0 < i \<Longrightarrow> par i < i" and par_nonneg: "0 < i \<Longrightarrow> 0 \<le> par i"
  by (simp_all add: par_def)

lemma par_child: "par c = r \<and> 0 < c \<longleftrightarrow> 0 \<le> r \<and> (c = 2 * r + 1 \<or> c = 2 * r + 2)"
  by (auto simp: par_def)

lemma size_arr_bag [simp]: "size (arr_bag h n) = nat n"
  by (simp add: arr_bag_def)

lemma arr_bag_upd_out: "i < 0 \<or> n \<le> i \<Longrightarrow> arr_bag (h(i := v)) n = arr_bag h n"
  by (auto simp: arr_bag_def intro!: image_mset_cong)

lemma mset_set_remove_int: "0 \<le> i \<Longrightarrow> i < n \<Longrightarrow> mset_set {0..<n} = add_mset i (mset_set ({0..<n} - {i}))"
  for i n :: int
  by (simp add: mset_set.remove)

lemma arr_bag_split: "0 \<le> i \<Longrightarrow> i < n \<Longrightarrow>
    arr_bag h n = add_mset (h i) (image_mset h (mset_set ({0..<n} - {i})))"
  by (simp add: arr_bag_def mset_set_remove_int)

lemma arr_bag_upd: "0 \<le> i \<Longrightarrow> i < n \<Longrightarrow>
    arr_bag (h(i := v)) n = add_mset v (arr_bag h n - {#h i#})"
proof -
  assume i: "0 \<le> i" "i < n"
  have "image_mset (h(i := v)) (mset_set ({0..<n} - {i})) = image_mset h (mset_set ({0..<n} - {i}))"
    by (rule image_mset_cong) auto
  then show ?thesis using arr_bag_split[OF i, of "h(i := v)"] arr_bag_split[OF i, of h] by simp
qed

lemma arr_bag_Suc: "0 \<le> n \<Longrightarrow> arr_bag h (n + 1) = add_mset (h n) (arr_bag h n)"
proof -
  assume "0 \<le> n"
  then have "{0..<n + 1} - {n} = {0..<n}" by auto
  then show ?thesis using arr_bag_split[of n "n + 1" h] \<open>0 \<le> n\<close> by (simp add: arr_bag_def)
qed

lemma in_arr_bag: "v \<in># arr_bag h n \<longleftrightarrow> (\<exists>i. 0 \<le> i \<and> i < n \<and> v = h i)"
  by (auto simp: arr_bag_def)

lemma arr_bag_empty: "arr_bag h n = {#} \<longleftrightarrow> n \<le> 0"
  by (metis size_arr_bag size_eq_0_iff_empty nat_0_iff)

text \<open>Moving the hole: the value put aside and the array with the hole keep the same bag.\<close>

lemma arr_bag_move:
  assumes "0 \<le> i" "i < n" "0 \<le> j" "j < n" "i \<noteq> j"
  shows "arr_bag (h(i := h j, j := v)) n = arr_bag (h(i := v)) n"
proof -
  have "h j \<in># arr_bag h n" "h i \<in># arr_bag h n" using assms by (auto simp: in_arr_bag)
  show ?thesis using assms
    by (simp add: arr_bag_upd in_arr_bag)
qed


section \<open>Sifting up\<close>

definition push_inv :: "nodee \<Rightarrow> nodee arr \<Rightarrow> int \<Rightarrow> int \<Rightarrow> bool" where
  "push_inv ps h now n \<longleftrightarrow>
     (\<forall>i. 0 < i \<and> i < n \<and> i \<noteq> now \<longrightarrow> nF ((h(now := ps)) (par i)) \<le> nF ((h(now := ps)) i))
   \<and> (\<forall>c. 0 < now \<and> 0 < c \<and> c < n \<and> par c = now \<longrightarrow> nF (h (par now)) \<le> nF (h c))"

lemma push_inv_start: "heap_order h n \<Longrightarrow> push_inv ps h n (n + 1)"
  using par_less by (fastforce simp: push_inv_def heap_order_def)

lemma push_inv_stop:
  assumes "push_inv ps h now n" and "0 < now \<Longrightarrow> nF (h (par now)) \<le> nF ps"
  shows "heap_order (h(now := ps)) n"
  unfolding heap_order_def
proof (intro allI impI)
  fix i assume i: "0 < i \<and> i < n"
  show "nF ((h(now := ps)) (par i)) \<le> nF ((h(now := ps)) i)"
  proof (cases "i = now")
    case True
    then show ?thesis using assms(2) i par_less[of i] by auto
  next
    case False
    then show ?thesis using assms(1) i unfolding push_inv_def by blast
  qed
qed

lemma push_inv_step:
  assumes inv: "push_inv ps h now n" and now: "0 < now" "now < n"
    and up: "nF ps \<le> nF (h (par now))"
  shows "push_inv ps (h(now := h (par now))) (par now) n"
proof -
  let ?f = "par now" and ?g = "h(now := h (par now))"
  have f: "?f < now" "0 \<le> ?f" using par_less par_nonneg now(1) by simp_all
  have ord: "nF ((h(now := ps)) (par i)) \<le> nF ((h(now := ps)) i)"
    if "0 < i" "i < n" "i \<noteq> now" for i using inv that unfolding push_inv_def by blast
  have gp: "nF (h ?f) \<le> nF (h c)" if "0 < c" "c < n" "par c = now" for c
    using inv that now(1) unfolding push_inv_def by blast
  have "nF ((?g(?f := ps)) (par i)) \<le> nF ((?g(?f := ps)) i)"
    if i: "0 < i" "i < n" "i \<noteq> ?f" for i
  proof -
    consider "i = now" | "par i = now" | "par i = ?f" "i \<noteq> now" | "par i \<noteq> ?f" "par i \<noteq> now" "i \<noteq> now" by blast
    then show ?thesis
    proof cases
      case 1 then show ?thesis using up f by simp
    next
      case 2
      then show ?thesis using gp[OF i(1,2)] f i(3) par_less[OF i(1)] by simp
    next
      case 3
      then show ?thesis using ord[OF i(1,2)] up i(3) f par_less[OF i(1)] by (simp add: fun_upd_def)
    next
      case 4
      then show ?thesis using ord[OF i(1,2)] i(3) by simp
    qed
  qed
  moreover have "nF (?g (par ?f)) \<le> nF (?g c)" if c: "0 < ?f" "0 < c" "c < n" "par c = ?f" for c
  proof -
    have pf: "par ?f < ?f" using par_less c(1) by simp
    have 1: "nF (h (par ?f)) \<le> nF (h ?f)" using ord[of ?f] c(1) f now pf by simp
    show ?thesis
    proof (cases "c = now")
      case True then show ?thesis using 1 pf f by simp
    next
      case False
      then have "nF (h ?f) \<le> nF (h c)" using ord[OF c(2,3)] c(4) f by simp
      then show ?thesis using 1 pf f False by simp
    qed
  qed
  ultimately show ?thesis unfolding push_inv_def by blast
qed

lemma push_loop_ok:
  assumes "push_inv ps h now n" and "0 \<le> now" and "now < n" and "n \<le> MAX_N"
  shows "\<exists>h' now'. push_loop ps h now = Some (h', now') \<and> 0 \<le> now' \<and> now' < n
    \<and> heap_order (h'(now' := ps)) n \<and> arr_bag (h'(now' := ps)) n = arr_bag (h(now := ps)) n"
  using assms
proof (induction ps h now rule: push_loop.induct)
  case (1 ps h now)
  show ?case
  proof (cases "0 < now")
    case False
    then have "push_loop ps h now = Some (h, now)" by (simp add: push_loop.simps)
    moreover have "heap_order (h(now := ps)) n" using push_inv_stop[OF "1.prems"(1)] False by simp
    ultimately show ?thesis using "1.prems" by blast
  next
    case True
    let ?f = "par now"
    have f: "0 \<le> ?f" "?f < now" using True par_less par_nonneg by simp_all
    then have r: "rd MAX_N h ((now - 1) div 2) = Some (h ?f)"
      using "1.prems" by (simp add: rd_def par_def)
    have w: "wr MAX_N h now (h ?f) = Some (h(now := h ?f))" using "1.prems" by (simp add: wr_def)
    show ?thesis
    proof (cases "nF (h ?f) < nF ps \<or> nF (h ?f) = nF ps \<and> nH (h ?f) < nH ps")
      case stop: True
      then have "push_loop ps h now = Some (h, now)" using r True
        by (subst push_loop.simps) (auto simp: Let_def)
      moreover have "heap_order (h(now := ps)) n" using push_inv_stop[OF "1.prems"(1)] stop by auto
      ultimately show ?thesis using "1.prems" by blast
    next
      case move: False
      then have up: "nF ps \<le> nF (h ?f)" by auto
      have eq: "push_loop ps h now = push_loop ps (h(now := h ?f)) ?f"
        using r w True move by (subst push_loop.simps) (auto simp: Let_def par_def)
      have bag: "arr_bag (h(now := h ?f, ?f := ps)) n = arr_bag (h(now := ps)) n"
        using arr_bag_move[of now n ?f h ps] f "1.prems" by simp
      have "\<exists>h' now'. push_loop ps (h(now := h ?f)) ((now - 1) div 2) = Some (h', now') \<and> 0 \<le> now' \<and> now' < n
        \<and> heap_order (h'(now' := ps)) n
        \<and> arr_bag (h'(now' := ps)) n = arr_bag (h(now := h ?f, ((now - 1) div 2) := ps)) n"
      proof (rule "1.IH")
        show "push_inv ps (h(now := h ?f)) ((now - 1) div 2) n"
          using push_inv_step[OF "1.prems"(1) True _ up] "1.prems" by (simp add: par_def)
      qed (use True r w move f "1.prems" in \<open>auto simp: par_def fun_upd_def\<close>)
      then show ?thesis unfolding eq bag[symmetric] par_def .
    qed
  qed
qed


text \<open>A push onto a full array is undefined: some iteration, or the final store, writes index \<open>MAX_N\<close>.\<close>

lemma push_full:
  assumes "pq_inv q" and "MAX_N \<le> sz q"
  shows "push ps q = None"
proof -
  have n: "sz q = MAX_N" using assms by (simp add: pq_inv_def)
  have "wr MAX_N h MAX_N v = None" for h and v :: nodee by (simp add: wr_def)
  then show ?thesis
    by (simp add: push_def n push_loop.simps[of ps "heap q"] MAX_N_def rd_def)
qed

lemma push_ok:
  assumes "pq_inv q" and "sz q < MAX_N"
  shows "\<exists>q'. push ps q = Some q' \<and> pq_inv q' \<and> pq_bag q' = add_mset ps (pq_bag q)"
proof -
  have n: "0 \<le> sz q" "sz q < sz q + 1" "sz q + 1 \<le> MAX_N" and ord: "heap_order (heap q) (sz q)"
    using assms by (simp_all add: pq_inv_def)
  from push_loop_ok[OF push_inv_start[OF ord, of ps] n]
  obtain h' now' where l: "push_loop ps (heap q) (sz q) = Some (h', now')" "0 \<le> now'" "now' < sz q + 1"
    "heap_order (h'(now' := ps)) (sz q + 1)"
    "arr_bag (h'(now' := ps)) (sz q + 1) = arr_bag ((heap q)(sz q := ps)) (sz q + 1)" by blast
  have w: "wr MAX_N h' now' ps = Some (h'(now' := ps))" using l n by (simp add: wr_def)
  have "arr_bag ((heap q)(sz q := ps)) (sz q + 1) = add_mset ps (arr_bag (heap q) (sz q))"
    using n(1) by (simp add: arr_bag_Suc arr_bag_upd_out)
  then show ?thesis using l w n by (simp add: push_def pq_inv_def pq_bag_def)
qed

section \<open>Sifting down\<close>

definition pop_inv :: "nodee \<Rightarrow> nodee arr \<Rightarrow> int \<Rightarrow> int \<Rightarrow> bool" where
  "pop_inv x h rt n \<longleftrightarrow>
     (\<forall>i. 0 < i \<and> i < n \<and> par i \<noteq> rt \<longrightarrow> nF ((h(rt := x)) (par i)) \<le> nF ((h(rt := x)) i))
   \<and> (\<forall>c. 0 < rt \<and> 0 < c \<and> c < n \<and> par c = rt \<longrightarrow> nF (h (par rt)) \<le> nF (h c))"

lemma pop_child_props:
  assumes "0 \<le> rt" and "2 * rt + 1 < n"
  shows "par (pop_child h n rt) = rt" and "rt < pop_child h n rt" and "pop_child h n rt < n"
    and "\<And>c. 0 < c \<Longrightarrow> c < n \<Longrightarrow> par c = rt \<Longrightarrow> nF (h (pop_child h n rt)) \<le> nF (h c)"
proof -
  let ?c = "pop_child h n rt"
  have c: "?c = 2 * rt + 1 \<or> ?c = 2 * rt + 2 \<and> 2 * rt + 2 < n"
    by (auto simp: pop_child_def Let_def)
  then show "par ?c = rt" "rt < ?c" "?c < n" using assms by (auto simp: par_def)
  show "nF (h ?c) \<le> nF (h d)" if "0 < d" "d < n" "par d = rt" for d
  proof -
    have "d = 2 * rt + 1 \<or> d = 2 * rt + 2" using that par_child by blast
    then show ?thesis using that(2) by (auto simp: pop_child_def Let_def)
  qed
qed

lemma pop_inv_stop:
  assumes "pop_inv x h rt n" and "\<And>c. 0 < c \<Longrightarrow> c < n \<Longrightarrow> par c = rt \<Longrightarrow> nF x \<le> nF (h c)"
  shows "heap_order (h(rt := x)) n"
  unfolding heap_order_def
proof (intro allI impI)
  fix i assume i: "0 < i \<and> i < n"
  show "nF ((h(rt := x)) (par i)) \<le> nF ((h(rt := x)) i)"
  proof (cases "par i = rt")
    case True
    then show ?thesis using assms(2)[of i] i par_less[of i] by auto
  next
    case False
    then show ?thesis using assms(1) i unfolding pop_inv_def by blast
  qed
qed

lemma pop_inv_step:
  assumes inv: "pop_inv x h rt n" and rt: "0 \<le> rt" "2 * rt + 1 < n"
    and less: "nF (h (pop_child h n rt)) < nF x"
  shows "pop_inv x (h(rt := h (pop_child h n rt))) (pop_child h n rt) n"
proof -
  let ?c = "pop_child h n rt"
  let ?g = "h(rt := h ?c)"
  note c = pop_child_props[OF rt, where h = h]
  have ord: "nF ((h(rt := x)) (par i)) \<le> nF ((h(rt := x)) i)"
    if "0 < i" "i < n" "par i \<noteq> rt" for i using inv that unfolding pop_inv_def by blast
  have gp: "nF (h (par rt)) \<le> nF (h d)" if "0 < rt" "0 < d" "d < n" "par d = rt" for d
    using inv that unfolding pop_inv_def by blast
  have "nF ((?g(?c := x)) (par i)) \<le> nF ((?g(?c := x)) i)"
    if i: "0 < i" "i < n" "par i \<noteq> ?c" for i
  proof -
    consider "i = ?c" | "par i = rt" "i \<noteq> ?c" | "i = rt" "par i \<noteq> rt"
      | "par i \<noteq> rt" "i \<noteq> rt" "i \<noteq> ?c" by blast
    then show ?thesis
    proof cases
      case 1 then show ?thesis using c less by simp
    next
      case 2 then show ?thesis using c(2) c(4)[OF i(1,2)] par_less[OF i(1)] by simp
    next
      case 3
      then show ?thesis using gp[of ?c] c i par_less[OF i(1)] rt(1) by simp
    next
      case 4 then show ?thesis using ord[OF i(1,2)] i(3) c(1) by simp
    qed
  qed
  moreover have "nF (?g (par ?c)) \<le> nF (?g d)" if d: "0 < ?c" "0 < d" "d < n" "par d = ?c" for d
  proof -
    have "d \<noteq> rt" using par_less[OF d(2)] d(4) c(2) by simp
    then show ?thesis using ord[OF d(2,3)] d(4) c(1,2) by simp
  qed
  ultimately show ?thesis unfolding pop_inv_def by blast
qed

lemma pop_loop_ok:
  assumes "pop_inv x h rt n" and "0 \<le> rt" and "rt < n"
    and "pop_loop x n h rt = (h', rt')"
  shows "0 \<le> rt' \<and> rt' < n \<and> heap_order (h'(rt' := x)) n
    \<and> arr_bag (h'(rt' := x)) n = arr_bag (h(rt := x)) n"
  using assms
proof (induction x n h rt rule: pop_loop.induct)
  case (1 x n h rt)
  show ?case
  proof (cases "rt * 2 + 1 < n")
    case False
    have "\<not> (0 < c \<and> c < n \<and> par c = rt)" for c using False par_child[of c rt] by auto
    then have ho: "heap_order (h(rt := x)) n" using pop_inv_stop[OF "1.prems"(1)] by blast
    have "h' = h" "rt' = rt" using False "1.prems"(4) by (simp_all add: pop_loop.simps)
    then show ?thesis using ho "1.prems" by blast
  next
    case True
    let ?c = "pop_child h n rt"
    have rt: "0 \<le> rt" "2 * rt + 1 < n" using True "1.prems" by simp_all
    note c = pop_child_props[OF rt, where h = h]
    show ?thesis
    proof (cases "nF x \<le> nF (h ?c)")
      case stop: True
      have "nF x \<le> nF (h d)" if "0 < d" "d < n" "par d = rt" for d
        using c(4)[OF that] stop by simp
      then have ho: "heap_order (h(rt := x)) n" using pop_inv_stop[OF "1.prems"(1)] by blast
      have "h' = h" "rt' = rt" using stop True "1.prems"(2,4) by (simp_all add: pop_loop.simps Let_def)
      then show ?thesis using ho "1.prems" by blast
    next
      case False
      have eq: "pop_loop x n h rt = pop_loop x n (h(rt := h ?c)) ?c"
        using True False rt by (subst pop_loop.simps) (simp add: Let_def)
      have IH: "0 \<le> rt' \<and> rt' < n \<and> heap_order (h'(rt' := x)) n
        \<and> arr_bag (h'(rt' := x)) n = arr_bag (h(rt := h ?c, ?c := x)) n"
      proof (rule "1.IH")
        show "pop_inv x (h(rt := h ?c)) ?c n" using pop_inv_step[OF "1.prems"(1) rt] False by simp
        show "pop_loop x n (h(rt := h ?c)) ?c = (h', rt')" using "1.prems"(4) eq by simp
      qed (use True False rt c in auto)
      have bag: "arr_bag (h(rt := h ?c, ?c := x)) n = arr_bag (h(rt := x)) n"
        by (rule arr_bag_move) (use rt c(1-3) in auto)
      show ?thesis using IH unfolding bag .
    qed
  qed
qed

lemma heap_min:
  assumes "heap_order h n" and "0 \<le> i" and "i < n"
  shows "nF (h 0) \<le> nF (h i)"
  using assms(2,3)
proof (induction "nat i" arbitrary: i rule: less_induct)
  case less
  show ?case
  proof (cases "i = 0")
    case False
    then have i: "0 < i" using less.prems by simp
    then have "nF (h 0) \<le> nF (h (par i))"
      using less par_less[OF i] par_nonneg[OF i] by simp
    also have "\<dots> \<le> nF (h i)" using assms(1) i less.prems unfolding heap_order_def by blast
    finally show ?thesis .
  qed simp
qed

lemma pop_ok:
  assumes "pq_inv q" and "0 < sz q"
  shows "\<exists>x q'. pop q = Some (x, q') \<and> pq_inv q' \<and> pq_bag q = add_mset x (pq_bag q')
    \<and> (\<forall>y \<in># pq_bag q. nF x \<le> nF y)"
proof -
  let ?h = "heap q" and ?n = "sz q - 1"
  have n: "0 \<le> ?n" "sz q \<le> MAX_N" and ord: "heap_order ?h (sz q)"
    using assms by (simp_all add: pq_inv_def)
  obtain h' rt' where l: "pop_loop (?h ?n) ?n ?h 0 = (h', rt')" by (cases "pop_loop (?h ?n) ?n ?h 0")
  have p: "pop q = Some (?h 0, q\<lparr>heap := h'(rt' := ?h ?n), sz := ?n\<rparr>)"
    using n l assms(2) by (simp add: pop_def rd_def Let_def)
  have bag: "arr_bag ?h (sz q) = add_mset (?h ?n) (arr_bag ?h ?n)"
    using arr_bag_Suc[OF n(1), of ?h] by simp
  have res: "heap_order (h'(rt' := ?h ?n)) ?n
      \<and> add_mset (?h 0) (arr_bag (h'(rt' := ?h ?n)) ?n) = arr_bag ?h (sz q)"
  proof (cases "?n = 0")
    case True
    then show ?thesis using bag by (simp add: heap_order_def arr_bag_def)
  next
    case False
    then have pos: "0 < ?n" using n by simp
    have "pop_inv (?h ?n) ?h 0 ?n"
      unfolding pop_inv_def using ord par_less par_nonneg by (fastforce simp: heap_order_def)
    from pop_loop_ok[OF this _ pos l]
    have "heap_order (h'(rt' := ?h ?n)) ?n"
      and b: "arr_bag (h'(rt' := ?h ?n)) ?n = arr_bag (?h(0 := ?h ?n)) ?n" by simp_all
    moreover have "?h 0 \<in># arr_bag ?h ?n" using pos by (auto simp: in_arr_bag)
    ultimately show ?thesis using bag pos by (simp add: arr_bag_upd)
  qed
  have min: "\<forall>y \<in># pq_bag q. nF (?h 0) \<le> nF y"
    using heap_min[OF ord] by (auto simp: pq_bag_def in_arr_bag)
  show ?thesis using p res min n by (simp add: pq_inv_def pq_bag_def)
qed

text \<open>The model satisfies the interface.\<close>

interpretation open_list: prio_queue push pop pq_bag pq_inv nF "nat MAX_N"
proof
  fix q x
  assume inv: "pq_inv q"
  have size: "size (pq_bag q) = nat (sz q)" by (simp add: pq_bag_def)
  show "\<exists>q'. push x q = Some q' \<and> pq_inv q' \<and> pq_bag q' = add_mset x (pq_bag q)"
    if "size (pq_bag q) < nat MAX_N"
    using that push_ok[OF inv] size by simp
  show "push x q = None" if "nat MAX_N \<le> size (pq_bag q)"
  proof -
    have "MAX_N \<le> sz q" using that size by (simp add: MAX_N_def)
    then show ?thesis by (rule push_full[OF inv])
  qed
  show "\<exists>x q'. pop q = Some (x, q') \<and> pq_inv q' \<and> pq_bag q = add_mset x (pq_bag q')
        \<and> (\<forall>y \<in># pq_bag q. nF x \<le> nF y)" if "pq_bag q \<noteq> {#}"
    using that pop_ok[OF inv] by (simp add: pq_bag_def arr_bag_empty)
qed

section \<open>Properties\<close>

definition pq_empty :: "nodee arr \<Rightarrow> pqueue" where
  "pq_empty h = \<lparr>heap = h, sz = 0\<rparr>"

primrec push_all :: "nodee list \<Rightarrow> pqueue \<Rightarrow> pqueue option" where
  "push_all [] q = Some q"
| "push_all (x # xs) q = (case push x q of None \<Rightarrow> None | Some q' \<Rightarrow> push_all xs q')"

primrec pop_all :: "nat \<Rightarrow> pqueue \<Rightarrow> nodee list option" where
  "pop_all 0 q = Some []"
| "pop_all (Suc n) q =
     (case pop q of None \<Rightarrow> None | Some (x, q') \<Rightarrow> map_option ((#) x) (pop_all n q'))"

lemma pq_empty_props [simp]: "pq_inv (pq_empty h)" "pq_bag (pq_empty h) = {#}"
  by (simp_all add: pq_empty_def pq_inv_def pq_bag_def heap_order_def arr_bag_def MAX_N_def)

lemma pop_all_drain: "pop_all n q = open_list.drain n q"
  by (induction n arbitrary: q) (auto split: option.split)

lemma push_all_bag:
  assumes "pq_inv q" and "size (pq_bag q) + length xs \<le> nat MAX_N"
  shows "\<exists>q'. push_all xs q = Some q' \<and> pq_inv q' \<and> pq_bag q' = mset xs + pq_bag q"
  using assms
proof (induction xs arbitrary: q)
  case (Cons x xs)
  then obtain q1 where "push x q = Some q1" "pq_inv q1" "pq_bag q1 = add_mset x (pq_bag q)"
    using open_list.ins_ok[of q x] by auto
  with Cons.IH[of q1] Cons.prems show ?case by auto
qed simp

text \<open>
  C5. \<open>pop\<close> on a well-formed open list that is not empty is defined: it returns an entry
  whose \<open>F\<close> is least among all entries, removes exactly that entry, and leaves a
  well-formed heap.
\<close>

theorem pop_returns_minimum:
  assumes "pq_inv q" and "0 < sz q"
  shows "\<exists>x q'. pop q = Some (x, q') \<and> pq_inv q' \<and> pq_bag q = add_mset x (pq_bag q')
    \<and> (\<forall>y \<in># pq_bag q. nF x \<le> nF y)"
  using open_list.del_ok[OF assms(1)] assms(2) by (simp add: pq_bag_def arr_bag_empty)

lemma pop_returns_minimum_witness:
  "\<exists>q x q'. push_all [\<lparr>nx = 1, ny = 1, nF = 7, nG = 0, nH = 7\<rparr>, \<lparr>nx = 2, ny = 2, nF = 3, nG = 1, nH = 2\<rparr>]
       (pq_empty (\<lambda>_. \<lparr>nx = 0, ny = 0, nF = 0, nG = 0, nH = 0\<rparr>)) = Some q
     \<and> pop q = Some (x, q') \<and> pq_bag q = add_mset x (pq_bag q') \<and> nF x \<le> 3"
proof -
  let ?a = "\<lparr>nx = 1, ny = 1, nF = 7, nG = 0, nH = 7\<rparr>"
  let ?b = "\<lparr>nx = 2, ny = 2, nF = 3, nG = 1, nH = 2\<rparr>"
  let ?e = "pq_empty (\<lambda>_. \<lparr>nx = 0, ny = 0, nF = 0, nG = 0, nH = 0\<rparr>)"
  from push_all_bag[of ?e "[?a, ?b]"] obtain q where
    q: "push_all [?a, ?b] ?e = Some q" "pq_inv q" "pq_bag q = {#?a, ?b#}"
    by (auto simp: MAX_N_def)
  have "0 < sz q" using q(3) arr_bag_empty[of "heap q" "sz q"] by (simp add: pq_bag_def)
  from pop_returns_minimum[OF q(2) this] q(1,3) show ?thesis by fastforce
qed

lemma push_all_full:
  assumes "pq_inv q" and "nat MAX_N < size (pq_bag q) + length xs"
  shows "push_all xs q = None"
  using assms
proof (induction xs arbitrary: q)
  case Nil
  then show ?case by (simp add: pq_bag_def pq_inv_def)
next
  case (Cons x xs)
  show ?case
  proof (cases "push x q")
    case (Some q1)
    with open_list.insD[OF Cons.prems(1) Some] Cons.IH[of q1] Cons.prems(2) show ?thesis by simp
  qed simp
qed

text \<open>
  C4. Up to \<open>MAX_N\<close> entries pushed onto an empty open list come out of successive \<open>pop\<close>s
  in the order of \<open>F\<close>, every entry exactly once; the pushes run into an access outside
  \<open>heap[MAX_N]\<close> exactly when there are more than \<open>MAX_N\<close> of them.
\<close>

theorem push_pop_sorts:
  "case push_all xs (pq_empty h) of
     None \<Rightarrow> nat MAX_N < length xs
   | Some q \<Rightarrow> length xs \<le> nat MAX_N
       \<and> (\<exists>ys. pop_all (length xs) q = Some ys \<and> mset ys = mset xs \<and> sorted (map nF ys))"
proof (cases "length xs \<le> nat MAX_N")
  case True
  then obtain q where q: "push_all xs (pq_empty h) = Some q" "pq_inv q" "pq_bag q = mset xs"
    using push_all_bag[of "pq_empty h" xs] by auto
  with open_list.drain_sorted[OF q(2)] True show ?thesis by (simp add: pop_all_drain)
next
  case False
  then show ?thesis using push_all_full[of "pq_empty h" xs] by simp
qed

end
