(* ===== verification/Geometry.thy ===== *)
theory Geometry
  imports Float_Sqrt
begin

text \<open>
  The planar geometry of \<^verbatim>\<open>CODE/aco.c\<close>: the truncated distance \<open>calc_dis\<close>, the drop
  point \<open>calc_tag\<close> between two cards, and \<open>check_yaw\<close>, which classifies a leg by its heading.
  The \<open>double\<close> expressions are evaluated in binary64 in the order of the source;
  \<open>atan\<close> is a parameter. A conversion to \<open>int\<close> that does not fit is \<^const>\<open>None\<close>.
\<close>

section \<open>Distance\<close>

definition calc_dis :: "int \<Rightarrow> int \<Rightarrow> int \<Rightarrow> int \<Rightarrow> int option" where
  "calc_dis x1 y1 x2 y2 =
     (let dx = x1 - x2; dy = y1 - y2
      in d_int (d_sqrt (d_of_int (dx * dx + dy * dy))))"

lemma calc_dis_isqrt:
  assumes "(x1 - x2) * (x1 - x2) + (y1 - y2) * (y1 - y2) < 2 ^ 40"
  shows "calc_dis x1 y1 x2 y2 = Some (isqrt ((x1 - x2) * (x1 - x2) + (y1 - y2) * (y1 - y2)))"
proof -
  let ?n = "(x1 - x2) * (x1 - x2) + (y1 - y2) * (y1 - y2)"
  have n: "0 \<le> ?n" by simp
  have "d_of_int ?n = F64 (Fin (of_int ?n))"
    unfolding d_of_int_def using n assms by (intro arg_cong[of _ _ F64] fround_int64) simp
  then show ?thesis unfolding calc_dis_def Let_def using d_sqrt_trunc[OF n assms] by (simp only:)
qed

text \<open>For evaluation.\<close>

lemma calc_dis_code [code]:
  "calc_dis x1 y1 x2 y2 =
     (let n = (x1 - x2) * (x1 - x2) + (y1 - y2) * (y1 - y2)
      in if n < 2 ^ 40 then Some (isqrt n) else d_int (d_sqrt (d_of_int n)))"
  using calc_dis_isqrt[of x1 x2 y1 y2] by (simp add: calc_dis_def Let_def)

lemma sqrt_sticky_nonneg: "0 \<le> q \<Longrightarrow> 0 \<le> sqrt_sticky f q"
  using sqrt_sticky_side[of q 0 "sqrt_scale f q" f] by simp

lemma d_sqrt_int_nonneg:
  assumes "0 \<le> n" and "d_int (d_sqrt (d_of_int n)) = Some h"
  shows "0 \<le> h"
proof -
  have "fle (Fin 0) (fround binary64 (of_int n))" using assms(1) by (intro b64.nonneg) simp
  moreover have "fle (Fin 0) (fsqrt binary64 x)" if "fle (Fin 0) x" for x
    using that b64.nonneg[OF sqrt_sticky_nonneg] by (cases x) (auto simp: fsqrt_def)
  ultimately have "fle (Fin 0) (fsqrt binary64 (fround binary64 (of_int n)))" by blast
  then show ?thesis using assms(2)
    by (cases "fsqrt binary64 (fround binary64 (of_int n))")
       (auto simp: d_int_def d_sqrt_def d_of_int_def fint_def ftrunc_def split: if_splits)
qed

lemma calc_dis_nonneg: "calc_dis x1 y1 x2 y2 = Some d \<Longrightarrow> 0 \<le> d"
  unfolding calc_dis_def Let_def by (rule d_sqrt_int_nonneg) simp_all

section \<open>The drop point of a transport leg\<close>

definition wid :: int where "wid = 700"
definition hei :: int where "hei = 500"
definition ex_dis_L :: int where "ex_dis_L = 30"
definition ex_dis_R :: int where "ex_dis_R = 15"
definition ex_dis_T :: int where "ex_dis_T = - 20"

text \<open>\<open>(int)(1.0 * a * b / c)\<close>\<close>

definition scale_int :: "int \<Rightarrow> int \<Rightarrow> int \<Rightarrow> int option" where
  "scale_int a b c = d_int (1 * d_of_int a * d_of_int b / d_of_int c)"

definition round60 :: "int \<Rightarrow> int" where
  "round60 y = cdiv (y + 30) 60 * 60"

text \<open>The three \<open>if (tag == ...)\<close> blocks, on the globals \<open>(tmpx, tmpy)\<close>.\<close>

definition calc_tag_L :: "int \<Rightarrow> int \<Rightarrow> int \<Rightarrow> int \<Rightarrow> int \<times> int \<Rightarrow> (int \<times> int) option" where
  "calc_tag_L x1 y1 x2 y2 tmp =
     (let tmpy = (if x1 = 0 \<and> x2 = 0 then (y1 + y2) div 2 else snd tmp);
          tmpx = - ex_dis_L
      in do {
        d \<leftarrow> scale_int (x1 + ex_dis_L) (y2 - y1) (x1 + x2 + 2 * ex_dis_L);
        let tmpy = y1 + d;
        Some (tmpx, round60 tmpy)
      })"

definition calc_tag_T :: "int \<Rightarrow> int \<Rightarrow> int \<Rightarrow> int \<Rightarrow> int \<times> int \<Rightarrow> (int \<times> int) option" where
  "calc_tag_T x1 y1 x2 y2 tmp =
     (let tmpx = (if y1 = hei \<and> y2 = hei then (x1 + x2) div 2 else fst tmp);
          tmpy = hei + ex_dis_T
      in do {
        d \<leftarrow> scale_int (hei + ex_dis_T - y1) (x2 - x1) (2 * (hei + ex_dis_T) - y1 - y2);
        let tmpx = x1 + d;
        Some (tmpx, tmpy)
      })"

definition calc_tag_R :: "int \<Rightarrow> int \<Rightarrow> int \<Rightarrow> int \<Rightarrow> int \<times> int \<Rightarrow> (int \<times> int) option" where
  "calc_tag_R x1 y1 x2 y2 tmp =
     (let tmpy = (if x1 = wid \<and> x2 = wid then (y1 + y2) div 2 else snd tmp);
          tmpx = wid + ex_dis_R
      in do {
        d \<leftarrow> scale_int (wid + ex_dis_R - x1) (y1 - y2) (2 * (wid + ex_dis_R) - x1 - x2);
        let tmpy = y1 - d;
        Some (tmpx, round60 tmpy)
      })"

definition calc_tag :: "int \<Rightarrow> int \<Rightarrow> int \<Rightarrow> int \<Rightarrow> int \<Rightarrow> int \<times> int \<Rightarrow> (int \<times> int \<times> int) option" where
  "calc_tag x1 y1 x2 y2 tag tmp =
     (if x1 = 0 \<and> y1 = 0 then do {
        d \<leftarrow> calc_dis 0 0 x2 y2;
        Some (d, 0, 0)
      } else do {
        tmp \<leftarrow> (if tag = 0 then calc_tag_L x1 y1 x2 y2 tmp else Some tmp);
        tmp \<leftarrow> (if tag = 1 then calc_tag_T x1 y1 x2 y2 tmp else Some tmp);
        tmp \<leftarrow> (if tag = 2 then calc_tag_R x1 y1 x2 y2 tmp else Some tmp);
        a \<leftarrow> calc_dis x1 y1 (fst tmp) (snd tmp);
        b \<leftarrow> calc_dis x2 y2 (fst tmp) (snd tmp);
        Some (a + b, fst tmp, snd tmp)
      })"

section \<open>Headings\<close>

text \<open>
  \<open>yaw\<close> as \<open>check_yaw\<close> and \<open>make_path\<close> compute it, in degrees clockwise from the positive
  \<open>y\<close> axis.
\<close>

definition leg_yaw :: "(f64 \<Rightarrow> f64) \<Rightarrow> f64 \<Rightarrow> f64 \<Rightarrow> f64" where
  "leg_yaw atan dx dy =
     (let yaw = (if feq (v64 dx) (Fin 0) then (if dy > 0 then lit 0 else lit 180)
                 else lit 90 - atan (d_abs (dy / dx)) * lit 180 / lit 3.14159);
          yaw = (if dx > 0 \<and> dy < 0 then lit 180 - yaw else yaw);
          yaw = (if dx < 0 \<and> dy < 0 then lit 180 + yaw else yaw);
          yaw = (if dx < 0 \<and> dy \<ge> 0 then lit 360 - yaw else yaw)
      in yaw)"

definition check_yaw :: "(f64 \<Rightarrow> f64) \<Rightarrow> int \<Rightarrow> int \<Rightarrow> int \<Rightarrow> int \<Rightarrow> int" where
  "check_yaw atan x0 y0 x1 y1 =
     (let dx = d_of_int (x1 - x0); dy = d_of_int (y1 - y0);
          yaw = leg_yaw atan dx dy;
          ds = d_sqrt (dx * dx + dy * dy)
      in if lit 60 < ds then
           (if lit 89 < yaw \<and> yaw < lit 136 then 1
            else if lit 224 < yaw \<and> yaw < lit 271 then 1
            else if lit 136 < yaw \<and> yaw < lit 224 then 2
            else 0)
         else 0)"

section \<open>Properties\<close>

lemma ftrunc_between:
  assumes "of_int a \<le> y" and "y \<le> of_int b"
  shows "a \<le> ftrunc y \<and> ftrunc y \<le> b"
proof (cases "0 \<le> y")
  case True
  have "of_int \<lfloor>y\<rfloor> \<le> (of_int b :: rat)" using assms(2) by linarith
  then show ?thesis using True assms by (auto simp: ftrunc_def le_floor_iff)
next
  case False
  have "(of_int a :: rat) \<le> of_int \<lceil>y\<rceil>" using assms(1) by linarith
  then show ?thesis using False assms by (auto simp: ftrunc_def ceiling_le_iff)
qed

lemma scale_int_between:
  assumes a: "0 \<le> a" "a \<le> c" and c: "0 < c" "c < 2 ^ 20" and b: "\<bar>b\<bar> < 2 ^ 20"
  shows "\<exists>d. scale_int a b c = Some d \<and> min 0 b \<le> d \<and> d \<le> max 0 b"
proof -
  have ab: "\<bar>a * b\<bar> < 2 ^ 40"
  proof -
    have "\<bar>a * b\<bar> \<le> 2 ^ 20 * \<bar>b\<bar>" unfolding abs_mult using a c by (intro mult_right_mono) simp_all
    then show ?thesis using b by simp
  qed
  have ex: "fround binary64 (of_int n) = Fin (of_int n)" if "\<bar>n\<bar> < 2 ^ 40" for n
    using that by (intro fround_int64) simp
  have A: "d_of_int a = F64 (Fin (of_int a))" and B: "d_of_int b = F64 (Fin (of_int b))"
    and C: "d_of_int c = F64 (Fin (of_int c))"
    unfolding d_of_int_def using a b c by (simp_all add: ex)
  have AB: "1 * d_of_int a * d_of_int b = F64 (Fin (of_int (a * b)))"
    using ex[of a] ex[OF ab] a c by (simp add: A B f64_defs fmul_def)
  let ?q = "of_int (a * b) / of_int c :: rat"
  have lo: "of_int (min 0 b) \<le> ?q"
  proof -
    have "c * min 0 b \<le> a * b"
    proof (cases "0 \<le> b")
      case False
      then have "c * b \<le> a * b" using a by (intro mult_right_mono_neg) simp_all
      then show ?thesis using False by simp
    qed (use a in simp)
    then have "(of_int (c * min 0 b) :: rat) \<le> of_int (a * b)" by (simp only: of_int_le_iff)
    then show ?thesis using c by (simp add: pos_le_divide_eq mult.commute)
  qed
  have hi: "?q \<le> of_int (max 0 b)"
  proof -
    have "a * b \<le> c * max 0 b"
    proof (cases "0 \<le> b")
      case True
      then have "a * b \<le> c * b" using a by (intro mult_right_mono) simp_all
      then show ?thesis using True by simp
    qed (use a in \<open>simp add: mult_nonneg_nonpos\<close>)
    then have "(of_int (a * b) :: rat) \<le> of_int (c * max 0 b)" by (simp only: of_int_le_iff)
    then show ?thesis using c by (simp add: pos_divide_le_eq mult.commute)
  qed
  have "\<bar>min 0 b\<bar> < 2 ^ 40" "\<bar>max 0 b\<bar> < 2 ^ 40" using b by auto
  from b64.between[OF ex[OF this(1)] ex[OF this(2)] lo hi] obtain y where
    y: "fround binary64 ?q = Fin y" "of_int (min 0 b) \<le> y" "y \<le> of_int (max 0 b)" by blast
  have "1 * d_of_int a * d_of_int b / d_of_int c = F64 (Fin y)"
    using y(1) c unfolding AB by (simp add: C f64_defs fdiv_def)
  then have "scale_int a b c = fint (Fin y)" by (simp add: scale_int_def d_int_def)
  then show ?thesis using ftrunc_between[OF y(2,3)] b by (auto simp: fint_def)
qed

lemma round60_props:
  assumes "- 35 \<le> y"
  shows "60 dvd round60 y" and "y - 35 \<le> round60 y" and "round60 y \<le> y + 35"
proof -
  show "60 dvd round60 y" by (simp add: round60_def)
  have "y - 35 \<le> round60 y \<and> round60 y \<le> y + 35"
  proof (cases "0 \<le> y + 30")
    case True
    then have "round60 y = (y + 30) div 60 * 60" by (simp add: round60_def cdiv_nonneg)
    then show ?thesis by presburger
  next
    case False
    then have "\<bar>y + 30\<bar> div 60 = 0" using assms by (intro div_pos_pos_trivial) simp_all
    then have "round60 y = 0" by (simp add: round60_def cdiv_def)
    then show ?thesis using assms False by simp
  qed
  then show "y - 35 \<le> round60 y" "round60 y \<le> y + 35" by simp_all
qed

lemma isqrt_dist:
  assumes "\<bar>x1 - x2\<bar> < 2 ^ 19" and "\<bar>y1 - y2\<bar> < 2 ^ 19"
  shows "calc_dis x1 y1 x2 y2 = Some (isqrt ((x1 - x2) * (x1 - x2) + (y1 - y2) * (y1 - y2)))"
proof (rule calc_dis_isqrt)
  have "(x1 - x2) * (x1 - x2) \<le> 2 ^ 19 * 2 ^ 19" "(y1 - y2) * (y1 - y2) \<le> 2 ^ 19 * 2 ^ 19"
    using assms abs_mult_less[of "x1 - x2" "2 ^ 19" "x1 - x2" "2 ^ 19"]
      abs_mult_less[of "y1 - y2" "2 ^ 19" "y1 - y2" "2 ^ 19"] by (simp_all add: abs_mult)
  then show "(x1 - x2) * (x1 - x2) + (y1 - y2) * (y1 - y2) < 2 ^ 40" by simp
qed

lemma calc_dis_small:
  assumes "\<bar>x1 - x2\<bar> \<le> 1000" "\<bar>y1 - y2\<bar> \<le> 1000"
  shows "\<exists>d. calc_dis x1 y1 x2 y2 = Some d \<and> d \<le> 2000"
proof -
  have "\<bar>x1 - x2\<bar> < 2 ^ 19" "\<bar>y1 - y2\<bar> < 2 ^ 19" using assms by simp_all
  from isqrt_dist[OF this] obtain d where d: "calc_dis x1 y1 x2 y2 = Some d"
    "d = isqrt ((x1 - x2) * (x1 - x2) + (y1 - y2) * (y1 - y2))" by blast
  have "(x1 - x2) * (x1 - x2) \<le> 1000 * 1000" "(y1 - y2) * (y1 - y2) \<le> 1000 * 1000"
    using assms abs_mult_self_eq[of "x1 - x2"] abs_mult_self_eq[of "y1 - y2"]
      mult_mono[OF assms(1) assms(1)] mult_mono[OF assms(2) assms(2)] by simp_all
  then have "isqrt ((x1 - x2) * (x1 - x2) + (y1 - y2) * (y1 - y2)) \<le> isqrt (2000 * 2000)"
    by (intro isqrt_mono) simp_all
  also have "isqrt (2000 * 2000) = 2000" by (rule isqrt_square) simp
  finally show ?thesis using d by simp
qed

text \<open>A card's place on the field, in cm, below the upper drop line.\<close>

definition on_field :: "int \<Rightarrow> int \<Rightarrow> bool" where
  "on_field x y \<longleftrightarrow> 0 \<le> x \<and> x \<le> 700 \<and> - 35 \<le> y \<and> y < 480"

lemma calc_tag_parts:
  assumes "on_field x1 y1" and "on_field x2 y2"
  shows "\<exists>ty. calc_tag_L x1 y1 x2 y2 tmp = Some (- 30, ty) \<and> 60 dvd ty
      \<and> min y1 y2 - 35 \<le> ty \<and> ty \<le> max y1 y2 + 35"
    and "\<exists>tx. calc_tag_T x1 y1 x2 y2 tmp = Some (tx, 480) \<and> min x1 x2 \<le> tx \<and> tx \<le> max x1 x2"
    and "\<exists>ty. calc_tag_R x1 y1 x2 y2 tmp = Some (715, ty) \<and> 60 dvd ty
      \<and> min y1 y2 - 35 \<le> ty \<and> ty \<le> max y1 y2 + 35"
proof -
  note f = assms[unfolded on_field_def]
  have diff: "\<bar>u - v\<bar> < 1048576" if "- 35 \<le> u" "u \<le> 700" "- 35 \<le> v" "v \<le> 700" for u v :: int
    using that by linarith
  obtain d where d: "scale_int (x1 + 30) (y2 - y1) (x1 + x2 + 60) = Some d"
    "min 0 (y2 - y1) \<le> d" "d \<le> max 0 (y2 - y1)"
    using scale_int_between[of "x1 + 30" "x1 + x2 + 60" "y2 - y1"] f diff[of y2 y1] by auto
  have "min y1 y2 \<le> y1 + d" "y1 + d \<le> max y1 y2" using d by linarith+
  moreover have "- 35 \<le> y1 + d" using d f by linarith
  note round60_props[OF this]
  ultimately show "\<exists>ty. calc_tag_L x1 y1 x2 y2 tmp = Some (- 30, ty) \<and> 60 dvd ty
      \<and> min y1 y2 - 35 \<le> ty \<and> ty \<le> max y1 y2 + 35"
    using d(1) by (auto simp: calc_tag_L_def ex_dis_L_def Let_def)
next
  note f = assms[unfolded on_field_def]
  have diff: "\<bar>u - v\<bar> < 1048576" if "- 35 \<le> u" "u \<le> 700" "- 35 \<le> v" "v \<le> 700" for u v :: int
    using that by linarith
  obtain d where d: "scale_int (480 - y1) (x2 - x1) (960 - y1 - y2) = Some d"
    "min 0 (x2 - x1) \<le> d" "d \<le> max 0 (x2 - x1)"
    using scale_int_between[of "480 - y1" "960 - y1 - y2" "x2 - x1"] f diff[of x2 x1] by auto
  then show "\<exists>tx. calc_tag_T x1 y1 x2 y2 tmp = Some (tx, 480) \<and> min x1 x2 \<le> tx \<and> tx \<le> max x1 x2"
    by (auto simp: calc_tag_T_def ex_dis_T_def hei_def Let_def)
next
  note f = assms[unfolded on_field_def]
  have diff: "\<bar>u - v\<bar> < 1048576" if "- 35 \<le> u" "u \<le> 700" "- 35 \<le> v" "v \<le> 700" for u v :: int
    using that by linarith
  obtain d where d: "scale_int (715 - x1) (y1 - y2) (1430 - x1 - x2) = Some d"
    "min 0 (y1 - y2) \<le> d" "d \<le> max 0 (y1 - y2)"
    using scale_int_between[of "715 - x1" "1430 - x1 - x2" "y1 - y2"] f diff[of y1 y2] by auto
  have "min y1 y2 \<le> y1 - d" "y1 - d \<le> max y1 y2" using d by linarith+
  moreover have "- 35 \<le> y1 - d" using d f by linarith
  note round60_props[OF this]
  ultimately show "\<exists>ty. calc_tag_R x1 y1 x2 y2 tmp = Some (715, ty) \<and> 60 dvd ty
      \<and> min y1 y2 - 35 \<le> ty \<and> ty \<le> max y1 y2 + 35"
    using d(1) by (auto simp: calc_tag_R_def ex_dis_R_def wid_def Let_def)
qed



text \<open>
  C8. For two cards on the field, the first not at the origin, and a depot side \<open>tag\<close>,
  \<open>calc_tag\<close> is defined: its drop point lies on the depot's line (\<open>x = -30\<close>, \<open>y = 480\<close>,
  \<open>x = 715\<close>), between the two cards along that line up to the rounding to multiples of
  60 for the side depots, and the value returned is the sum of the two truncated distances.
\<close>

theorem calc_tag_drop_point:
  assumes "on_field x1 y1" and "on_field x2 y2" and "\<not> (x1 = 0 \<and> y1 = 0)" and "tag \<in> {0, 1, 2}"
  shows "\<exists>d e tx ty. calc_tag x1 y1 x2 y2 tag tmp = Some (d + e, tx, ty)
    \<and> calc_dis x1 y1 tx ty = Some d \<and> calc_dis x2 y2 tx ty = Some e
    \<and> (if tag = 1 then ty = 480 \<and> min x1 x2 \<le> tx \<and> tx \<le> max x1 x2
       else tx = (if tag = 0 then - 30 else 715) \<and> 60 dvd ty
         \<and> min y1 y2 - 35 \<le> ty \<and> ty \<le> max y1 y2 + 35)"
proof -
  note f = assms(1,2)[unfolded on_field_def]
  have fin: "\<exists>d. calc_dis x y tx ty = Some d"
    if "on_field x y" "- 100 \<le> tx" "tx \<le> 800" "- 100 \<le> ty" "ty \<le> 800" for x y tx ty
    using that isqrt_dist[of x tx y ty] unfolding on_field_def by auto
  note p = calc_tag_parts[OF assms(1,2), of tmp]
  consider "tag = 0" | "tag = 1" | "tag = 2" using assms(4) by auto
  then show ?thesis
  proof cases
    case 1
    with p(1) obtain ty where t: "calc_tag_L x1 y1 x2 y2 tmp = Some (- 30, ty)" "60 dvd ty"
      "min y1 y2 - 35 \<le> ty" "ty \<le> max y1 y2 + 35" by blast
    have "- 100 \<le> ty" "ty \<le> 800" using t f by linarith+
    then obtain d e where "calc_dis x1 y1 (- 30) ty = Some d" "calc_dis x2 y2 (- 30) ty = Some e"
      using fin[OF assms(1), of "- 30" ty] fin[OF assms(2), of "- 30" ty] by auto
    then show ?thesis using t assms(3) 1 by (auto simp: calc_tag_def)
  next
    case 2
    with p(2) obtain tx where t: "calc_tag_T x1 y1 x2 y2 tmp = Some (tx, 480)"
      "min x1 x2 \<le> tx" "tx \<le> max x1 x2" by blast
    have "- 100 \<le> tx" "tx \<le> 800" using t f by linarith+
    then obtain d e where "calc_dis x1 y1 (tx) 480 = Some d" "calc_dis x2 y2 (tx) 480 = Some e"
      using fin[OF assms(1), of tx 480] fin[OF assms(2), of tx 480] by auto
    then show ?thesis using t assms(3) 2 by (auto simp: calc_tag_def)
  next
    case 3
    with p(3) obtain ty where t: "calc_tag_R x1 y1 x2 y2 tmp = Some (715, ty)" "60 dvd ty"
      "min y1 y2 - 35 \<le> ty" "ty \<le> max y1 y2 + 35" by blast
    have "- 100 \<le> ty" "ty \<le> 800" using t f by linarith+
    then obtain d e where "calc_dis x1 y1 (715) ty = Some d" "calc_dis x2 y2 (715) ty = Some e"
      using fin[OF assms(1), of 715 ty] fin[OF assms(2), of 715 ty] by auto
    then show ?thesis using t assms(3) 3 by (auto simp: calc_tag_def)
  qed
qed

lemma calc_tag_drop_point_witness:
  "\<exists>d tx ty. calc_tag 100 60 300 200 2 (0, 0) = Some (d, tx, ty) \<and> tx = 715 \<and> 60 dvd ty \<and> ty \<le> 235"
  using calc_tag_drop_point[of 100 60 300 200 2 "(0, 0)"] by (auto simp: on_field_def)

end
