(* ===== verification/Leg_Store.thy ===== *)
theory Leg_Store
  imports Geometry
begin

text \<open>
  The way points of the planned legs: the global arrays \<open>path_x\<close>, \<open>path_y\<close> (63 rows of
  \<open>NUM\<close> \<open>float\<close>s), \<open>path_predis\<close> (90 rows of \<open>pieces\<close>), the fill \<open>path_tot\<close> (60 entries) and
  the next free row \<open>num_path\<close>, with \<open>make_path\<close> of \<^verbatim>\<open>CODE/aco.c\<close>, which appends the
  points of one straight leg. The local \<open>yaw\<close> of \<open>make_path\<close> is computed and never used, so
  it has no counterpart here.
\<close>

definition NUM :: int where "NUM = 103"
definition pieces :: int where "pieces = 103"

record legs =
  path_x :: "f32 arr2"
  path_y :: "f32 arr2"
  path_predis :: "int arr2"
  path_tot :: "int arr"
  num_path :: int

definition rd_xy :: "f32 arr2 \<Rightarrow> int \<Rightarrow> int \<Rightarrow> f32 option" where
  "rd_xy a k i = rd2 63 NUM a k i"

definition wr_xy :: "f32 arr2 \<Rightarrow> int \<Rightarrow> int \<Rightarrow> f32 \<Rightarrow> f32 arr2 option" where
  "wr_xy a k i v = wr2 63 NUM a k i v"

text \<open>One iteration of the loop that appends points.\<close>

definition path_point :: "int \<Rightarrow> f64 \<Rightarrow> f64 \<Rightarrow> int \<Rightarrow> legs \<Rightarrow> legs option" where
  "path_point num step_x step_y i s = do {
     vx \<leftarrow> rd_xy (path_x s) num (i - 1);
     ax \<leftarrow> wr_xy (path_x s) num i (to_s (to_d vx + step_x));
     vy \<leftarrow> rd_xy (path_y s) num (i - 1);
     ay \<leftarrow> wr_xy (path_y s) num i (to_s (to_d vy + step_y));
     p \<leftarrow> rd2 90 pieces (path_predis s) num (i - 1);
     ix \<leftarrow> d_int step_x;
     iy \<leftarrow> d_int step_y;
     d \<leftarrow> calc_dis 0 0 ix iy;
     ap \<leftarrow> wr2 90 pieces (path_predis s) num i (p + d);
     Some (s\<lparr>path_x := ax, path_y := ay, path_predis := ap\<rparr>)
   }"

definition path_start :: "int \<Rightarrow> int \<Rightarrow> int \<Rightarrow> legs \<Rightarrow> legs option" where
  "path_start x0 y0 num s = do {
     ax \<leftarrow> wr_xy (path_x s) num 0 (s_of_int x0);
     ay \<leftarrow> wr_xy (path_y s) num 0 (s_of_int y0);
     ap \<leftarrow> wr2 90 pieces (path_predis s) num 0 0;
     Some (s\<lparr>path_x := ax, path_y := ay, path_predis := ap\<rparr>)
   }"

definition leg_tot :: "int \<Rightarrow> int \<Rightarrow> int \<Rightarrow> int \<Rightarrow> f64 \<Rightarrow> int option" where
  "leg_tot x0 y0 x1 y1 dis_step =
     (let dx = d_of_int (x1 - x0); dy = d_of_int (y1 - y0);
          ds = d_sqrt (dx * dx + dy * dy)
      in d_int (ds / dis_step + 1))"

definition make_path :: "int \<Rightarrow> int \<Rightarrow> int \<Rightarrow> int \<Rightarrow> int \<Rightarrow> f64 \<Rightarrow> legs \<Rightarrow> legs option" where
  "make_path x0 y0 x1 y1 num dis_step s = do {
     tot \<leftarrow> leg_tot x0 y0 x1 y1 dis_step;
     let step_x = d_of_int (x1 - x0) / d_of_int tot;
     let step_y = d_of_int (y1 - y0) / d_of_int tot;
     t \<leftarrow> rd 60 (path_tot s) num;
     s \<leftarrow> (if t = 0 then path_start x0 y0 num s else Some s);
     s \<leftarrow> for_up (t + 1) (t + tot + 1) (path_point num step_x step_y) s;
     tots \<leftarrow> wr 60 (path_tot s) num (t + tot);
     Some (s\<lparr>path_tot := tots\<rparr>)
   }"

definition piece_step :: f64 where "piece_step = lit 15"

section \<open>Definedness of the arithmetic\<close>

lemma d_of_int_fin: "\<bar>n\<bar> < 2 ^ 53 \<Longrightarrow> d_of_int n = F64 (Fin (of_int n))"
  by (simp add: d_of_int_def fround_int64)

lemma square_sum_bound:
  fixes dx dy :: int
  assumes "\<bar>dx\<bar> < 2 ^ 19" and "\<bar>dy\<bar> < 2 ^ 19"
  shows "dx * dx < 2 ^ 38" and "dy * dy < 2 ^ 38" and "dx * dx + dy * dy < 2 ^ 40"
  using assms abs_mult_less[of dx "2 ^ 19" dx "2 ^ 19"] abs_mult_less[of dy "2 ^ 19" dy "2 ^ 19"]
  by (simp_all add: abs_mult)

lemma d_sqrt_sum:
  assumes "\<bar>dx\<bar> < 2 ^ 19" and "\<bar>dy\<bar> < 2 ^ 19"
  shows "\<exists>y. d_sqrt (d_of_int dx * d_of_int dx + d_of_int dy * d_of_int dy) = F64 (Fin y)
    \<and> of_int (isqrt (dx * dx + dy * dy)) \<le> y \<and> y < of_int (isqrt (dx * dx + dy * dy)) + 1"
proof -
  note b = square_sum_bound[OF assms]
  let ?n = "dx * dx + dy * dy"
  have n: "0 \<le> ?n" by simp
  have ex: "fround binary64 (of_int m) = Fin (of_int m)" if "0 \<le> m" "m < 2 ^ 40" for m
    using that by (intro fround_int64) simp
  have "d_of_int dx * d_of_int dx + d_of_int dy * d_of_int dy = F64 (Fin (of_int ?n))"
    using assms ex[of "dx * dx"] ex[of "dy * dy"] ex[OF n b(3)] b
    by (simp add: d_of_int_fin f64_defs fmul_def fadd_def)
  moreover have "d_int (d_sqrt (F64 (Fin (of_int ?n)))) = Some (isqrt ?n)"
    using n b(3) by (rule d_sqrt_trunc)
  moreover have "fle (Fin 0) (v64 (d_sqrt (F64 (Fin (of_int ?n)))))"
    using b64.nonneg[OF sqrt_sticky_nonneg, of "of_int ?n" binary64]
    by (simp add: d_sqrt_def fsqrt_def not_less)
  ultimately have 1: "\<exists>y. v64 (d_sqrt (F64 (Fin (of_int ?n)))) = Fin y \<and> \<lfloor>y\<rfloor> = isqrt ?n"
    and 2: "d_of_int dx * d_of_int dx + d_of_int dy * d_of_int dy = F64 (Fin (of_int ?n))"
    by (cases "v64 (d_sqrt (F64 (Fin (of_int ?n))))";
        auto simp: d_int_def fint_def ftrunc_def split: if_splits)+
  then obtain y where y: "v64 (d_sqrt (F64 (Fin (of_int ?n)))) = Fin y" "\<lfloor>y\<rfloor> = isqrt ?n" by blast
  have "of_int (isqrt ?n) \<le> y" "y < of_int (isqrt ?n) + 1" using y(2) by linarith+
  then show ?thesis using y(1) unfolding 2 by (metis f64.collapse)
qed

lemma isqrt_less_pow: "0 \<le> n \<Longrightarrow> n < 2 ^ 40 \<Longrightarrow> isqrt n < 2 ^ 20"
proof (rule ccontr)
  assume n: "0 \<le> n" "n < 2 ^ 40" "\<not> isqrt n < 2 ^ 20"
  then have "2 ^ 20 * 2 ^ 20 \<le> isqrt n * isqrt n" by (intro mult_mono) simp_all
  then show False using n isqrt_bounds[OF n(1)] by simp
qed

lemma leg_tot_upto:
  assumes "\<bar>x1 - x0\<bar> < 2 ^ 19" and "\<bar>y1 - y0\<bar> < 2 ^ 19"
    and k: "isqrt ((x1 - x0) * (x1 - x0) + (y1 - y0) * (y1 - y0)) < 15 * k" "k \<le> 2 ^ 20"
  shows "\<exists>tot. leg_tot x0 y0 x1 y1 piece_step = Some tot \<and> 1 \<le> tot \<and> tot \<le> k + 1"
proof -
  define r where "r = isqrt ((x1 - x0) * (x1 - x0) + (y1 - y0) * (y1 - y0))"
  have r: "0 \<le> r" "r < 15 * k"
    using isqrt_bounds[of "(x1 - x0) * (x1 - x0) + (y1 - y0) * (y1 - y0)"] k(1) by (simp_all add: r_def)
  obtain y where y: "d_sqrt (d_of_int (x1 - x0) * d_of_int (x1 - x0) + d_of_int (y1 - y0) * d_of_int (y1 - y0)) = F64 (Fin y)"
    "of_int r \<le> y" "y < of_int r + 1" using d_sqrt_sum[OF assms(1,2)] by (auto simp: r_def)
  have ex: "fround binary64 (of_int m) = Fin (of_int m)" if "0 \<le> m" "m < 2 ^ 40" for m
    using that by (intro fround_int64) simp
  have lit15: "piece_step = F64 (Fin 15)" using ex[of 15] by (simp add: piece_step_def lit_def)
  have y0: "0 \<le> y" using r(1) y(2) by (simp add: order_trans[of 0 "of_int r"])
  have up: "y \<le> 15 * of_int k"
  proof -
    have "(of_int (r + 1) :: rat) \<le> of_int (15 * k)" using r by (subst of_int_le_iff) simp
    then show ?thesis using y(3) by simp
  qed
  have k0: "0 \<le> k" using r by simp
  from b64.between[of "of_int 0" "of_int k" "y / 15"] ex[of 0] ex[OF k0] y0 up k(2)
  obtain q where q: "fround binary64 (y / 15) = Fin q" "0 \<le> q" "q \<le> of_int k" by auto
  have e1: "fround binary64 (of_int (k + 1)) = Fin (of_int (k + 1))" "fround binary64 (of_int 1) = Fin (of_int 1)"
    using ex[of "k + 1"] ex[of 1] k0 k(2) by simp_all
  have "of_int 1 \<le> q + 1" "q + 1 \<le> of_int (k + 1)" using q by simp_all
  from b64.between[OF e1(2,1) this] obtain p where p: "fround binary64 (q + 1) = Fin p" "of_int 1 \<le> p" "p \<le> of_int (k + 1)"
    by auto
  have "leg_tot x0 y0 x1 y1 piece_step = fint (Fin p)"
    unfolding leg_tot_def Let_def y(1) by (simp add: lit15 f64_defs fdiv_def q(1) fadd_def p(1) d_int_def)
  then show ?thesis using ftrunc_between[OF p(2,3)] k(2) by (auto simp: fint_def)
qed

lemma leg_tot_bounds:
  assumes "\<bar>x1 - x0\<bar> < 2 ^ 19" and "\<bar>y1 - y0\<bar> < 2 ^ 19"
  shows "\<exists>tot. leg_tot x0 y0 x1 y1 piece_step = Some tot \<and> 1 \<le> tot \<and> tot \<le> 2 ^ 20 + 2"
proof -
  have "isqrt ((x1 - x0) * (x1 - x0) + (y1 - y0) * (y1 - y0)) < 15 * 2 ^ 20"
    using isqrt_less_pow[of "(x1 - x0) * (x1 - x0) + (y1 - y0) * (y1 - y0)"] square_sum_bound(3)[OF assms] by simp
  from leg_tot_upto[OF assms this] show ?thesis by auto
qed

lemma step_int:
  assumes "\<bar>d\<bar> < 2 ^ 19" and "1 \<le> tot" and "tot \<le> 2 ^ 20 + 2"
  shows "\<exists>k. d_int (d_of_int d / d_of_int tot) = Some k \<and> \<bar>k\<bar> < 2 ^ 19"
proof -
  have ex: "fround binary64 (of_int m) = Fin (of_int m)" if "\<bar>m\<bar> < 2 ^ 40" for m
    using that by (intro fround_int64) simp
  have "\<bar>of_int d / of_int tot :: rat\<bar> \<le> of_int \<bar>d\<bar>"
  proof -
    have "\<bar>d\<bar> * 1 \<le> \<bar>d\<bar> * tot" using assms(2) by (intro mult_left_mono) simp_all
    then have "(of_int \<bar>d\<bar> :: rat) \<le> of_int (\<bar>d\<bar> * tot)" by (simp only: of_int_le_iff)
    then show ?thesis using assms(2) by (simp add: abs_divide pos_divide_le_eq)
  qed
  then have "of_int (- \<bar>d\<bar>) \<le> (of_int d / of_int tot :: rat)" "of_int d / of_int tot \<le> (of_int \<bar>d\<bar> :: rat)"
    by linarith+
  moreover have "fround binary64 (of_int (- \<bar>d\<bar>)) = Fin (of_int (- \<bar>d\<bar>))"
    "fround binary64 (of_int \<bar>d\<bar>) = Fin (of_int \<bar>d\<bar>)" using ex[of "- \<bar>d\<bar>"] ex[of "\<bar>d\<bar>"] assms(1) by simp_all
  ultimately obtain q where q: "fround binary64 (of_int d / of_int tot) = Fin q"
    "of_int (- \<bar>d\<bar>) \<le> q" "q \<le> of_int \<bar>d\<bar>" using b64.between by blast
  have "d_of_int d / d_of_int tot = F64 (Fin q)"
    using assms q(1) by (simp add: d_of_int_fin f64_defs fdiv_def)
  then show ?thesis using ftrunc_between[OF q(2,3)] assms(1) by (auto simp: d_int_def fint_def)
qed

section \<open>Properties\<close>

text \<open>The rows and columns a leg does not write keep their values.\<close>

definition same_but :: "int \<Rightarrow> int \<Rightarrow> legs \<Rightarrow> legs \<Rightarrow> bool" where
  "same_but num t s s' \<longleftrightarrow> path_tot s' = path_tot s \<and> num_path s' = num_path s
     \<and> (\<forall>k i. k \<noteq> num \<or> i \<le> t \<longrightarrow> path_x s' k i = path_x s k i \<and> path_y s' k i = path_y s k i
          \<and> path_predis s' k i = path_predis s k i)"

lemma path_point_total:
  assumes "0 \<le> num" "num < 60" "1 \<le> i" "i < NUM"
    and "d_int step_x = Some ix" "d_int step_y = Some iy" "\<bar>ix\<bar> < 2 ^ 19" "\<bar>iy\<bar> < 2 ^ 19"
  shows "\<exists>s' d. path_point num step_x step_y i s = Some s' \<and> 0 \<le> d
    \<and> s' = s\<lparr>path_x := path_x s', path_y := path_y s', path_predis := path_predis s'\<rparr>
    \<and> path_predis s' num i = path_predis s num (i - 1) + d
    \<and> (\<forall>k j. k \<noteq> num \<or> j \<noteq> i \<longrightarrow> path_x s' k j = path_x s k j \<and> path_y s' k j = path_y s k j
          \<and> path_predis s' k j = path_predis s k j)"
proof -
  obtain d where d: "calc_dis 0 0 ix iy = Some d" "0 \<le> d"
    using isqrt_dist[of 0 ix 0 iy] assms(7,8) calc_dis_nonneg[of 0 0 ix iy] by auto
  show ?thesis
    using assms(1-6) d
    by (auto simp: path_point_def rd_xy_def wr_xy_def NUM_def pieces_def c_simps)
qed

lemma path_point_bound: "path_point num step_x step_y i s = Some s' \<Longrightarrow> i < NUM"
  by (auto simp: path_point_def wr_xy_def c_dest split: Option.bind_splits)

text \<open>The points after \<open>t\<close> that the loop has written before index \<open>i\<close>.\<close>

definition leg_inv :: "int \<Rightarrow> int \<Rightarrow> legs \<Rightarrow> int \<Rightarrow> legs \<Rightarrow> bool" where
  "leg_inv num t s i s' \<longleftrightarrow> i \<le> NUM \<and> same_but num t s s'
     \<and> (\<forall>j. t < j \<and> j < i \<longrightarrow> path_predis s' num (j - 1) \<le> path_predis s' num j)"

lemma leg_inv_step:
  assumes num: "0 \<le> num" "num < 60" and i: "t + 1 \<le> i" "0 \<le> t" "i < NUM"
    and st: "d_int step_x = Some ix" "d_int step_y = Some iy" "\<bar>ix\<bar> < 2 ^ 19" "\<bar>iy\<bar> < 2 ^ 19"
    and inv: "leg_inv num t s i u"
  shows "\<exists>v. path_point num step_x step_y i u = Some v \<and> leg_inv num t s (i + 1) v"
proof -
  have "1 \<le> i" using i by simp
  from path_point_total[OF num this i(3) st, of u] obtain v d where
    v: "path_point num step_x step_y i u = Some v" "0 \<le> d"
       "v = u\<lparr>path_x := path_x v, path_y := path_y v, path_predis := path_predis v\<rparr>"
       "path_predis v num i = path_predis u num (i - 1) + d"
    and fr: "\<And>k j. k \<noteq> num \<or> j \<noteq> i \<Longrightarrow> path_x v k j = path_x u k j \<and> path_y v k j = path_y u k j
          \<and> path_predis v k j = path_predis u k j" by blast
  have "path_tot v = path_tot u" "num_path v = num_path u" by (subst v(3), simp)+
  moreover have "path_x v k j = path_x s k j \<and> path_y v k j = path_y s k j
      \<and> path_predis v k j = path_predis s k j" if "k \<noteq> num \<or> j \<le> t" for k j
  proof -
    have "k \<noteq> num \<or> j \<noteq> i" using that i(1) by auto
    then show ?thesis using fr[of k j] inv that unfolding leg_inv_def same_but_def by auto
  qed
  ultimately have "same_but num t s v" using inv unfolding leg_inv_def same_but_def by simp
  moreover have "path_predis v num (j - 1) \<le> path_predis v num j" if "t < j" "j < i + 1" for j
  proof (cases "j = i")
    case True
    then show ?thesis using v(2,4) fr[of num "i - 1"] by simp
  next
    case False
    then show ?thesis using inv that fr[of num j] fr[of num "j - 1"] unfolding leg_inv_def by simp
  qed
  ultimately show ?thesis using v(1) i(3) by (simp add: leg_inv_def)
qed

lemma leg_loop:
  assumes num: "0 \<le> num" "num < 60" and t: "0 \<le> t" "t < NUM" and tot: "1 \<le> tot"
    and st: "d_int step_x = Some ix" "d_int step_y = Some iy" "\<bar>ix\<bar> < 2 ^ 19" "\<bar>iy\<bar> < 2 ^ 19"
  shows "case for_up (t + 1) (t + tot + 1) (path_point num step_x step_y) s of
      None \<Rightarrow> NUM \<le> t + tot | Some s' \<Rightarrow> t + tot < NUM \<and> leg_inv num t s (t + tot + 1) s'"
proof -
  have start: "leg_inv num t s (t + 1) s" using t by (auto simp: leg_inv_def same_but_def)
  show ?thesis
  proof (cases "t + tot < NUM")
    case True
    have "\<exists>s'. for_up (t + 1) (t + tot + 1) (path_point num step_x step_y) s = Some s'
        \<and> leg_inv num t s (t + tot + 1) s'"
      by (rule for_up_total) (use start leg_inv_step[OF num _ t(1) _ st] True tot in auto)
    then show ?thesis using True by auto
  next
    case False
    have "for_up (t + 1) (t + tot + 1) (path_point num step_x step_y) s \<noteq> Some s'" for s'
    proof
      assume "for_up (t + 1) (t + tot + 1) (path_point num step_x step_y) s = Some s'"
      then have "t + tot + 1 - 1 < NUM"
        by (rule for_up_inv[where P = "\<lambda>i _. i - 1 < NUM"]) (use t tot path_point_bound in auto)
      then show False using False by simp
    qed
    then show ?thesis using False by (cases "for_up (t + 1) (t + tot + 1) (path_point num step_x step_y) s") auto
  qed
qed


definition blank_legs :: "int \<Rightarrow> legs" where
  "blank_legs t = \<lparr>path_x = \<lambda>_ _. 0, path_y = \<lambda>_ _. 0, path_predis = \<lambda>_ _. 0,
     path_tot = \<lambda>_. t, num_path = 0\<rparr>"

lemma leg_tot_100_45: "leg_tot 0 0 100 45 piece_step = Some 8"
  by code_simp


end
