(* ===== verification/Grid_Search.thy ===== *)
theory Grid_Search
  imports Path_Heap Leg_Store
begin

text \<open>
  The grid search of \<^verbatim>\<open>CODE/aco.c\<close>: \<open>astar_init\<close> marks the cells blocked by the cards,
  \<open>astar\<close> looks for a way from \<open>(stx, sty)\<close> to \<open>(edx, edy)\<close> with eight unit moves and three
  families of long moves, walks the parents back and hands the cells to \<open>make_path\<close>.

  The four expansion blocks of the C loop differ in the table of moves, the cost and the guard
  \<open>flag\<close>; their common body is \<open>relax\<close>. Cells carry \<open>uint8_t\<close> coordinates, so a step below 0
  wraps to the top. The flags read \<open>obs\<close> up to three cells around the current one without a
  range check: such a read is taken from flat memory, and outside the 80 by 60 array its value
  is given by the parameter \<open>junk\<close>, so what is proved holds for every content of the memory
  around the array. All writes are checked against the arrays.
\<close>

section \<open>The grid\<close>

definition NN :: int where "NN = 80"
definition MM :: int where "MM = 60"
definition ww :: int where "ww = 76"
definition hh :: int where "hh = 56"

definition dir0 :: "(int \<times> int) list" where
  "dir0 = [(-1, -1), (1, 1), (1, -1), (-1, 1), (1, 0), (0, 1), (-1, 0), (0, -1)]"
definition dir1 :: "(int \<times> int) list" where
  "dir1 = [(1, 2), (-1, 2), (1, -2), (-1, -2), (2, 1), (2, -1), (-2, 1), (-2, -1)]"
definition dir2 :: "(int \<times> int) list" where
  "dir2 = [(3, 2), (-3, 2), (3, -2), (-3, -2), (2, 3), (2, -3), (-2, 3), (-2, -3)]"
definition dir3 :: "(int \<times> int) list" where
  "dir3 = [(1, 3), (-1, 3), (1, -3), (-1, -3), (3, 1), (3, -1), (-3, 1), (-3, -1)]"

text \<open>\<open>pos_int\<close>, the cards' cells, as the list of its first \<open>pic_num\<close> entries.\<close>

definition block_card :: "int \<times> int \<Rightarrow> int arr2 \<Rightarrow> int arr2 option" where
  "block_card p obs =
     (let x = fst p * 2 - 1 + 3; y = snd p * 2 - 1 + 3
      in for_up (x - 1) (x + 3) (\<lambda>xx. for_up (y - 1) (y + 3) (\<lambda>yy obs. wr2 NN MM obs xx yy 1)) obs)"

definition astar_init :: "(int \<times> int) list \<Rightarrow> int arr2 option" where
  "astar_init pos_int = do {
     obs \<leftarrow> for_list block_card pos_int (\<lambda>_ _. 0);
     obs \<leftarrow> wr2 NN MM obs 5 4 0;
     obs \<leftarrow> wr2 NN MM obs 5 5 0;
     obs \<leftarrow> wr2 NN MM obs 4 5 0;
     wr2 NN MM obs 4 4 0
   }"

text \<open>A read of \<open>obs\<close> through flat memory.\<close>

definition rd_obs :: "int arr2 \<Rightarrow> (int \<Rightarrow> int) \<Rightarrow> int \<Rightarrow> int \<Rightarrow> int" where
  "rd_obs obs junk x y =
     (let a = x * MM + y
      in if 0 \<le> a \<and> a < NN * MM then obs (a div MM) (a mod MM) else junk a)"

section \<open>The search\<close>

record search =
  opn :: pqueue
  fax :: "int arr2"
  fay :: "int arr2"
  cst :: "int arr2"

text \<open>
  One neighbour: the cell moved to, its cost and estimate, and the update of \<open>cst\<close>, the open
  list and the parents. The two \<open>continue\<close>s return the state unchanged.
\<close>

definition relax :: "int arr2 \<Rightarrow> (int \<Rightarrow> int) \<Rightarrow> int \<Rightarrow> int \<Rightarrow> nodee \<Rightarrow> int \<times> int \<Rightarrow> int \<Rightarrow> search \<Rightarrow> search option" where
  "relax obs junk edx edy cur d cost s =
     (let x = u8 (nx cur + fst d); y = u8 (ny cur + snd d) in
      if rd_obs obs junk x y = 1 then Some s
      else if x < 1 \<or> x > ww \<or> y < 1 \<or> y > hh then Some s
      else do {
        h \<leftarrow> calc_dis x y edx edy;
        let g = nG cur + cost;
        let nxt = \<lparr>nx = x, ny = y, nF = g + h, nG = g, nH = h\<rparr>;
        c \<leftarrow> rd2 NN MM (cst s) x y;
        if c = 0 \<or> c > nF nxt then do {
          cst' \<leftarrow> wr2 NN MM (cst s) x y (nF nxt);
          opn' \<leftarrow> push nxt (opn s);
          fax' \<leftarrow> wr2 NN MM (fax s) x y (nx cur);
          fay' \<leftarrow> wr2 NN MM (fay s) x y (ny cur);
          Some (s\<lparr>opn := opn', fax := fax', fay := fay', cst := cst'\<rparr>)
        } else Some s
      })"

text \<open>\<open>flag *= (1 - obs[..][..])\<close> over a table of moves, in 32-bit arithmetic.\<close>

definition clear_flag :: "int arr2 \<Rightarrow> (int \<Rightarrow> int) \<Rightarrow> nodee \<Rightarrow> int \<Rightarrow> (int \<times> int) list \<Rightarrow> int" where
  "clear_flag obs junk cur flag dirs =
     foldl (\<lambda>f d. i32 (f * (1 - rd_obs obs junk (nx cur + fst d) (ny cur + snd d)))) flag dirs"

definition expand0 :: "int arr2 \<Rightarrow> (int \<Rightarrow> int) \<Rightarrow> int \<Rightarrow> int \<Rightarrow> nodee \<Rightarrow> search \<Rightarrow> search option" where
  "expand0 obs junk edx edy cur =
     for_list (\<lambda>d. relax obs junk edx edy cur d (if \<bar>fst d\<bar> + \<bar>snd d\<bar> = 1 then 10 else 14)) dir0"

definition expand1 :: "int arr2 \<Rightarrow> (int \<Rightarrow> int) \<Rightarrow> int \<Rightarrow> int \<Rightarrow> nodee \<Rightarrow> search \<Rightarrow> search option" where
  "expand1 obs junk edx edy cur s =
     (if clear_flag obs junk cur 1 dir1 \<noteq> 0
      then for_list (\<lambda>d. relax obs junk edx edy cur d 22) dir1 s else Some s)"

definition expand2 :: "int arr2 \<Rightarrow> (int \<Rightarrow> int) \<Rightarrow> int \<Rightarrow> int \<Rightarrow> nodee \<Rightarrow> search \<Rightarrow> search option" where
  "expand2 obs junk edx edy cur s =
     (if clear_flag obs junk cur 1 dir2 \<noteq> 0
      then for_list (\<lambda>d. relax obs junk edx edy cur d 36) dir2 s else Some s)"

definition expand3 :: "int arr2 \<Rightarrow> (int \<Rightarrow> int) \<Rightarrow> int \<Rightarrow> int \<Rightarrow> nodee \<Rightarrow> search \<Rightarrow> search option" where
  "expand3 obs junk edx edy cur s =
     (if clear_flag obs junk cur 1 dir3 \<noteq> 0
      then for_list (\<lambda>d. relax obs junk edx edy cur d 32) dir3 s else Some s)"

text \<open>
  The body of the loop after the test for the target. The first \<open>flag\<close> of the source is
  computed from 0 and then set to 1 without being read, so it has no effect.
\<close>

definition expand :: "int arr2 \<Rightarrow> (int \<Rightarrow> int) \<Rightarrow> int \<Rightarrow> int \<Rightarrow> nodee \<Rightarrow> search \<Rightarrow> search option" where
  "expand obs junk edx edy cur s = do {
     s \<leftarrow> expand0 obs junk edx edy cur s;
     s \<leftarrow> expand1 obs junk edx edy cur s;
     s \<leftarrow> expand2 obs junk edx edy cur s;
     expand3 obs junk edx edy cur s
   }"

text \<open>
  The loop runs on the search state and on the flag that the target has been popped, after
  which the code leaves it.
\<close>

definition astar_step :: "int arr2 \<Rightarrow> (int \<Rightarrow> int) \<Rightarrow> int \<Rightarrow> int \<Rightarrow> search \<times> bool \<Rightarrow> (search \<times> bool) option" where
  "astar_step obs junk edx edy st =
     (case pop (opn (fst st)) of None \<Rightarrow> None
      | Some (cur, q) \<Rightarrow>
          let s = (fst st)\<lparr>opn := q\<rparr> in
          if nx cur = edx \<and> ny cur = edy then Some (s, True)
          else map_option (\<lambda>s. (s, False)) (expand obs junk edx edy cur s))"

definition astar_start :: "nodee arr \<Rightarrow> int \<Rightarrow> int \<Rightarrow> int \<Rightarrow> int \<Rightarrow> search option" where
  "astar_start h stx sty edx edy = do {
     d \<leftarrow> calc_dis stx sty edx edy;
     q \<leftarrow> push \<lparr>nx = u8 stx, ny = u8 sty, nF = 0 + d, nG = 0, nH = d\<rparr> \<lparr>heap = h, sz = 0\<rparr>;
     Some \<lparr>opn = q, fax = \<lambda>_ _. 0, fay = \<lambda>_ _. 0, cst = \<lambda>_ _. 0\<rparr>
   }"

definition astar_loop :: "int arr2 \<Rightarrow> (int \<Rightarrow> int) \<Rightarrow> int \<Rightarrow> int \<Rightarrow> search \<Rightarrow> (search \<times> bool) option option" where
  "astar_loop obs junk edx edy s =
     while_ub (\<lambda>(s, found). \<not> found \<and> sz (opn s) \<noteq> 0) (astar_step obs junk edx edy) (s, False)"

section \<open>Walking back\<close>

record walk =
  roux :: "int arr"
  rouy :: "int arr"
  rnum :: int
  wx :: int
  wy :: int
  wend :: bool

text \<open>One turn of the \<open>while (true)\<close> loop; \<open>wend\<close> records its \<open>break\<close>.\<close>

definition walk_step :: "search \<Rightarrow> int \<Rightarrow> int \<Rightarrow> walk \<Rightarrow> walk option" where
  "walk_step s stx sty w = do {
     rx \<leftarrow> wr pieces (roux w) (rnum w) (wx w);
     ry \<leftarrow> wr pieces (rouy w) (rnum w) (wy w);
     let w = w\<lparr>roux := rx, rouy := ry, rnum := rnum w + 1\<rparr>;
     if wx w = stx \<and> wy w = sty then Some (w\<lparr>wend := True\<rparr>)
     else do {
       px \<leftarrow> rd2 NN MM (fax s) (wx w) (wy w);
       py \<leftarrow> rd2 NN MM (fay s) (wx w) (wy w);
       Some (w\<lparr>wx := px, wy := py\<rparr>)
     }
   }"

definition walk_back :: "search \<Rightarrow> int \<Rightarrow> int \<Rightarrow> int \<Rightarrow> int \<Rightarrow> walk option option" where
  "walk_back s stx sty edx edy =
     while_ub (\<lambda>w. \<not> wend w) (walk_step s stx sty)
       \<lparr>roux = \<lambda>_. 0, rouy = \<lambda>_. 0, rnum = 0, wx = edx, wy = edy, wend = False\<rparr>"

text \<open>
  The search with its walk: outer \<^const>\<open>None\<close> would be divergence, inner \<^const>\<open>None\<close>
  undefined behaviour. Without a way the arrays \<open>roux\<close>, \<open>rouy\<close> stay zero and the counter \<open>num_\<close> (here \<open>rnum\<close>) is 0.
\<close>

definition astar_route :: "int arr2 \<Rightarrow> (int \<Rightarrow> int) \<Rightarrow> nodee arr \<Rightarrow> int \<Rightarrow> int \<Rightarrow> int \<Rightarrow> int \<Rightarrow>
    (bool \<times> walk) option option" where
  "astar_route obs junk h stx sty edx edy =
     (case astar_start h stx sty edx edy of None \<Rightarrow> Some None
      | Some s \<Rightarrow>
         (case astar_loop obs junk edx edy s of None \<Rightarrow> None
          | Some None \<Rightarrow> Some None
          | Some (Some (s, True)) \<Rightarrow> map_option (map_option (Pair True)) (walk_back s stx sty edx edy)
          | Some (Some (s, False)) \<Rightarrow>
              Some (Some (False, \<lparr>roux = \<lambda>_. 0, rouy = \<lambda>_. 0, rnum = 0, wx = 0, wy = 0, wend = False\<rparr>))))"

text \<open>
  The tail of \<open>astar\<close>: one leg per pair of neighbouring cells, from the start, and one to the
  card \<open>(cx, cy)\<close>, which the code reads as \<open>px[path[0][ipath]]\<close>, \<open>py[path[0][ipath]]\<close>.
\<close>

definition astar_legs :: "walk \<Rightarrow> int \<times> int \<Rightarrow> legs \<Rightarrow> legs option" where
  "astar_legs w c s = do {
     s \<leftarrow> for_list (\<lambda>i s. do {
            x0 \<leftarrow> rd pieces (roux w) i;
            y0 \<leftarrow> rd pieces (rouy w) i;
            x1 \<leftarrow> rd pieces (roux w) (i - 1);
            y1 \<leftarrow> rd pieces (rouy w) (i - 1);
            make_path (x0 * 10 - 45) (y0 * 10 - 45) (x1 * 10 - 45) (y1 * 10 - 45)
              (num_path s) piece_step s
          }) (rev [1..rnum w - 1]) s;
     s \<leftarrow> make_path (roux w 0 * 10 - 45) (rouy w 0 * 10 - 45) (fst c) (snd c) (num_path s) piece_step s;
     Some (s\<lparr>num_path := num_path s + 1\<rparr>)
   }"

definition astar :: "int arr2 \<Rightarrow> (int \<Rightarrow> int) \<Rightarrow> nodee arr \<Rightarrow> int \<Rightarrow> int \<Rightarrow> int \<Rightarrow> int \<Rightarrow> int \<times> int \<Rightarrow>
    legs \<Rightarrow> legs option option" where
  "astar obs junk h stx sty edx edy c s =
     (case astar_route obs junk h stx sty edx edy of None \<Rightarrow> None
      | Some None \<Rightarrow> Some None
      | Some (Some (found, w)) \<Rightarrow> Some (astar_legs w c s))"

section \<open>The invariant of the search\<close>

type_synonym cell = "int \<times> int"

definition in_box :: "int \<Rightarrow> int \<Rightarrow> bool" where
  "in_box x y \<longleftrightarrow> 1 \<le> x \<and> x \<le> ww \<and> 1 \<le> y \<and> y \<le> hh"

definition moves :: "cell set" where
  "moves = set dir0 \<union> set dir1 \<union> set dir2 \<union> set dir3"

definition visited :: "cell \<Rightarrow> search \<Rightarrow> int \<Rightarrow> int \<Rightarrow> bool" where
  "visited st s x y \<longleftrightarrow> (x, y) = st \<or> cst s x y \<noteq> 0"

text \<open>The cost without the estimate, 0 at the start.\<close>

definition gval :: "cell \<Rightarrow> cell \<Rightarrow> search \<Rightarrow> int \<Rightarrow> int \<Rightarrow> int" where
  "gval st ed s x y = (if (x, y) = st then 0 else cst s x y - the (calc_dis x y (fst ed) (snd ed)))"

definition entry_ok :: "cell \<Rightarrow> cell \<Rightarrow> search \<Rightarrow> nodee \<Rightarrow> bool" where
  "entry_ok st ed s e \<longleftrightarrow> in_box (nx e) (ny e) \<and> 0 \<le> nG e
     \<and> calc_dis (nx e) (ny e) (fst ed) (snd ed) = Some (nH e) \<and> nF e = nG e + nH e
     \<and> visited st s (nx e) (ny e) \<and> gval st ed s (nx e) (ny e) \<le> nG e"

definition cell_ok :: "int arr2 \<Rightarrow> cell \<Rightarrow> cell \<Rightarrow> search \<Rightarrow> int \<Rightarrow> int \<Rightarrow> bool" where
  "cell_ok obs st ed s x y \<longleftrightarrow> in_box x y \<and> obs x y \<noteq> 1
     \<and> (\<exists>h. calc_dis x y (fst ed) (snd ed) = Some h \<and> h < cst s x y)
     \<and> (x - fax s x y, y - fay s x y) \<in> moves
     \<and> visited st s (fax s x y) (fay s x y)
     \<and> gval st ed s (fax s x y) (fay s x y) < cst s x y - the (calc_dis x y (fst ed) (snd ed))"

text \<open>All free cells one unit move away have been reached.\<close>

definition closed_at :: "int arr2 \<Rightarrow> search \<Rightarrow> int \<Rightarrow> int \<Rightarrow> bool" where
  "closed_at obs s x y \<longleftrightarrow>
     (\<forall>d \<in> set dir0. in_box (x + fst d) (y + snd d) \<and> obs (x + fst d) (y + snd d) \<noteq> 1
        \<longrightarrow> cst s (x + fst d) (y + snd d) \<noteq> 0)"

definition pending :: "search \<Rightarrow> int \<Rightarrow> int \<Rightarrow> bool" where
  "pending s x y \<longleftrightarrow> (\<exists>e \<in># pq_bag (opn s). nx e = x \<and> ny e = y)"

definition ginv :: "int arr2 \<Rightarrow> cell \<Rightarrow> cell \<Rightarrow> search \<Rightarrow> bool" where
  "ginv obs st ed s \<longleftrightarrow> pq_inv (opn s)
     \<and> (\<forall>e \<in># pq_bag (opn s). entry_ok st ed s e)
     \<and> (\<forall>x y. cst s x y \<noteq> 0 \<longrightarrow> cell_ok obs st ed s x y)"

text \<open>Every visited cell but those of \<open>ex\<close> is pending, or is closed and not the target.\<close>

definition ginv_ex :: "int arr2 \<Rightarrow> cell \<Rightarrow> cell \<Rightarrow> cell set \<Rightarrow> search \<Rightarrow> bool" where
  "ginv_ex obs st ed ex s \<longleftrightarrow>
     (\<forall>x y. visited st s x y \<and> (x, y) \<notin> ex \<longrightarrow>
        pending s x y \<or> closed_at obs s x y \<and> (x, y) \<noteq> ed)"

text \<open>What an expansion does to the costs, and its measure.\<close>

definition improves :: "search \<Rightarrow> search \<Rightarrow> bool" where
  "improves s s' \<longleftrightarrow> (\<forall>x y. cst s x y \<noteq> 0 \<longrightarrow> cst s' x y \<noteq> 0 \<and> cst s' x y \<le> cst s x y)
     \<and> pq_bag (opn s) \<subseteq># pq_bag (opn s')"

definition box :: "cell set" where
  "box = {1..ww} \<times> {1..hh}"

definition unseen :: "search \<Rightarrow> nat" where
  "unseen s = card {c \<in> box. cst s (fst c) (snd c) = 0}"

definition total :: "search \<Rightarrow> nat" where
  "total s = (\<Sum>c \<in> box. nat (cst s (fst c) (snd c)))"

definition cost_rel :: "(search \<times> search) set" where
  "cost_rel = inv_image (less_than <*lex*> less_than) (\<lambda>s. (unseen s, total s))"

lemma rd_obs_box: "in_box x y \<Longrightarrow> rd_obs obs junk x y = obs x y"
proof -
  assume b: "in_box x y"
  have y: "0 \<le> y" "y < 60" using b by (simp_all add: in_box_def hh_def)
  then have "(x * 60 + y) div 60 = x" "(x * 60 + y) mod 60 = y"
    by simp_all
  then show ?thesis using b by (simp add: rd_obs_def Let_def NN_def MM_def in_box_def ww_def hh_def)
qed

lemma moves_small: "d \<in> moves \<Longrightarrow> \<bar>fst d\<bar> \<le> 3 \<and> \<bar>snd d\<bar> \<le> 3 \<and> d \<noteq> (0, 0)"
  by (auto simp: moves_def dir0_def dir1_def dir2_def dir3_def)

lemma u8_move:
  assumes "1 \<le> a" "a \<le> 76" "\<bar>d\<bar> \<le> 3" "1 \<le> u8 (a + d)" "u8 (a + d) \<le> 76"
  shows "u8 (a + d) = a + d"
proof (cases "0 \<le> a + d")
  case False
  then have "u8 (a + d) = (a + d + 256) mod 256" "0 \<le> a + d + 256" "a + d + 256 < 256"
    using assms(1,3) by (simp_all add: u8_def)
  then have "u8 (a + d) = a + d + 256" by (metis mod_pos_pos_trivial)
  then show ?thesis using assms by simp
qed (use assms in \<open>simp add: u8_id\<close>)

lemma improves_refl [simp]: "improves s s"
  by (simp add: improves_def)

lemma improves_trans: "improves s t \<Longrightarrow> improves t u \<Longrightarrow> improves s u"
  unfolding improves_def by (meson order_trans subset_mset.order_trans)

lemma improves_visited: "improves s s' \<Longrightarrow> visited st s x y \<Longrightarrow> visited st s' x y"
  by (auto simp: improves_def visited_def)

lemma improves_closed: "improves s s' \<Longrightarrow> closed_at obs s x y \<Longrightarrow> closed_at obs s' x y"
  unfolding improves_def closed_at_def by blast

lemma improves_pending: "improves s s' \<Longrightarrow> pending s x y \<Longrightarrow> pending s' x y"
  unfolding improves_def pending_def by (meson mset_subset_eqD)

lemma improves_gval: "improves s s' \<Longrightarrow> visited st s x y \<Longrightarrow> gval st ed s' x y \<le> gval st ed s x y"
  by (auto simp: improves_def visited_def gval_def)

lemma improves_entry: "improves s s' \<Longrightarrow> entry_ok st ed s e \<Longrightarrow> entry_ok st ed s' e"
  using improves_gval[of s s' st "nx e" "ny e" ed] improves_visited[of s s' st]
  unfolding entry_ok_def by fastforce

text \<open>One relaxation.\<close>

definition relax_post :: "int arr2 \<Rightarrow> cell \<Rightarrow> cell \<Rightarrow> cell set \<Rightarrow> search \<Rightarrow> search \<Rightarrow> bool" where
  "relax_post obs st ed ex s s' \<longleftrightarrow> ginv obs st ed s' \<and> ginv_ex obs st ed ex s' \<and> improves s s'
     \<and> (s' = s \<or> (s', s) \<in> cost_rel)"

lemma cost_rel_update:
  assumes "in_box x y" and "c' = (cst s)(x := (cst s x)(y := v))" and "0 < v"
    and "cst s x y = 0 \<or> v < cst s x y" and "cst s' = c'"
  shows "(s', s) \<in> cost_rel"
proof -
  have b: "(x, y) \<in> box" using assms(1) by (simp add: box_def in_box_def)
  have fin: "finite box" by (simp add: box_def)
  have same: "cst s' (fst c) (snd c) = cst s (fst c) (snd c)" if "c \<noteq> (x, y)" for c
    using that assms(2,5) by (cases c) auto
  have at: "cst s' x y = v" using assms(2,5) by simp
  show ?thesis
  proof (cases "cst s x y = 0")
    case True
    have "{c \<in> box. cst s' (fst c) (snd c) = 0} \<subset> {c \<in> box. cst s (fst c) (snd c) = 0}"
      using same at True b assms(3) by (intro psubsetI subsetI) (force, force)
    then have "unseen s' < unseen s"
      unfolding unseen_def using fin by (intro psubset_card_mono) simp_all
    then show ?thesis by (simp add: cost_rel_def)
  next
    case False
    have "{c \<in> box. cst s' (fst c) (snd c) = 0} = {c \<in> box. cst s (fst c) (snd c) = 0}"
    proof (intro Collect_cong conj_cong refl)
      show "(cst s' (fst c) (snd c) = 0) = (cst s (fst c) (snd c) = 0)" for c
        using same[of c] at False assms(3) by (cases "c = (x, y)") auto
    qed
    then have "unseen s' = unseen s" by (simp add: unseen_def)
    moreover have "total s' < total s"
      unfolding total_def
    proof (rule sum_strict_mono_ex1[OF fin])
      show "\<forall>c \<in> box. nat (cst s' (fst c) (snd c)) \<le> nat (cst s (fst c) (snd c))"
        using same at False assms(4) by (metis fst_conv snd_conv nat_mono less_imp_le order_refl)
      show "\<exists>c \<in> box. nat (cst s' (fst c) (snd c)) < nat (cst s (fst c) (snd c))"
        using b at False assms(3,4) by (intro bexI[of _ "(x, y)"]) simp_all
    qed
    ultimately show ?thesis by (simp add: cost_rel_def)
  qed
qed

text \<open>The cell a relaxation writes, and the invariant after the write.\<close>

lemma relax_write:
  assumes inv: "ginv obs st ed s" and ex: "ginv_ex obs st ed ex s" and cur: "entry_ok st ed s cur"
    and b: "in_box x y" and o: "obs x y \<noteq> 1" and mv: "(x - nx cur, y - ny cur) \<in> moves"
    and h: "calc_dis x y (fst ed) (snd ed) = Some h" and cost: "0 < cost"
    and less: "cst s x y = 0 \<or> nG cur + cost + h < cst s x y"
    and q: "pq_inv q"
      "pq_bag q = add_mset \<lparr>nx = x, ny = y, nF = nG cur + cost + h, nG = nG cur + cost, nH = h\<rparr> (pq_bag (opn s))"
    and s': "s' = s\<lparr>opn := q, fax := (fax s)(x := (fax s x)(y := nx cur)),
      fay := (fay s)(x := (fay s x)(y := ny cur)), cst := (cst s)(x := (cst s x)(y := nG cur + cost + h))\<rparr>"
  shows "relax_post obs st ed ex s s'"
proof -
  let ?F = "nG cur + cost + h" and ?e = "\<lparr>nx = x, ny = y, nF = nG cur + cost + h, nG = nG cur + cost, nH = h\<rparr>"
  have g0: "0 \<le> nG cur" and h0: "0 \<le> h" using cur calc_dis_nonneg[OF h] by (simp_all add: entry_ok_def)
  have F: "0 < ?F" using g0 h0 cost by simp
  have c': "cst s' u v = (if u = x \<and> v = y then ?F else cst s u v)" for u v by (simp add: s')
  have imp: "improves s s'"
    unfolding improves_def using less F by (auto simp: c' s' q(2) subset_mset.add_increasing2)
  have ne: "(nx cur, ny cur) \<noteq> (x, y)" using moves_small[OF mv] by auto
  have ent: "entry_ok st ed s' e" if "e \<in># pq_bag (opn s')" for e
  proof (cases "e = ?e")
    case True
    then show ?thesis using b h F g0 cost c'[of x y]
      by (simp add: entry_ok_def visited_def gval_def)
  next
    case False
    then have "e \<in># pq_bag (opn s)" using that by (simp add: s' q(2))
    then show ?thesis using inv improves_entry[OF imp] unfolding ginv_def by blast
  qed
  have cell: "cell_ok obs st ed s' u v" if "cst s' u v \<noteq> 0" for u v
  proof (cases "(u, v) = (x, y)")
    case True
    have "gval st ed s' (nx cur) (ny cur) \<le> nG cur" "visited st s' (nx cur) (ny cur)"
      using improves_entry[OF imp cur] by (simp_all add: entry_ok_def)
    then show ?thesis using True b o h mv cost g0 c'[of x y] by (simp add: cell_ok_def s')
  next
    case False
    have eq: "cst s' u v = cst s u v" using False c' by auto
    have old: "cst s u v \<noteq> 0" "cst s' u v = cst s u v" "fax s' u v = fax s u v" "fay s' u v = fay s u v"
      using that eq False by (auto simp: s')
    have ok: "cell_ok obs st ed s u v" using inv old(1) by (simp add: ginv_def)
    then have "gval st ed s' (fax s u v) (fay s u v) \<le> gval st ed s (fax s u v) (fay s u v)"
      "visited st s' (fax s u v) (fay s u v)"
      using improves_gval[OF imp] improves_visited[OF imp] by (simp_all add: cell_ok_def)
    then show ?thesis using ok unfolding cell_ok_def old(2-4) by auto
  qed
  have "ginv_ex obs st ed ex s'"
    unfolding ginv_ex_def
  proof (intro allI impI)
    fix u v assume uv: "visited st s' u v \<and> (u, v) \<notin> ex"
    show "pending s' u v \<or> closed_at obs s' u v \<and> (u, v) \<noteq> ed"
    proof (cases "(u, v) = (x, y)")
      case True
      then show ?thesis by (auto simp: pending_def s' q(2))
    next
      case False
      then have "visited st s u v" using uv c'[of u v] by (auto simp: visited_def)
      then show ?thesis using uv ex improves_pending[OF imp] improves_closed[OF imp]
        unfolding ginv_ex_def by blast
    qed
  qed
  moreover have "(s', s) \<in> cost_rel"
    by (rule cost_rel_update[OF b _ F less]) (simp_all add: s')
  moreover have "ginv obs st ed s'" using ent cell q(1) by (simp add: ginv_def s')
  ultimately show ?thesis using imp by (simp add: relax_post_def)
qed

lemma relax_step:
  assumes inv: "ginv obs st ed s" and ex: "ginv_ex obs st ed ex s" and cur: "entry_ok st ed s cur"
    and d: "d \<in> moves" and cost: "0 < cost"
    and r: "relax obs junk (fst ed) (snd ed) cur d cost s = Some s'"
  shows "relax_post obs st ed ex s s'
    \<and> (in_box (nx cur + fst d) (ny cur + snd d) \<and> obs (nx cur + fst d) (ny cur + snd d) \<noteq> 1
        \<longrightarrow> cst s' (nx cur + fst d) (ny cur + snd d) \<noteq> 0)"
proof -
  let ?x = "u8 (nx cur + fst d)" and ?y = "u8 (ny cur + snd d)"
  have cb: "in_box (nx cur) (ny cur)" using cur by (simp add: entry_ok_def)
  have u8: "?x = nx cur + fst d" "?y = ny cur + snd d" if "in_box ?x ?y"
    using that cb moves_small[OF d] u8_move[of "nx cur" "fst d"] u8_move[of "ny cur" "snd d"]
    by (simp_all add: in_box_def ww_def hh_def)
  have u8': "?x = nx cur + fst d" "?y = ny cur + snd d" if "in_box (nx cur + fst d) (ny cur + snd d)"
    using that by (simp_all add: in_box_def ww_def hh_def u8_id)
  have same: "relax_post obs st ed ex s s" using inv ex by (simp add: relax_post_def)
  show ?thesis
  proof (cases "in_box ?x ?y \<and> obs ?x ?y \<noteq> 1")
    case False
    have "s' = s"
    proof (cases "in_box ?x ?y")
      case True
      then show ?thesis using False r rd_obs_box[OF True] by (simp add: relax_def Let_def)
    next
      case nb: False
      then show ?thesis using r by (auto simp: relax_def Let_def in_box_def split: if_splits)
    qed
    moreover have "\<not> (in_box (nx cur + fst d) (ny cur + snd d) \<and> obs (nx cur + fst d) (ny cur + snd d) \<noteq> 1)"
      using False u8' by auto
    ultimately show ?thesis using same by blast
  next
    case True
    note xy = u8[OF conjunct1[OF True]]
    have box: "\<not> (?x < 1 \<or> ?x > ww \<or> ?y < 1 \<or> ?y > hh)" using True by (simp add: in_box_def)
    have idx: "0 \<le> ?x" "?x < NN" "0 \<le> ?y" "?y < MM" using True
      by (simp_all add: in_box_def ww_def hh_def NN_def MM_def)
    from r True box obtain h where h: "calc_dis ?x ?y (fst ed) (snd ed) = Some h"
      by (auto simp: relax_def Let_def rd_obs_box split: Option.bind_splits)
    let ?F = "nG cur + cost + h"
    show ?thesis
    proof (cases "cst s ?x ?y = 0 \<or> cst s ?x ?y > ?F")
      case no: False
      then have "s' = s" using r True box h idx by (simp add: relax_def Let_def rd_obs_box c_simps)
      then show ?thesis using same no xy by simp
    next
      case upd: True
      let ?e = "\<lparr>nx = ?x, ny = ?y, nF = ?F, nG = nG cur + cost, nH = h\<rparr>"
      from r True box h idx upd obtain q where q: "push ?e (opn s) = Some q"
        and s': "s' = s\<lparr>opn := q, fax := (fax s)(?x := (fax s ?x)(?y := nx cur)),
          fay := (fay s)(?x := (fay s ?x)(?y := ny cur)), cst := (cst s)(?x := (cst s ?x)(?y := ?F))\<rparr>"
        by (auto simp: relax_def Let_def rd_obs_box c_simps split: Option.bind_splits)
      have "pq_inv (opn s)" using inv by (simp add: ginv_def)
      note qq = open_list.insD(1,2)[OF this q]
      have mv: "(?x - nx cur, ?y - ny cur) \<in> moves" using xy d by simp
      have less: "cst s ?x ?y = 0 \<or> ?F < cst s ?x ?y" using upd by simp
      have "relax_post obs st ed ex s s'"
        using relax_write[OF inv ex cur _ _ mv h cost less qq s'] True by blast
      moreover have "cst s' ?x ?y \<noteq> 0"
        using cur calc_dis_nonneg[OF h] cost by (simp add: s' entry_ok_def)
      ultimately show ?thesis using xy by simp
    qed
  qed
qed

lemma trans_cost_rel: "trans cost_rel" and wf_cost_rel: "wf cost_rel"
  unfolding cost_rel_def by (auto intro!: trans_inv_image wf_inv_image)

lemma relax_post_trans:
  assumes "relax_post obs st ed ex s t" and "relax_post obs st ed ex t u"
  shows "relax_post obs st ed ex s u"
  using assms improves_trans[of s t u] transD[OF trans_cost_rel, of u t s]
  unfolding relax_post_def by auto

text \<open>The relaxations of a table of moves.\<close>

lemma relax_list:
  assumes "for_list (\<lambda>d. relax obs junk (fst ed) (snd ed) cur d (cost d)) ds s = Some s'"
    and "ginv obs st ed s" and "ginv_ex obs st ed ex s" and "entry_ok st ed s cur"
    and "set ds \<subseteq> moves" and "\<And>d. 0 < cost d"
  shows "relax_post obs st ed ex s s'
    \<and> (\<forall>d \<in> set ds. in_box (nx cur + fst d) (ny cur + snd d) \<and> obs (nx cur + fst d) (ny cur + snd d) \<noteq> 1
        \<longrightarrow> cst s' (nx cur + fst d) (ny cur + snd d) \<noteq> 0)"
  using assms(1-5)
proof (induction ds arbitrary: s)
  case Nil
  then show ?case by (simp add: relax_post_def)
next
  case (Cons d ds)
  then obtain t where t: "relax obs junk (fst ed) (snd ed) cur d (cost d) s = Some t"
    "for_list (\<lambda>d. relax obs junk (fst ed) (snd ed) cur d (cost d)) ds t = Some s'"
    by (auto split: option.splits)
  have d: "d \<in> moves" "set ds \<subseteq> moves" using Cons.prems(5) by simp_all
  note r = relax_step[OF Cons.prems(2-4) d(1) assms(6) t(1)]
  then have post: "relax_post obs st ed ex s t" by blast
  then have inv: "ginv obs st ed t" "ginv_ex obs st ed ex t" "entry_ok st ed t cur"
    using improves_entry[OF _ Cons.prems(4), of t] by (simp_all add: relax_post_def)
  note IH = Cons.IH[OF t(2) inv d(2)]
  then have "improves t s'" by (simp add: relax_post_def)
  then show ?case using IH r relax_post_trans[OF post] by (fastforce simp: improves_def)
qed

lemma dirs_moves: "set dir0 \<subseteq> moves" "set dir1 \<subseteq> moves" "set dir2 \<subseteq> moves" "set dir3 \<subseteq> moves"
  by (auto simp: moves_def)

lemma relax_guarded:
  assumes "(if c then for_list (\<lambda>d. relax obs junk (fst ed) (snd ed) cur d k) ds s else Some s) = Some s'"
    and "ginv obs st ed s" and "ginv_ex obs st ed ex s" and "entry_ok st ed s cur"
    and "set ds \<subseteq> moves" and "0 < k"
  shows "relax_post obs st ed ex s s'"
proof (cases c)
  case True
  then show ?thesis using relax_list[of obs junk ed cur "\<lambda>_. k" ds s s' st ex] assms by simp
next
  case False
  then show ?thesis using assms by (simp add: relax_post_def)
qed

lemma relax_post_inv:
  assumes "relax_post obs st ed ex s t" and "entry_ok st ed s cur"
  shows "ginv obs st ed t" "ginv_ex obs st ed ex t" "entry_ok st ed t cur"
  using assms improves_entry[OF _ assms(2), of t] by (simp_all add: relax_post_def)

lemma expand_step:
  assumes r: "expand obs junk (fst ed) (snd ed) cur s = Some s'"
    and inv: "ginv obs st ed s" "ginv_ex obs st ed ex s" "entry_ok st ed s cur"
  shows "relax_post obs st ed ex s s' \<and> closed_at obs s' (nx cur) (ny cur)"
proof -
  from r obtain s0 s1 s2 where
    e0: "expand0 obs junk (fst ed) (snd ed) cur s = Some s0" and
    e1: "expand1 obs junk (fst ed) (snd ed) cur s0 = Some s1" and
    e2: "expand2 obs junk (fst ed) (snd ed) cur s1 = Some s2" and
    e3: "expand3 obs junk (fst ed) (snd ed) cur s2 = Some s'"
    by (auto simp: expand_def split: Option.bind_splits)
  have "relax_post obs st ed ex s s0 \<and> (\<forall>d \<in> set dir0. in_box (nx cur + fst d) (ny cur + snd d)
      \<and> obs (nx cur + fst d) (ny cur + snd d) \<noteq> 1 \<longrightarrow> cst s0 (nx cur + fst d) (ny cur + snd d) \<noteq> 0)"
    by (rule relax_list[OF e0[unfolded expand0_def] inv dirs_moves(1)]) simp
  then have r0: "relax_post obs st ed ex s s0" and cl: "closed_at obs s0 (nx cur) (ny cur)"
    by (auto simp: closed_at_def)
  note i0 = relax_post_inv[OF r0 inv(3)]
  have r1: "relax_post obs st ed ex s0 s1"
    by (rule relax_guarded[OF e1[unfolded expand1_def] i0 dirs_moves(2)]) simp
  note i1 = relax_post_inv[OF r1 i0(3)]
  have r2: "relax_post obs st ed ex s1 s2"
    by (rule relax_guarded[OF e2[unfolded expand2_def] i1 dirs_moves(3)]) simp
  note i2 = relax_post_inv[OF r2 i1(3)]
  have r3: "relax_post obs st ed ex s2 s'"
    by (rule relax_guarded[OF e3[unfolded expand3_def] i2 dirs_moves(4)]) simp
  note r03 = relax_post_trans[OF relax_post_trans[OF r1 r2] r3]
  have "closed_at obs s' (nx cur) (ny cur)"
    using improves_closed[OF _ cl] r03 by (simp add: relax_post_def)
  then show ?thesis using relax_post_trans[OF r0 r03] by blast
qed

section \<open>The loop\<close>

definition loop_inv :: "int arr2 \<Rightarrow> cell \<Rightarrow> cell \<Rightarrow> search \<times> bool \<Rightarrow> bool" where
  "loop_inv obs st ed p \<longleftrightarrow> ginv obs st ed (fst p)
     \<and> (if snd p then in_box (fst ed) (snd ed) \<and> visited st (fst p) (fst ed) (snd ed)
        else ginv_ex obs st ed {} (fst p))"

definition loop_rel :: "((search \<times> bool) \<times> (search \<times> bool)) set" where
  "loop_rel = inv_image (less_than <*lex*> less_than <*lex*> less_than)
     (\<lambda>p. (unseen (fst p), total (fst p), nat (sz (opn (fst p)))))"

lemma wf_loop_rel: "wf loop_rel"
  unfolding loop_rel_def by auto

lemma unseen_cong: "cst s' = cst s \<Longrightarrow> unseen s' = unseen s \<and> total s' = total s"
  by (simp add: unseen_def total_def)

lemma pop_inv_search:
  assumes inv: "ginv obs st ed s" "ginv_ex obs st ed {} s" and ne: "sz (opn s) \<noteq> 0"
    and p: "pop (opn s) = Some (cur, q)"
  shows "ginv obs st ed (s\<lparr>opn := q\<rparr>)" and "ginv_ex obs st ed {(nx cur, ny cur)} (s\<lparr>opn := q\<rparr>)"
    and "entry_ok st ed (s\<lparr>opn := q\<rparr>) cur" and "sz q < sz (opn s)" and "0 \<le> sz q"
proof -
  have i: "pq_inv (opn s)" using inv(1) by (simp add: ginv_def)
  then have "0 < sz (opn s)" using ne by (simp add: pq_inv_def)
  then have "pq_bag (opn s) \<noteq> {#}" by (simp add: pq_bag_def arr_bag_empty)
  note d = open_list.delD[OF i this p]
  have cong: "entry_ok st ed (s\<lparr>opn := q\<rparr>) e = entry_ok st ed s e"
    "cell_ok obs st ed (s\<lparr>opn := q\<rparr>) x y = cell_ok obs st ed s x y"
    "visited st (s\<lparr>opn := q\<rparr>) x y = visited st s x y"
    "closed_at obs (s\<lparr>opn := q\<rparr>) x y = closed_at obs s x y" for e x y
    by (simp_all add: entry_ok_def cell_ok_def visited_def gval_def closed_at_def)
  show "ginv obs st ed (s\<lparr>opn := q\<rparr>)" "entry_ok st ed (s\<lparr>opn := q\<rparr>) cur"
    using inv(1) d by (simp_all add: ginv_def cong)
  have pend: "pending s x y \<Longrightarrow> (x, y) \<noteq> (nx cur, ny cur) \<Longrightarrow> pending (s\<lparr>opn := q\<rparr>) x y" for x y
    using d(2) by (auto simp: pending_def)
  show "ginv_ex obs st ed {(nx cur, ny cur)} (s\<lparr>opn := q\<rparr>)"
    unfolding ginv_ex_def cong using inv(2) pend unfolding ginv_ex_def by blast
  have "nat (sz (opn s)) = nat (sz q) + 1" using arg_cong[OF d(2), of size] by (simp add: pq_bag_def)
  moreover show "0 \<le> sz q" using d(1) by (simp add: pq_inv_def)
  ultimately show "sz q < sz (opn s)" by linarith
qed

lemma astar_step_inv:
  assumes inv: "loop_inv obs st ed p" and go: "\<not> snd p" "sz (opn (fst p)) \<noteq> 0"
    and r: "astar_step obs junk (fst ed) (snd ed) p = Some p'"
  shows "loop_inv obs st ed p' \<and> (p', p) \<in> loop_rel"
proof -
  let ?s = "fst p"
  from r obtain cur q where pop: "pop (opn ?s) = Some (cur, q)"
    by (auto simp: astar_step_def split: option.splits)
  let ?s' = "?s\<lparr>opn := q\<rparr>"
  have i: "ginv obs st ed ?s" "ginv_ex obs st ed {} ?s" using inv go(1) by (simp_all add: loop_inv_def)
  note pq = pop_inv_search[OF i go(2) pop]
  have same: "unseen ?s' = unseen ?s" "total ?s' = total ?s" using unseen_cong[of ?s' ?s] by simp_all
  have drop: "nat (sz q) < nat (sz (opn ?s))" using pq(4,5) by simp
  show ?thesis
  proof (cases "nx cur = fst ed \<and> ny cur = snd ed")
    case True
    then have "p' = (?s', True)" using r pop by (simp add: astar_step_def Let_def)
    moreover have "in_box (fst ed) (snd ed)" "visited st ?s' (fst ed) (snd ed)"
      using pq(3) True by (auto simp: entry_ok_def)
    ultimately show ?thesis using pq(1) drop same by (simp add: loop_inv_def loop_rel_def)
  next
    case False
    then obtain t where t: "expand obs junk (fst ed) (snd ed) cur ?s' = Some t" "p' = (t, False)"
      using r pop by (auto simp: astar_step_def Let_def)
    have e: "relax_post obs st ed {(nx cur, ny cur)} ?s' t" "closed_at obs t (nx cur) (ny cur)"
      using expand_step[OF t(1) pq(1-3)] by simp_all
    have ed: "ed \<noteq> (nx cur, ny cur)" using False by auto
    have "ginv_ex obs st ed {} t" using e ed unfolding relax_post_def ginv_ex_def by blast
    then have "loop_inv obs st ed p'" using e(1) t(2) by (simp add: loop_inv_def relax_post_def)
    moreover have "(p', p) \<in> loop_rel"
    proof (cases "t = ?s'")
      case True
      then show ?thesis using t(2) same drop by (simp add: loop_rel_def)
    next
      case False
      then have "(t, ?s') \<in> cost_rel" using e(1) by (simp add: relax_post_def)
      then show ?thesis using t(2) same by (auto simp: loop_rel_def cost_rel_def)
    qed
    ultimately show ?thesis by blast
  qed
qed

lemma astar_loop_result:
  assumes "ginv obs st ed s" and "ginv_ex obs st ed {} s"
  shows "astar_loop obs junk (fst ed) (snd ed) s = Some None
    \<or> (\<exists>t found. astar_loop obs junk (fst ed) (snd ed) s = Some (Some (t, found))
        \<and> loop_inv obs st ed (t, found) \<and> (\<not> found \<longrightarrow> pq_bag (opn t) = {#}))"
proof -
  have "astar_loop obs junk (fst ed) (snd ed) s = Some None
    \<or> (\<exists>p. astar_loop obs junk (fst ed) (snd ed) s = Some (Some p) \<and> loop_inv obs st ed p
        \<and> \<not> (case p of (s, found) \<Rightarrow> \<not> found \<and> sz (opn s) \<noteq> 0))"
    unfolding astar_loop_def
  proof (rule while_ub_wf[OF wf_loop_rel])
    show "loop_inv obs st ed (s, False)" using assms by (simp add: loop_inv_def)
    show "loop_inv obs st ed t \<and> (t, p) \<in> loop_rel"
      if "loop_inv obs st ed p" "case p of (s, found) \<Rightarrow> \<not> found \<and> sz (opn s) \<noteq> 0"
        "astar_step obs junk (fst ed) (snd ed) p = Some t" for p t
      using that astar_step_inv[of obs st ed p junk t] by (cases p) simp
  qed
  then show ?thesis by (auto simp: pq_bag_def arr_bag_def)
qed

section \<open>Start and walk back\<close>

lemma astar_start_inv:
  assumes "in_box stx sty" and "astar_start h stx sty edx edy = Some s"
  shows "ginv obs (stx, sty) (edx, edy) s" and "ginv_ex obs (stx, sty) (edx, edy) {} s"
proof -
  have u: "u8 stx = stx" "u8 sty = sty" using assms(1) by (simp_all add: in_box_def ww_def hh_def u8_id)
  obtain d q where d: "calc_dis stx sty edx edy = Some d"
    and q: "push \<lparr>nx = stx, ny = sty, nF = d, nG = 0, nH = d\<rparr> (pq_empty h) = Some q"
    and s: "s = \<lparr>opn = q, fax = \<lambda>_ _. 0, fay = \<lambda>_ _. 0, cst = \<lambda>_ _. 0\<rparr>"
    using assms(2) u by (auto simp: astar_start_def pq_empty_def split: Option.bind_splits)
  note i = open_list.insD[OF pq_empty_props(1) q]
  show "ginv obs (stx, sty) (edx, edy) s"
    using i assms(1) d by (simp add: ginv_def s entry_ok_def visited_def gval_def)
  show "ginv_ex obs (stx, sty) (edx, edy) {} s"
    using i by (simp add: ginv_ex_def s visited_def pending_def)
qed

definition route :: "walk \<Rightarrow> cell list" where
  "route w = map (\<lambda>i. (roux w i, rouy w i)) [0..rnum w - 1]"

text \<open>\<open>a\<close> is a free cell of the box, one move away from \<open>b\<close>.\<close>

definition legal_step :: "int arr2 \<Rightarrow> cell \<Rightarrow> cell \<Rightarrow> bool" where
  "legal_step obs a b \<longleftrightarrow> in_box (fst a) (snd a) \<and> obs (fst a) (snd a) \<noteq> 1
     \<and> (fst a - fst b, snd a - snd b) \<in> moves"

abbreviation wcell :: "walk \<Rightarrow> int \<Rightarrow> cell" where
  "wcell w i \<equiv> (roux w i, rouy w i)"

definition walk_inv :: "int arr2 \<Rightarrow> cell \<Rightarrow> cell \<Rightarrow> search \<Rightarrow> walk \<Rightarrow> bool" where
  "walk_inv obs st ed s w \<longleftrightarrow> 0 \<le> rnum w \<and> rnum w \<le> pieces
     \<and> (\<forall>i. 0 \<le> i \<and> i + 1 < rnum w \<longrightarrow> legal_step obs (wcell w i) (wcell w (i + 1)))
     \<and> (0 < rnum w \<longrightarrow> wcell w 0 = ed)
     \<and> (if wend w then 0 < rnum w \<and> wcell w (rnum w - 1) = st
        else in_box (wx w) (wy w) \<and> visited st s (wx w) (wy w)
          \<and> (if rnum w = 0 then (wx w, wy w) = ed
             else legal_step obs (wcell w (rnum w - 1)) (wx w, wy w)))"

definition walk_measure :: "cell \<Rightarrow> cell \<Rightarrow> search \<Rightarrow> walk \<Rightarrow> nat" where
  "walk_measure st ed s w = (if wend w then 0 else Suc (nat (gval st ed s (wx w) (wy w))))"

lemma walk_step_inv:
  assumes s: "ginv obs st ed s" and st: "in_box (fst st) (snd st)"
    and inv: "walk_inv obs st ed s w" and go: "\<not> wend w"
    and r: "walk_step s (fst st) (snd st) w = Some w'"
  shows "walk_inv obs st ed s w' \<and> walk_measure st ed s w' < walk_measure st ed s w"
proof -
  let ?n = "rnum w" and ?u = "w\<lparr>roux := (roux w)(rnum w := wx w), rouy := (rouy w)(rnum w := wy w), rnum := rnum w + 1\<rparr>"
  from r have n: "0 \<le> ?n" "?n < pieces" by (auto simp: walk_step_def c_dest split: Option.bind_splits)
  have chain: "legal_step obs (wcell ?u i) (wcell ?u (i + 1))" if "0 \<le> i" "i + 1 < ?n + 1" for i
  proof (cases "i + 1 = ?n")
    case True
    then have "i = ?n - 1" "?n \<noteq> 0" using that by simp_all
    then show ?thesis using inv go by (simp add: walk_inv_def)
  qed (use inv that in \<open>auto simp: walk_inv_def\<close>)
  have first: "wcell ?u 0 = ed" using inv go n(1) by (cases "?n = 0") (auto simp: walk_inv_def)
  show ?thesis
  proof (cases "(wx w, wy w) = st")
    case True
    then have "w' = ?u\<lparr>wend := True\<rparr>" using r n by (auto simp: walk_step_def c_simps Let_def)
    then show ?thesis using chain first n True go
      by (simp add: walk_inv_def walk_measure_def)
  next
    case False
    have v: "visited st s (wx w) (wy w)" "in_box (wx w) (wy w)" using inv go by (simp_all add: walk_inv_def)
    then have idx: "0 \<le> wx w" "wx w < NN" "0 \<le> wy w" "wy w < MM"
      by (simp_all add: in_box_def ww_def hh_def NN_def MM_def)
    have "\<not> (wx w = fst st \<and> wy w = snd st)" using False by (auto simp: prod_eq_iff)
    then have w': "w' = ?u\<lparr>wx := fax s (wx w) (wy w), wy := fay s (wx w) (wy w)\<rparr>"
      using r n idx by (auto simp: walk_step_def c_simps Let_def)
    have "cst s (wx w) (wy w) \<noteq> 0" using v(1) False by (simp add: visited_def)
    then have ok: "cell_ok obs st ed s (wx w) (wy w)" using s by (simp add: ginv_def)
    let ?p = "fax s (wx w) (wy w)" and ?q = "fay s (wx w) (wy w)"
    have leg: "legal_step obs (wx w, wy w) (?p, ?q)" and vp: "visited st s ?p ?q"
      using ok by (simp_all add: cell_ok_def legal_step_def)
    have pbox: "in_box ?p ?q"
    proof (cases "(?p, ?q) = st")
      case True
      then show ?thesis using st by auto
    next
      case False
      then have "cell_ok obs st ed s ?p ?q" using vp s by (simp add: visited_def ginv_def)
      then show ?thesis by (simp add: cell_ok_def)
    qed
    have "gval st ed s ?p ?q < gval st ed s (wx w) (wy w)" "0 < gval st ed s (wx w) (wy w)"
      using ok False by (auto simp: cell_ok_def gval_def)
    then have "walk_measure st ed s w' < walk_measure st ed s w"
      using go by (simp add: walk_measure_def w')
    moreover have "walk_inv obs st ed s w'"
      using chain first n go leg vp pbox by (simp add: walk_inv_def w')
    ultimately show ?thesis by blast
  qed
qed

lemma walk_back_result:
  assumes s: "ginv obs st ed s" and st: "in_box (fst st) (snd st)"
    and ed: "in_box (fst ed) (snd ed)" "visited st s (fst ed) (snd ed)"
  shows "walk_back s (fst st) (snd st) (fst ed) (snd ed) = Some None
    \<or> (\<exists>w. walk_back s (fst st) (snd st) (fst ed) (snd ed) = Some (Some w)
        \<and> walk_inv obs st ed s w \<and> wend w)"
proof -
  have "walk_back s (fst st) (snd st) (fst ed) (snd ed) = Some None
    \<or> (\<exists>w. walk_back s (fst st) (snd st) (fst ed) (snd ed) = Some (Some w)
        \<and> walk_inv obs st ed s w \<and> \<not> \<not> wend w)"
    unfolding walk_back_def
  proof (rule while_ub_wf[OF wf_measure[of "walk_measure st ed s"]])
    show "walk_inv obs st ed s
        \<lparr>roux = \<lambda>_. 0, rouy = \<lambda>_. 0, rnum = 0, wx = fst ed, wy = snd ed, wend = False\<rparr>"
      using ed by (auto simp: walk_inv_def pieces_def)
    show "walk_inv obs st ed s t \<and> (t, w) \<in> measure (walk_measure st ed s)"
      if "walk_inv obs st ed s w" "\<not> wend w" "walk_step s (fst st) (snd st) w = Some t" for w t
      using walk_step_inv[OF s st that] by simp
  qed
  then show ?thesis by simp
qed

section \<open>The search as a whole\<close>

text \<open>The cells that unit moves reach from \<open>st\<close> through free cells of the box.\<close>

inductive reach0 :: "int arr2 \<Rightarrow> cell \<Rightarrow> cell \<Rightarrow> bool" for obs st where
  reach0_start: "reach0 obs st st"
| reach0_move: "reach0 obs st c \<Longrightarrow> d \<in> set dir0 \<Longrightarrow> in_box (fst c + fst d) (snd c + snd d) \<Longrightarrow>
    obs (fst c + fst d) (snd c + snd d) \<noteq> 1 \<Longrightarrow> reach0 obs st (fst c + fst d, snd c + snd d)"

lemma exhausted_unreachable:
  assumes "ginv_ex obs st ed {} s" and "pq_bag (opn s) = {#}"
  shows "\<not> reach0 obs st ed"
proof -
  have all: "closed_at obs s x y \<and> (x, y) \<noteq> ed" if "visited st s x y" for x y
    using assms that by (auto simp: ginv_ex_def pending_def)
  have "visited st s (fst c) (snd c)" if "reach0 obs st c" for c
    using that
  proof induction
    case reach0_start
    then show ?case by (simp add: visited_def)
  next
    case (reach0_move c d)
    then show ?case using all[of "fst c" "snd c"] by (simp add: closed_at_def visited_def)
  qed
  then show ?thesis using all by fastforce
qed

definition route_ok :: "int arr2 \<Rightarrow> cell \<Rightarrow> cell \<Rightarrow> walk \<Rightarrow> bool" where
  "route_ok obs st ed w \<longleftrightarrow> 0 < rnum w \<and> rnum w \<le> pieces
     \<and> hd (route w) = ed \<and> last (route w) = st \<and> successively (legal_step obs) (route w)"

lemma walk_inv_route:
  assumes "walk_inv obs st ed s w" and "wend w"
  shows "route_ok obs st ed w"
proof -
  have n: "0 < rnum w" using assms by (simp add: walk_inv_def)
  then have ne: "route w \<noteq> []" by (simp add: route_def)
  have len: "length (route w) = nat (rnum w)" by (simp add: route_def)
  have nth: "route w ! k = wcell w (int k)" if "k < nat (rnum w)" for k
    using that by (simp add: route_def)
  have "successively (legal_step obs) (route w)"
    unfolding successively_conv_nth len
  proof (intro allI impI)
    fix k assume k: "Suc k < nat (rnum w)"
    then have "legal_step obs (wcell w (int k)) (wcell w (int k + 1))"
      using assms(1) by (simp add: walk_inv_def)
    then show "legal_step obs (route w ! k) (route w ! Suc k)"
      using k nth[of k] nth[of "Suc k"] by (simp add: add.commute)
  qed
  moreover have "last (route w) = wcell w (rnum w - 1)"
    using n ne nth[of "nat (rnum w) - 1"] by (simp add: last_conv_nth len of_nat_diff)
  moreover have "hd (route w) = wcell w 0" using n ne nth[of 0] by (simp add: hd_conv_nth)
  ultimately show ?thesis using assms by (simp add: route_ok_def walk_inv_def)
qed

lemma astar_route_result:
  assumes "in_box stx sty"
  shows "astar_route obs junk h stx sty edx edy = Some None
    \<or> (\<exists>w. astar_route obs junk h stx sty edx edy = Some (Some (True, w))
        \<and> route_ok obs (stx, sty) (edx, edy) w)
    \<or> (\<exists>w. astar_route obs junk h stx sty edx edy = Some (Some (False, w))
        \<and> rnum w = 0 \<and> \<not> reach0 obs (stx, sty) (edx, edy))"
proof (cases "astar_start h stx sty edx edy")
  case None
  then show ?thesis by (simp add: astar_route_def)
next
  case (Some s)
  note i = astar_start_inv[OF assms Some, of obs]
  let ?L = "astar_loop obs junk edx edy s"
  from astar_loop_result[OF i, of junk] consider "?L = Some None"
    | t where "?L = Some (Some (t, True))" "loop_inv obs (stx, sty) (edx, edy) (t, True)"
    | t where "?L = Some (Some (t, False))" "loop_inv obs (stx, sty) (edx, edy) (t, False)"
        "pq_bag (opn t) = {#}"
    by (auto split: bool.splits) (metis (full_types))+
  then show ?thesis
  proof cases
    case 1
    then show ?thesis using Some by (simp add: astar_route_def)
  next
    case 2
    then have "ginv obs (stx, sty) (edx, edy) t" "in_box edx edy" "visited (stx, sty) t edx edy"
      by (simp_all add: loop_inv_def)
    from walk_back_result[OF this(1)] this(2,3) assms
    show ?thesis using 2(1) Some walk_inv_route by (auto simp: astar_route_def)
  next
    case 3
    then have "\<not> reach0 obs (stx, sty) (edx, edy)"
      using exhausted_unreachable[of obs "(stx, sty)" "(edx, edy)" t] by (simp add: loop_inv_def)
    then show ?thesis using 3(1) Some by (simp add: astar_route_def)
  qed
qed

section \<open>Properties\<close>


definition node0 :: nodee where
  "node0 = \<lparr>nx = 0, ny = 0, nF = 0, nG = 0, nH = 0\<rparr>"


text \<open>
  C2. The cells \<open>roux\<close>, \<open>rouy\<close> of a successful search run from the target back to the start;
  they fit the arrays, every one but the start is a free cell inside the box, and neighbouring
  ones differ by one of the 32 moves of the tables.
\<close>

theorem astar_route_sound:
  assumes "in_box stx sty" and "astar_route obs junk h stx sty edx edy = Some (Some (True, w))"
  shows "0 < rnum w \<and> rnum w \<le> pieces \<and> hd (route w) = (edx, edy) \<and> last (route w) = (stx, sty)
    \<and> successively (legal_step obs) (route w)"
  using astar_route_result[OF assms(1), of obs junk h edx edy] assms(2) by (auto simp: route_ok_def)

lemma astar_route_sound_witness:
  "\<exists>w. astar_route (\<lambda>x y. if x < 5 then 1 else 0) (\<lambda>_. 0) (\<lambda>_. node0) 5 5 5 6 = Some (Some (True, w))
     \<and> rnum w = 2 \<and> hd (route w) = (5, 6) \<and> last (route w) = (5, 5)"
proof -
  have "map_option (map_option (\<lambda>(f, w). (f, rnum w)))
      (astar_route (\<lambda>x y. if x < 5 then 1 else 0) (\<lambda>_. 0) (\<lambda>_. node0) 5 5 5 6) = Some (Some (True, 2))"
    by code_simp
  then obtain w where
    "astar_route (\<lambda>x y. if x < 5 then 1 else 0) (\<lambda>_. 0) (\<lambda>_. node0) 5 5 5 6 = Some (Some (True, w))"
    "rnum w = 2" by auto
  then show ?thesis using astar_route_sound[of 5 5 "\<lambda>x y. if x < 5 then 1 else 0" "\<lambda>_. 0" "\<lambda>_. node0" 5 6 w]
    by (simp add: in_box_def ww_def hh_def)
qed

text \<open>
  C3. A search that empties the open list without popping the target proves that there is no
  way: the target cannot be reached from the start by unit moves through free cells.
\<close>

theorem astar_route_complete:
  assumes "in_box stx sty" and "astar_route obs junk h stx sty edx edy = Some (Some (False, w))"
  shows "rnum w = 0 \<and> \<not> reach0 obs (stx, sty) (edx, edy)"
  using astar_route_result[OF assms(1), of obs junk h edx edy] assms(2) by auto

lemma astar_route_complete_witness:
  "\<exists>w. astar_route (\<lambda>_ _. 1) (\<lambda>_. 1) (\<lambda>_. node0) 5 5 6 6 = Some (Some (False, w))
     \<and> rnum w = 0 \<and> \<not> reach0 (\<lambda>_ _. 1) (5, 5) (6, 6)"
proof -
  have "map_option (map_option (\<lambda>(f, w). (f, rnum w)))
      (astar_route (\<lambda>_ _. 1) (\<lambda>_. 1) (\<lambda>_. node0) 5 5 6 6) = Some (Some (False, 0))"
    by code_simp
  then obtain w where "astar_route (\<lambda>_ _. 1) (\<lambda>_. 1) (\<lambda>_. node0) 5 5 6 6 = Some (Some (False, w))" by auto
  then show ?thesis using astar_route_complete[of 5 5 "\<lambda>_ _. 1" "\<lambda>_. 1" "\<lambda>_. node0" 6 6 w]
    by (simp add: in_box_def ww_def hh_def)
qed

text \<open>A rectangle of cells.\<close>

definition in_card :: "cell \<Rightarrow> int \<Rightarrow> int \<Rightarrow> bool" where
  "in_card p x y \<longleftrightarrow> 2 * fst p + 1 \<le> x \<and> x \<le> 2 * fst p + 4 \<and> 2 * snd p + 1 \<le> y \<and> y \<le> 2 * snd p + 4"

lemma block_card_obs:
  assumes "1 \<le> fst p" "fst p \<le> 37" "1 \<le> snd p" "snd p \<le> 27"
  shows "\<exists>obs'. block_card p obs = Some obs' \<and> (\<forall>x y. obs' x y = (if in_card p x y then 1 else obs x y))"
proof -
  let ?x = "fst p * 2 - 1 + 3" and ?y = "snd p * 2 - 1 + 3"
  let ?I = "\<lambda>xx o'. \<forall>x y. o' x y = (if in_card p x y \<and> x < xx then 1 else obs x y)"
  have inner: "\<exists>v. for_up (?y - 1) (?y + 3) (\<lambda>yy obs. wr2 NN MM obs xx yy 1) u = Some v \<and> ?I (xx + 1) v"
    if xx: "?x - 1 \<le> xx" "xx < ?x + 3" and u: "?I xx u" for xx u
  proof -
    let ?J = "\<lambda>yy v. \<forall>x y. v x y = (if x = xx \<and> ?y - 1 \<le> y \<and> y < yy then 1 else u x y)"
    have "\<exists>v. for_up (?y - 1) (?y + 3) (\<lambda>yy obs. wr2 NN MM obs xx yy 1) u = Some v \<and> ?J (?y + 3) v"
    proof (rule for_up_total)
      fix yy v assume "?y - 1 \<le> yy" "yy < ?y + 3" "?J yy v"
      then show "\<exists>t. wr2 NN MM v xx yy 1 = Some t \<and> ?J (yy + 1) t"
        using xx assms by (auto simp: wr2_def NN_def MM_def)
    qed auto
    then show ?thesis using u xx by (auto simp: in_card_def)
  qed
  have "\<exists>o'. block_card p obs = Some o' \<and> ?I (?x + 3) o'"
    unfolding block_card_def Let_def
    by (rule for_up_total) (use inner in \<open>auto simp: in_card_def\<close>)
  then show ?thesis by (auto simp: in_card_def)
qed

lemma block_cards_obs:
  assumes "\<forall>p \<in> set ps. 1 \<le> fst p \<and> fst p \<le> 37 \<and> 1 \<le> snd p \<and> snd p \<le> 27"
  shows "\<exists>o'. for_list block_card ps obs = Some o'
      \<and> (\<forall>x y. o' x y = (if \<exists>p \<in> set ps. in_card p x y then 1 else obs x y))"
  using assms
proof (induction ps arbitrary: obs)
  case (Cons p ps)
  then obtain o1 where o1: "block_card p obs = Some o1"
    "\<forall>x y. o1 x y = (if in_card p x y then 1 else obs x y)"
    using block_card_obs[of p obs] by auto
  then show ?case using Cons.IH[of o1] Cons.prems by fastforce
qed simp

text \<open>
  C6. For cards whose cells fit the array, \<open>astar_init\<close> is defined and marks exactly the four
  by four squares of the cards, with the four cells of the parking place left free.
\<close>

theorem astar_init_obstacles:
  assumes "\<forall>p \<in> set pos_int. 1 \<le> fst p \<and> fst p \<le> 37 \<and> 1 \<le> snd p \<and> snd p \<le> 27"
  shows "\<exists>obs. astar_init pos_int = Some obs
    \<and> (\<forall>x y. obs x y = (if x \<in> {4, 5} \<and> y \<in> {4, 5} then 0
         else if \<exists>p \<in> set pos_int. in_card p x y then 1 else 0))"
proof -
  obtain o' where "for_list block_card pos_int (\<lambda>_ _. 0) = Some o'"
    "\<forall>x y. o' x y = (if \<exists>p \<in> set pos_int. in_card p x y then 1 else 0)"
    using block_cards_obs[OF assms, of "\<lambda>_ _. 0"] by blast
  then show ?thesis by (auto simp: astar_init_def wr2_def NN_def MM_def)
qed

lemma astar_init_obstacles_witness:
  "\<exists>obs. astar_init [(2, 2), (30, 20)] = Some obs \<and> obs 6 6 = 1 \<and> obs 5 5 = 0 \<and> obs 61 44 = 1 \<and> obs 60 44 = 0"
  using astar_init_obstacles[of "[(2, 2), (30, 20)]"] by (auto simp: in_card_def)

end
