(* ===== verification/Ant_Colony.thy ===== *)
theory Ant_Colony
  imports Geometry "HOL-Library.Multiset"
begin

text \<open>
  The ant colony of \<^verbatim>\<open>CODE/aco.c\<close>: the distance tables (\<open>init_tag\<close>), the random numbers
  (\<open>randn\<close>, \<open>shuffle\<close>), the construction of the routes, and the optimiser \<open>ant\<close> with its
  older version \<open>ant_ori\<close>, which nothing calls.

  \<open>rand\<close> is a stream of numbers with the position of the next one in the state; \<open>pow\<close> is a
  parameter. The scratch arrays \<open>vis\<close>, \<open>unvis\<close>, \<open>been\<close>, \<open>P\<close> and \<open>len\<close> are cleared at the start
  of each use and are locals here. \<^const>\<open>None\<close> is undefined behaviour; in \<open>shuffle\<close> also a
  probe that never ends, which the theorem about \<open>shuffle\<close> excludes.
\<close>

definition NP :: int where "NP = 30"
definition ant_max :: int where "ant_max = 52"
definition iter_max :: int where "iter_max = 103"

record colony =
  cities :: int
  dis :: "int arr2"
  idis :: "f32 arr2"
  pher :: "f32 arr2"
  delta_pher :: "f32 arr2"
  routes :: "int arr2"
  len_best :: "int arr"
  path_best :: "int arr2"
  best :: "int arr2"
  px :: "int arr"
  py :: "int arr"
  clas :: "int arr"
  tmp_xy :: "int \<times> int"
  seed :: nat

definition chkmin :: "int \<Rightarrow> int \<Rightarrow> int \<times> bool" where
  "chkmin x y = (if x > y then (y, True) else (x, False))"

section \<open>Random numbers\<close>

definition randn :: "(nat \<Rightarrow> int) \<Rightarrow> f64 \<Rightarrow> f64 \<Rightarrow> nat \<Rightarrow> f64 \<times> nat" where
  "randn rand x y k =
     (let par = 1 * d_of_int (crem (rand k) 1000) / d_of_int 1000
      in (par * (y - x) + x, k + 1))"

text \<open>\<open>while (vis[lst]) ++lst, lst %= n;\<close>\<close>

definition shuffle_probe :: "int \<Rightarrow> int arr \<Rightarrow> int \<Rightarrow> int option" where
  "shuffle_probe n vis lst =
     (case while_ub (\<lambda>p. fst p)
        (\<lambda>p. let l = crem (snd p + 1) n in map_option (\<lambda>v. (v \<noteq> 0, l)) (rd 13 vis l))
        (vis lst \<noteq> 0, lst)
      of Some (Some (_, l)) \<Rightarrow> Some l | _ \<Rightarrow> None)"

definition shuffle_step :: "(nat \<Rightarrow> int) \<Rightarrow> int \<Rightarrow> int arr \<Rightarrow> int \<Rightarrow>
    int arr \<times> int arr \<times> int \<times> nat \<Rightarrow> (int arr \<times> int arr \<times> int \<times> nat) option" where
  "shuffle_step rand n a t s =
     (let (tmp, vis, lst, k) = s;
          lst = crem (lst + crem (rand k) n) n
      in do {
        _ \<leftarrow> rd 13 vis lst;
        lst \<leftarrow> shuffle_probe n vis lst;
        tmp \<leftarrow> wr 13 tmp t (a lst);
        vis \<leftarrow> wr 13 vis lst 1;
        Some (tmp, vis, lst, k + 1)
      })"

definition shuffle :: "(nat \<Rightarrow> int) \<Rightarrow> int arr \<Rightarrow> int \<Rightarrow> nat \<Rightarrow> (int arr \<times> nat) option" where
  "shuffle rand a n k = do {
     (tmp, vis, lst, k) \<leftarrow> for_up 0 n (shuffle_step rand n a) (\<lambda>_. 0, \<lambda>_. 0, 0, k);
     a \<leftarrow> for_up 0 n (\<lambda>i a. do { v \<leftarrow> rd 13 tmp i; Some (a(i := v)) }) a;
     Some (a, k)
   }"

section \<open>Distance tables\<close>

definition ant_Q :: f64 where "ant_Q = lit 1"
definition ant_beta :: f64 where "ant_beta = lit 5"
definition ant_rho :: f64 where "ant_rho = lit 0.1"

definition rdp :: "int arr \<Rightarrow> int \<Rightarrow> int option" where "rdp a i = rd NP a i"

text \<open>\<open>calc_tag\<close> from card \<open>i\<close> to card \<open>j\<close>, with the globals \<open>tmpx\<close>, \<open>tmpy\<close>.\<close>

definition tag_dist :: "int \<Rightarrow> int \<Rightarrow> int \<Rightarrow> colony \<Rightarrow> (int \<times> colony) option" where
  "tag_dist i j tag s = do {
     xi \<leftarrow> rdp (px s) i; yi \<leftarrow> rdp (py s) i; xj \<leftarrow> rdp (px s) j; yj \<leftarrow> rdp (py s) j;
     (d, t) \<leftarrow> calc_tag xi yi xj yj tag (tmp_xy s);
     Some (d, s\<lparr>tmp_xy := t\<rparr>)
   }"

definition plain_dist :: "int \<Rightarrow> int \<Rightarrow> colony \<Rightarrow> (int \<times> colony) option" where
  "plain_dist i j s = do {
     xi \<leftarrow> rdp (px s) i; yi \<leftarrow> rdp (py s) i; xj \<leftarrow> rdp (px s) j; yj \<leftarrow> rdp (py s) j;
     d \<leftarrow> calc_dis xi yi xj yj;
     Some (d, s)
   }"

text \<open>The distance the three variants of \<open>init_tag\<close> enter for \<open>i \<noteq> j\<close>.\<close>

definition tag_entry :: "int \<Rightarrow> int \<Rightarrow> int \<Rightarrow> colony \<Rightarrow> (int \<times> colony) option" where
  "tag_entry tag i j s =
     (if tag = 0 then plain_dist i j s
      else if tag = 1 then
        (if i = cities s - 1 then plain_dist i j s
         else do {
           (a, s) \<leftarrow> tag_dist i j 0 s;
           (b, s) \<leftarrow> tag_dist i j 1 s;
           (c, s) \<leftarrow> tag_dist i j 2 s;
           Some (cdiv (a + b + c) 3, s)
         })
      else do { t \<leftarrow> rdp (clas s) i; tag_dist i j t s })"

definition init_cell :: "int \<Rightarrow> int \<Rightarrow> int \<Rightarrow> colony \<Rightarrow> colony option" where
  "init_cell tag i j s = do {
     s \<leftarrow> (if i = j then do {
             d \<leftarrow> wr2 NP NP (dis s) i j 0;
             e \<leftarrow> wr2 NP NP (idis s) i j (to_s (1 * d_of_int 0x3f3f3f3f));
             Some (s\<lparr>dis := d, idis := e\<rparr>)
           } else do {
             (v, s) \<leftarrow> tag_entry tag i j s;
             d \<leftarrow> wr2 NP NP (dis s) i j v;
             e \<leftarrow> wr2 NP NP (idis s) i j (to_s (lit 100 / d_of_int v));
             Some (s\<lparr>dis := d, idis := e\<rparr>)
           });
     p \<leftarrow> wr2 NP NP (pher s) i j (to_s (lit 1));
     Some (s\<lparr>pher := p\<rparr>)
   }"

definition pow_cell :: "(f64 \<Rightarrow> f64 \<Rightarrow> f64) \<Rightarrow> int \<Rightarrow> int \<Rightarrow> colony \<Rightarrow> colony option" where
  "pow_cell pow i j s = do {
     v \<leftarrow> rd2 NP NP (idis s) i j;
     e \<leftarrow> wr2 NP NP (idis s) i j (to_s (pow (to_d v) ant_beta));
     Some (s\<lparr>idis := e\<rparr>)
   }"

definition init_tag :: "(f64 \<Rightarrow> f64 \<Rightarrow> f64) \<Rightarrow> int \<Rightarrow> colony \<Rightarrow> colony option" where
  "init_tag pow tag s = do {
     s \<leftarrow> (if tag = 0 \<or> tag = 1 \<or> tag = 2
           then for_up 0 (cities s) (\<lambda>i s. for_up 0 (cities s) (\<lambda>j. init_cell tag i j) s) s
           else Some s);
     for_up 0 (cities s) (\<lambda>i s. for_up 0 (cities s) (\<lambda>j. pow_cell pow i j) s) s
   }"

section \<open>One move of one ant\<close>

definition seen_cities :: "colony \<Rightarrow> int \<Rightarrow> int \<Rightarrow> int arr option" where
  "seen_cities s i j =
     for_up 0 j (\<lambda>k been. do { c \<leftarrow> rd2 ant_max NP (routes s) i k; wr NP been c 1 }) (\<lambda>_. 0)"

definition open_cities :: "int \<Rightarrow> int arr \<Rightarrow> (int arr \<times> int) option" where
  "open_cities n been =
     for_up 0 n (\<lambda>k (u, c). do {
         b \<leftarrow> rd NP been k;
         if b = 0 then do { u \<leftarrow> wr NP u c k; Some (u, c + 1) } else Some (u, c)
       }) (\<lambda>_. 0, 0)"

text \<open>The weights \<open>P\<close> and their sum; \<open>weight\<close> is \<open>pher * idis\<close> in \<open>ant\<close>.\<close>

definition weigh :: "(f32 \<Rightarrow> f32 \<Rightarrow> f64) \<Rightarrow> colony \<Rightarrow> int \<Rightarrow> int arr \<Rightarrow> int \<Rightarrow> (f64 arr \<times> f64) option" where
  "weigh weight s lst unvis cnt =
     for_up 0 cnt (\<lambda>k (P, Psum). do {
         c \<leftarrow> rd NP unvis k;
         a \<leftarrow> rd2 NP NP (pher s) lst c;
         b \<leftarrow> rd2 NP NP (idis s) lst c;
         P \<leftarrow> wr NP P k (weight a b);
         Some (P, Psum + weight a b)
       }) (\<lambda>_. 0, 0)"

definition pick :: "int \<Rightarrow> int \<Rightarrow> int arr \<Rightarrow> int \<Rightarrow> f64 arr \<Rightarrow> f64 \<Rightarrow> int arr2 \<Rightarrow> (int arr2 \<times> f64) option" where
  "pick i j unvis cnt P rate rts =
     for_brk 0 cnt (\<lambda>k (r, cur). do {
         p \<leftarrow> rd NP P k;
         let cur = cur + p;
         if cur > rate then do {
           c \<leftarrow> rd NP unvis k;
           r \<leftarrow> wr2 ant_max NP r i j c;
           Some (Break (r, cur))
         } else Some (Next (r, cur))
       }) (rts, 0)"

definition ant_move :: "(f32 \<Rightarrow> f32 \<Rightarrow> f64) \<Rightarrow> (nat \<Rightarrow> int) \<Rightarrow> int \<Rightarrow> int \<Rightarrow> colony \<Rightarrow> colony option" where
  "ant_move weight rand j i s = do {
     been \<leftarrow> seen_cities s i j;
     (unvis, cnt) \<leftarrow> open_cities (cities s) been;
     lst \<leftarrow> rd2 ant_max NP (routes s) i (j - 1);
     (P, Psum) \<leftarrow> weigh weight s lst unvis cnt;
     let (rate, k) = randn rand 0 Psum (seed s);
     (r, cur) \<leftarrow> pick i j unvis cnt P rate (routes s);
     Some (s\<lparr>routes := r, seed := k\<rparr>)
   }"

section \<open>One iteration\<close>

text \<open>The first city of every ant: \<open>st_point\<close>, or a shuffled sequence of cities.\<close>

definition ant_start :: "(nat \<Rightarrow> int) \<Rightarrow> int \<Rightarrow> int \<Rightarrow> int \<Rightarrow> colony \<Rightarrow> colony option" where
  "ant_start rand m st_point tim s =
     (if st_point \<noteq> - 1
      then for_up 0 m (\<lambda>i s. map_option (\<lambda>r. s\<lparr>routes := r\<rparr>) (wr2 ant_max NP (routes s) i 0 st_point)) s
      else
        let rds = (if crem m (cities s) = 0 then cdiv m (cities s) else cdiv m (cities s) + 1) in do {
          (tmp, tot_ant) \<leftarrow> for_up 0 rds (\<lambda>_. for_up tim (cities s) (\<lambda>j (tmp, t). do {
              tmp \<leftarrow> wr ant_max tmp t j;
              Some (tmp, t + 1) })) (\<lambda>_. 0, 0);
          (tmp, k) \<leftarrow> shuffle rand tmp tot_ant (seed s);
          for_up 0 m (\<lambda>i s. do {
              c \<leftarrow> rd ant_max tmp i;
              r \<leftarrow> wr2 ant_max NP (routes s) i 0 c;
              Some (s\<lparr>routes := r\<rparr>) }) (s\<lparr>seed := k\<rparr>)
        })"

definition ant_moves :: "(f32 \<Rightarrow> f32 \<Rightarrow> f64) \<Rightarrow> (nat \<Rightarrow> int) \<Rightarrow> int \<Rightarrow> colony \<Rightarrow> colony option" where
  "ant_moves weight rand m s =
     for_up 1 (cities s) (\<lambda>j. for_up 0 m (ant_move weight rand j)) s"

definition ant_len :: "colony \<Rightarrow> int \<Rightarrow> int option" where
  "ant_len s i =
     for_up 0 (cities s - 1) (\<lambda>j len. do {
         a \<leftarrow> rd2 ant_max NP (routes s) i j;
         b \<leftarrow> rd2 ant_max NP (routes s) i (j + 1);
         d \<leftarrow> rd2 NP NP (dis s) a b;
         Some (len + d) }) 0"

definition ant_lens :: "int \<Rightarrow> colony \<Rightarrow> int arr option" where
  "ant_lens m s = for_up 0 m (\<lambda>i len. do { d \<leftarrow> ant_len s i; wr ant_max len i d }) (\<lambda>_. 0)"

definition ant_min :: "int \<Rightarrow> int arr \<Rightarrow> (int \<times> int) option" where
  "ant_min m len =
     for_up 1 m (\<lambda>i (min_len, min_index). do {
         l \<leftarrow> rd ant_max len i;
         let (min_len, less) = chkmin min_len l;
         Some (min_len, if less then i else min_index) }) (len 0, 0)"

definition ant_record :: "int \<Rightarrow> int \<Rightarrow> int \<Rightarrow> colony \<Rightarrow> colony option" where
  "ant_record iter min_len min_index s = do {
     lb \<leftarrow> wr iter_max (len_best s) iter min_len;
     pb \<leftarrow> for_up 0 (cities s) (\<lambda>i pb. do {
             c \<leftarrow> rd2 ant_max NP (routes s) min_index i;
             wr2 iter_max NP pb iter i c }) (path_best s);
     Some (s\<lparr>len_best := lb, path_best := pb\<rparr>)
   }"

definition lay :: "int \<Rightarrow> int \<Rightarrow> int \<Rightarrow> colony \<Rightarrow> colony option" where
  "lay len a b s = do {
     d \<leftarrow> rd2 NP NP (delta_pher s) a b;
     let v = to_s (to_d d + 1 * ant_Q / d_of_int len);
     e \<leftarrow> wr2 NP NP (delta_pher s) a b v;
     e \<leftarrow> wr2 NP NP e b a (e a b);
     Some (s\<lparr>delta_pher := e\<rparr>)
   }"

definition ant_lay :: "bool \<Rightarrow> int \<Rightarrow> int arr \<Rightarrow> colony \<Rightarrow> colony option" where
  "ant_lay back m len s =
     for_up 0 m (\<lambda>i s. do {
         l \<leftarrow> rd ant_max len i;
         s \<leftarrow> for_up 0 (cities s - 1) (\<lambda>j s. do {
                a \<leftarrow> rd2 ant_max NP (routes s) i j;
                b \<leftarrow> rd2 ant_max NP (routes s) i (j + 1);
                lay l a b s }) s;
         if back then do {
           a \<leftarrow> rd2 ant_max NP (routes s) i (cities s - 1);
           b \<leftarrow> rd2 ant_max NP (routes s) i 0;
           lay l a b s
         } else Some s }) s"

definition evaporate :: "colony \<Rightarrow> colony option" where
  "evaporate s =
     for_up 0 (cities s) (\<lambda>i s. for_up 0 (cities s) (\<lambda>j s. do {
         p \<leftarrow> rd2 NP NP (pher s) i j;
         d \<leftarrow> rd2 NP NP (delta_pher s) i j;
         e \<leftarrow> wr2 NP NP (pher s) i j (to_s ((lit 1 - ant_rho) * to_d p + to_d d));
         Some (s\<lparr>pher := e\<rparr>) }) s) s"

definition ant_iter :: "(f32 \<Rightarrow> f32 \<Rightarrow> f64) \<Rightarrow> bool \<Rightarrow> (nat \<Rightarrow> int) \<Rightarrow> int \<Rightarrow> int \<Rightarrow> int \<Rightarrow> int \<Rightarrow> colony \<Rightarrow> colony option" where
  "ant_iter weight back rand m st_point tim iter s = do {
     s \<leftarrow> ant_start rand m st_point tim s;
     s \<leftarrow> ant_moves weight rand m s;
     len \<leftarrow> ant_lens m s;
     (min_len, min_index) \<leftarrow> ant_min m len;
     s \<leftarrow> ant_record iter min_len min_index s;
     s \<leftarrow> ant_lay back m len s;
     s \<leftarrow> evaporate s;
     Some (s\<lparr>routes := \<lambda>_ _. 0\<rparr>)
   }"

section \<open>The result\<close>

text \<open>
  The value the four final blocks compare for an iteration: the best length and the way from
  the last city \<open>lst\<close>; \<open>run_once\<close> divides the sum of the three drop points by 3.
  \<open>ant\<close> and \<open>ant_ori\<close> differ in the end point \<open>(hx, hy)\<close> of the first block.
\<close>

definition finish_value :: "int \<times> int \<Rightarrow> int \<Rightarrow> int \<Rightarrow> int \<Rightarrow> colony \<Rightarrow> (int \<times> colony) option" where
  "finish_value home tag back_st i s =
     (if tag = 2 \<and> back_st = 0 then do { l \<leftarrow> rd iter_max (len_best s) i; Some (l, s) }
      else do {
        lst \<leftarrow> rd2 iter_max NP (path_best s) i (cities s - 1);
        x \<leftarrow> rdp (px s) lst;
        y \<leftarrow> rdp (py s) lst;
        l \<leftarrow> rd iter_max (len_best s) i;
        if tag = 0 then do {
          d \<leftarrow> calc_dis x y (fst home) (snd home);
          Some (l + d, s)
        } else if tag = 1 then do {
          (a, t) \<leftarrow> calc_tag x y 0 0 0 (tmp_xy s);
          (b, t) \<leftarrow> calc_tag x y 0 0 1 t;
          (c, t) \<leftarrow> calc_tag x y 0 0 2 t;
          Some (l + cdiv (a + b + c) 3, s\<lparr>tmp_xy := t\<rparr>)
        } else do {
          c \<leftarrow> rdp (clas s) lst;
          (d, t) \<leftarrow> calc_tag x y 0 0 c (tmp_xy s);
          Some (l + d, s\<lparr>tmp_xy := t\<rparr>)
        }
      })"

definition finish_min :: "int \<times> int \<Rightarrow> int \<Rightarrow> int \<Rightarrow> int \<Rightarrow> int \<times> int \<times> colony \<Rightarrow> (int \<times> int \<times> colony) option" where
  "finish_min home tag back_st i st =
     (let (ans, idx, s) = st in do {
        (v, s) \<leftarrow> finish_value home tag back_st i s;
        let (ans, less) = chkmin ans v;
        Some (ans, if less then i else idx, s) })"

definition copy_best :: "int \<Rightarrow> int \<Rightarrow> colony \<Rightarrow> colony option" where
  "copy_best tim idx s =
     for_up 0 (cities s) (\<lambda>i s. do {
         c \<leftarrow> rd2 iter_max NP (path_best s) idx i;
         b \<leftarrow> wr2 2 60 (best s) tim i c;
         Some (s\<lparr>best := b\<rparr>) }) s"

definition ant_finish :: "int \<times> int \<Rightarrow> int \<Rightarrow> int \<Rightarrow> int \<Rightarrow> int \<Rightarrow> colony \<Rightarrow> (int \<times> colony) option" where
  "ant_finish home tot_iter back_st tim tag s =
     (if tag = 0 \<and> back_st = 1 \<or> tag = 1 \<and> back_st = 1 \<or> tag = 2 \<and> (back_st = 0 \<or> back_st = 1) then do {
        (ans, idx, s) \<leftarrow> for_up (if tag = 2 \<and> back_st = 0 then 1 else 0) tot_iter
            (finish_min home tag back_st) (0x3f3f3f3f, 0, s);
        s \<leftarrow> copy_best tim idx s;
        Some (ans, s)
      } else Some (0x3f3f3f3f, s))"

definition ant :: "(nat \<Rightarrow> int) \<Rightarrow> int \<Rightarrow> int \<Rightarrow> int \<Rightarrow> int \<Rightarrow> int \<Rightarrow> int \<Rightarrow> colony \<Rightarrow> (int \<times> colony) option" where
  "ant rand tot_iter m st_point back_st tim tag s = do {
     s \<leftarrow> for_up 0 tot_iter (ant_iter (\<lambda>a b. to_d (a * b)) False rand m st_point tim)
            (s\<lparr>delta_pher := \<lambda>_ _. 0, len_best := \<lambda>_. 0\<rparr>);
     ant_finish (wid + ex_dis_R, hei + ex_dis_T) tot_iter back_st tim tag s
   }"

text \<open>\<open>ant_ori\<close> weighs by powers, lays the closing edge too and goes home to the origin.\<close>

definition ant_alpha :: f64 where "ant_alpha = lit 1.1"

definition ant_ori :: "(f64 \<Rightarrow> f64 \<Rightarrow> f64) \<Rightarrow> (nat \<Rightarrow> int) \<Rightarrow> int \<Rightarrow> int \<Rightarrow> int \<Rightarrow> int \<Rightarrow> int \<Rightarrow> int \<Rightarrow> colony \<Rightarrow> (int \<times> colony) option" where
  "ant_ori pow rand tot_iter m st_point back_st tim tag s = do {
     s \<leftarrow> for_up 0 tot_iter
            (ant_iter (\<lambda>a b. 1 * lit 100000000000 * pow (to_d a) ant_alpha * pow (to_d b) ant_beta)
               (back_st \<noteq> 0) rand m st_point tim)
            (s\<lparr>delta_pher := \<lambda>_ _. 0, len_best := \<lambda>_. 0\<rparr>);
     ant_finish (0, 0) tot_iter back_st tim tag s
   }"

section \<open>The shuffle is a permutation\<close>

lemma crem_range: "0 \<le> a \<Longrightarrow> 0 < b \<Longrightarrow> 0 \<le> crem a b \<and> crem a b < b"
  by (simp add: crem_nonneg)

text \<open>Probing from \<open>lst\<close> ends at a free slot when there is one.\<close>

lemma shuffle_probe_free:
  assumes n: "0 < n" "n \<le> 13" and lst: "0 \<le> lst" "lst < n" and f: "0 \<le> f" "f < n" "vis f = 0"
  shows "\<exists>l. shuffle_probe n vis lst = Some l \<and> 0 \<le> l \<and> l < n \<and> vis l = 0"
proof -
  let ?I = "\<lambda>p. 0 \<le> snd p \<and> snd p < n \<and> fst p = (vis (snd p) \<noteq> 0)"
  let ?c = "\<lambda>p. let l = crem (snd p + 1) n in map_option (\<lambda>v. (v \<noteq> 0, l)) (rd 13 vis l)"
  have "\<exists>t. while_ub fst ?c (vis lst \<noteq> 0, lst) = Some (Some t) \<and> ?I t \<and> \<not> fst t"
  proof (rule while_ub_total[OF wf_measure[of "\<lambda>p. nat ((f - snd p) mod n)"]])
    show "?I (vis lst \<noteq> 0, lst)" using lst by simp
    fix p :: "bool \<times> int"
    assume p: "?I p" "fst p"
    let ?l = "(snd p + 1) mod n"
    have c: "crem (snd p + 1) n = ?l" using p n by (simp add: crem_nonneg)
    have l: "0 \<le> ?l" "?l < n" using n by simp_all
    have "snd p \<noteq> f" using p f by auto
    then have "(f - snd p) mod n \<noteq> 0"
      using p f dvd_imp_le_int[of "f - snd p" n] by (auto simp: mod_eq_0_iff_dvd)
    then have pos: "0 < (f - snd p) mod n" using n pos_mod_sign[of n "f - snd p"] by linarith
    have "(f - ?l) mod n = ((f - snd p) mod n - 1) mod n" by (simp add: mod_simps algebra_simps)
    also have "\<dots> = (f - snd p) mod n - 1" 
      using pos pos_mod_bound[of n "f - snd p"] n by (intro mod_pos_pos_trivial) linarith+
    finally have "nat ((f - ?l) mod n) < nat ((f - snd p) mod n)" using pos by simp
    then show "\<exists>t. ?c p = Some t \<and> ?I t \<and> (t, p) \<in> measure (\<lambda>p. nat ((f - snd p) mod n))"
      using l less_le_trans[OF l(2) n(2)] by (simp add: c rd_def Let_def)
  qed
  then show ?thesis by (auto simp: shuffle_probe_def)
qed

definition shuffle_inv :: "int arr \<Rightarrow> int \<Rightarrow> nat \<Rightarrow> int \<Rightarrow> int arr \<times> int arr \<times> int \<times> nat \<Rightarrow> bool" where
  "shuffle_inv a n k0 t s \<longleftrightarrow>
     (let (tmp, vis, lst, k) = s in 0 \<le> lst \<and> lst < n \<and> k = k0 + nat t \<and> t \<le> n
        \<and> (\<exists>V. V \<subseteq> {0..<n} \<and> card V = nat t \<and> (\<forall>i \<in> {0..<n}. vis i \<noteq> 0 \<longleftrightarrow> i \<in> V)
             \<and> image_mset tmp (mset_set {0..<t}) = image_mset a (mset_set V)))"

lemma image_mset_upd_out: "x \<notin> A \<Longrightarrow> image_mset (f(x := v)) (mset_set A) = image_mset f (mset_set A)"
  by (cases "finite A") (auto intro!: image_mset_cong)

lemma shuffle_step_inv:
  assumes n: "0 < n" "n \<le> 13" and t: "0 \<le> t" "t < n" and r: "\<And>k. 0 \<le> rand k"
    and inv: "shuffle_inv a n k0 t s"
  shows "\<exists>s'. shuffle_step rand n a t s = Some s' \<and> shuffle_inv a n k0 (t + 1) s'"
proof -
  obtain tmp vis lst k where s: "s = (tmp, vis, lst, k)" by (cases s) auto
  from inv obtain V where i: "0 \<le> lst" "lst < n" "k = k0 + nat t" and V: "V \<subseteq> {0..<n}" "card V = nat t"
    "\<forall>i \<in> {0..<n}. vis i \<noteq> 0 \<longleftrightarrow> i \<in> V" "image_mset tmp (mset_set {0..<t}) = image_mset a (mset_set V)"
    unfolding shuffle_inv_def s by auto
  have fin: "finite V" using V(1) finite_subset by blast
  have "V \<noteq> {0..<n}" using V(2) t by auto
  then obtain f where "f \<in> {0..<n} - V" using V(1) by blast
  then have f: "0 \<le> f" "f < n" "f \<notin> V" by simp_all
  then have f0: "vis f = 0" using V(3) by auto
  let ?l0 = "crem (lst + crem (rand k) n) n"
  have l0: "0 \<le> ?l0" "?l0 < n" using crem_range i n r by (simp_all add: add_nonneg_nonneg)
  from shuffle_probe_free[OF n l0 f(1,2), of vis] f0 obtain l where
    l: "shuffle_probe n vis ?l0 = Some l" "0 \<le> l" "l < n" "vis l = 0" by blast
  then have lV: "l \<notin> V" using V(3) by auto
  let ?s' = "(tmp(t := a l), vis(l := 1), l, k + 1)"
  have "shuffle_step rand n a t s = Some ?s'"
    using l l0 n t by (simp add: shuffle_step_def s Let_def c_simps)
  moreover have "shuffle_inv a n k0 (t + 1) ?s'"
  proof -
    have ins: "insert l V \<subseteq> {0..<n}" "card (insert l V) = nat (t + 1)"
      using V(1,2) l lV fin t by auto
    have v: "\<forall>i \<in> {0..<n}. (vis(l := 1)) i \<noteq> 0 \<longleftrightarrow> i \<in> insert l V" using V(3) by auto
    have "{0..<t + 1} = insert t {0..<t}" using t by auto
    then have "image_mset (tmp(t := a l)) (mset_set {0..<t + 1}) = image_mset a (mset_set (insert l V))"
      using V(4) fin lV by (simp add: image_mset_upd_out)
    then show ?thesis using ins v l i t unfolding shuffle_inv_def
      by (auto simp: nat_add_distrib intro!: exI[of _ "insert l V"])
  qed
  ultimately show ?thesis by blast
qed

lemma copy_prefix:
  assumes "0 \<le> n" "n \<le> 13"
  shows "\<exists>a'. for_up 0 n (\<lambda>i a. do { v \<leftarrow> rd 13 tmp i; Some (a(i := v)) }) a = Some a'
    \<and> (\<forall>i. a' i = (if 0 \<le> i \<and> i < n then tmp i else a i))"
proof (rule for_up_total)
  fix i u assume "0 \<le> i" "i < n" "\<forall>j. u j = (if 0 \<le> j \<and> j < i then tmp j else a j)"
  then show "\<exists>t. (do { v \<leftarrow> rd 13 tmp i; Some (u(i := v)) }) = Some t
      \<and> (\<forall>j. t j = (if 0 \<le> j \<and> j < i + 1 then tmp j else a j))"
    using assms by (auto simp: rd_def)
qed (use assms in auto)

lemma shuffle_ok:
  assumes "0 \<le> n" "n \<le> 13" and r: "\<And>k. 0 \<le> rand k"
  shows "\<exists>a'. shuffle rand a n k = Some (a', k + nat n)
    \<and> image_mset a' (mset_set {0..<n}) = image_mset a (mset_set {0..<n}) \<and> (\<forall>i. i < 0 \<or> n \<le> i \<longrightarrow> a' i = a i)"
proof (cases "n = 0")
  case True
  then show ?thesis by (simp add: shuffle_def for_up_stop)
next
  case False
  then have n: "0 < n" using assms by simp
  have start: "shuffle_inv a n k 0 (\<lambda>_. 0, \<lambda>_. 0, 0, k)"
    unfolding shuffle_inv_def using n by (auto intro!: exI[of _ "{}"])
  have "\<exists>s. for_up 0 n (shuffle_step rand n a) (\<lambda>_. 0, \<lambda>_. 0, 0, k) = Some s \<and> shuffle_inv a n k n s"
    by (rule for_up_total) (use n start shuffle_step_inv[OF n assms(2) _ _ r] in auto)
  then obtain tmp vis lst where
    l: "for_up 0 n (shuffle_step rand n a) (\<lambda>_. 0, \<lambda>_. 0, 0, k) = Some (tmp, vis, lst, k + nat n)"
    and V: "\<exists>V. V \<subseteq> {0..<n} \<and> card V = nat n
      \<and> image_mset tmp (mset_set {0..<n}) = image_mset a (mset_set V)"
    unfolding shuffle_inv_def by auto
  obtain a' where a': "for_up 0 n (\<lambda>i a. do { v \<leftarrow> rd 13 tmp i; Some (a(i := v)) }) a = Some a'"
    "\<forall>i. a' i = (if 0 \<le> i \<and> i < n then tmp i else a i)"
    using copy_prefix[of n tmp a] n assms(2) by auto
  have "V = {0..<n}" if "V \<subseteq> {0..<n}" "card V = nat n" for V
    using that card_subset_eq[of "{0..<n}" V] by simp
  then have "image_mset tmp (mset_set {0..<n}) = image_mset a (mset_set {0..<n})" using V by auto
  moreover have "image_mset a' (mset_set {0..<n}) = image_mset tmp (mset_set {0..<n})"
    using a'(2) by (auto intro!: image_mset_cong)
  ultimately show ?thesis using l a' by (auto simp: shuffle_def)
qed

text \<open>
  C14. With non-negative random numbers, \<open>shuffle\<close> permutes the first \<open>n\<close> entries of its
  array and leaves the others alone, its probe loop always ending, as long as \<open>n \<le> 13\<close>, the
  size of its buffers; for larger \<open>n\<close> it writes outside them.
\<close>

theorem shuffle_permutes:
  assumes "0 \<le> n" and "\<forall>k. 0 \<le> rand k"
  shows "case shuffle rand a n k of None \<Rightarrow> 13 < n
    | Some (a', k') \<Rightarrow> n \<le> 13 \<and> k' = k + nat n
        \<and> image_mset a' (mset_set {0..<n}) = image_mset a (mset_set {0..<n})
        \<and> (\<forall>i. i < 0 \<or> n \<le> i \<longrightarrow> a' i = a i)"
proof (cases "n \<le> 13")
  case False
  have "for_up 0 n (shuffle_step rand n a) (\<lambda>_. 0, \<lambda>_. 0, 0, k) \<noteq> Some s" for s
  proof
    assume "for_up 0 n (shuffle_step rand n a) (\<lambda>_. 0, \<lambda>_. 0, 0, k) = Some s"
    then have "n \<le> 13"
      by (rule for_up_inv[where P = "\<lambda>i _. i \<le> 13"])
         (use assms in \<open>auto simp: shuffle_step_def Let_def c_dest split: prod.splits Option.bind_splits\<close>)
    then show False using False by simp
  qed
  then have "shuffle rand a n k = None" by (cases "for_up 0 n (shuffle_step rand n a) (\<lambda>_. 0, \<lambda>_. 0, 0, k)")
    (auto simp: shuffle_def)
  then show ?thesis using False by simp
next
  case True
  then show ?thesis using shuffle_ok[of n rand a k] assms by auto
qed

lemma shuffle_permutes_witness:
  "\<exists>a'. shuffle (\<lambda>k. int k) (\<lambda>i. i * i) 4 0 = Some (a', 4) \<and> a' 7 = 49
     \<and> image_mset a' (mset_set {0..<4}) = image_mset (\<lambda>i. i * i) (mset_set {0..<4})"
  using shuffle_permutes[where n = 4 and rand = "\<lambda>k. int k" and a = "\<lambda>i. i * i" and k = 0] by (auto split: option.splits)

section \<open>Every ant visits every city once\<close>

subsection \<open>The draw is below the sum of the weights\<close>

lemma fround_powi64: "0 \<le> m \<Longrightarrow> m < 2 ^ 53 \<Longrightarrow> - 1074 \<le> e \<Longrightarrow> e \<le> 900 \<Longrightarrow>
    fround binary64 (of_int m * 2 powi e) = Fin (of_int m * 2 powi e)"
proof (rule fround_exact)
  assume a: "0 \<le> m" "m < 2 ^ 53" "- 1074 \<le> e" "e \<le> 900"
  have "\<bar>of_int m * 2 powi e :: rat\<bar> = of_int m * 2 powi e" using a by (simp add: abs_mult)
  also have "\<dots> \<le> of_int (2 ^ 53) * 2 powi 900"
    using a by (intro mult_mono) (simp_all only: of_int_le_iff powi2_le_iff, simp_all)
  also have "\<dots> < 2 powi (emax binary64 + 1)" by (simp add: binary64_def power_int_def)
  finally show "\<bar>of_int m * 2 powi e\<bar> < (2 powi (emax binary64 + 1) :: rat)" .
qed (simp_all add: binary64_def)

lemma round_strict:
  assumes y: "fround binary64 y = Fin y" "2 powi (- 149) \<le> y" and x: "0 \<le> x" "x \<le> 1023 / 1024 * y"
  shows "\<exists>z. fround binary64 x = Fin z \<and> 0 \<le> z \<and> z < y"
proof -
  have y0: "0 < y" using y(2) by (rule less_le_trans[rotated]) simp
  define e where "e = ilog2 y - 52"
  define m where "m = rne (y / 2 powi e)"
  have "(2 powi (- 149) :: rat) < 2 powi (ilog2 y + 1)" using y(2) ilog2_bounds[OF y0] by linarith
  then have il: "- 150 < ilog2 y" unfolding powi2_less_iff by simp
  have q: "qexp binary64 y = e" using il y0 by (simp add: qexp_def binary64_def e_def)
  have ym: "y = of_int m * 2 powi e" using y(1) y0 q by (auto simp: fround_Fin rnd_fin_def m_def)
  have "(2 powi (52 + e) :: rat) \<le> of_int m * 2 powi e" "of_int m * 2 powi e < (2 powi (53 + e) :: rat)"
    using ilog2_bounds[OF y0] unfolding ym[symmetric] by (simp_all add: e_def add.commute)
  then have "(of_int (2 ^ 52) :: rat) \<le> of_int m" "(of_int m :: rat) < of_int (2 ^ 53)"
    by (simp_all add: power_int_add power_int_def[of _ 52] power_int_def[of _ 53])
  then have m: "2 ^ 52 \<le> m" "m < 2 ^ 53" by (simp_all only: of_int_le_iff of_int_less_iff)
  let ?z = "of_int (m - 1) * 2 powi e :: rat"
  have zy: "?z < y" unfolding ym by (intro mult_strict_right_mono) simp_all
  have z0: "0 \<le> ?z" using m by simp
  have "fround binary64 ?z = Fin ?z"
  proof (rule fround_exact)
    have "\<bar>y\<bar> < 2 powi (emax binary64 + 1)" using y(1) by (simp add: fround_Fin)
    then show "\<bar>?z\<bar> < 2 powi (emax binary64 + 1)" using zy z0 by simp
  qed (use m il in \<open>simp_all add: binary64_def e_def\<close>)
  moreover have "x \<le> ?z"
  proof -
    have "(1023 / 1024 * of_int m :: rat) \<le> of_int (m - 1)" using m by simp
    then have "1023 / 1024 * of_int m * 2 powi e \<le> ?z" by (intro mult_right_mono) simp_all
    moreover have "x \<le> 1023 / 1024 * of_int m * 2 powi e" using x(2) unfolding ym by (simp only: mult.assoc)
    ultimately show ?thesis by (rule order_trans[rotated])
  qed
  moreover have "fround binary64 0 = Fin 0" by (rule b64.rnd_zero)
  ultimately obtain w where "fround binary64 x = Fin w" "0 \<le> w" "w \<le> ?z"
    using b64.between[of 0 ?z x] x(1) by blast
  then show ?thesis using zy by auto
qed

lemma randn_below:
  assumes "fround binary64 S = Fin S" "2 powi (- 149) \<le> S" and "0 \<le> rand k"
  shows "fst (randn rand 0 (F64 (Fin S)) k) < F64 (Fin S)"
proof -
  let ?r = "crem (rand k) 1000"
  have r: "0 \<le> ?r" "?r \<le> 999" using crem_range[OF assms(3), of 1000] by simp_all
  have ex: "fround binary64 (of_int m) = Fin (of_int m)" if "0 \<le> m" "m < 2 ^ 40" for m
    using that by (intro fround_int64) simp
  have hi: "fround binary64 (1023 / 1024) = Fin (1023 / 1024)"
    using fround_powi64[of 1023 "- 10"] by (simp add: power_int_def power_divide)
  have "(of_int ?r :: rat) \<le> 999" using r by simp
  then have "(of_int ?r / 1000 :: rat) \<le> 1023 / 1024" by simp
  then obtain p where p: "fround binary64 (of_int ?r / 1000) = Fin p" "0 \<le> p" "p \<le> 1023 / 1024"
    using b64.between[OF b64.rnd_zero hi, of "of_int ?r / 1000"] r by auto
  have S0: "0 < S" using assms(2) by (rule less_le_trans[rotated]) simp
  have "p * S \<le> 1023 / 1024 * S" using p(3) S0 by (intro mult_right_mono) simp_all
  then obtain z where z: "fround binary64 (p * S) = Fin z" "0 \<le> z" "z < S"
    using round_strict[OF assms(1,2), of "p * S"] p S0 by auto
  have "fround binary64 z = Fin z" using b64.rnd_idem[OF z(1)] .
  then have "fst (randn rand 0 (F64 (Fin S)) k) = F64 (Fin z)"
    using r ex[of ?r] ex[of 1000] p(1) z(1) assms(1)
    by (simp add: randn_def d_of_int_def f64_defs fmul_def fdiv_def fadd_def Let_def)
  then show ?thesis using z(3) by (simp add: less_f64_def)
qed

subsection \<open>Sums of weights\<close>

primrec wsum :: "f64 arr \<Rightarrow> nat \<Rightarrow> f64" where
  "wsum P 0 = 0"
| "wsum P (Suc k) = wsum P k + P (int k)"

definition weight_ok :: "f64 \<Rightarrow> bool" where
  "weight_ok w \<longleftrightarrow> (\<exists>q. w = F64 (Fin q) \<and> 2 powi (- 149) \<le> q \<and> q \<le> 2 powi 128)"

lemma wsum_fin:
  assumes "\<And>i. i < k \<Longrightarrow> weight_ok (P (int i))" and "0 < k" and "k \<le> 1000"
  shows "\<exists>S. wsum P k = F64 (Fin S) \<and> fround binary64 S = Fin S \<and> 2 powi (- 149) \<le> S
    \<and> S \<le> of_int (int k) * 2 powi 128"
  using assms
proof (induction k)
  case (Suc k)
  obtain q where q: "P (int k) = F64 (Fin q)" "2 powi (- 149) \<le> q" "q \<le> 2 powi 128"
    using Suc.prems(1)[of k] by (auto simp: weight_ok_def)
  obtain T where T: "wsum P k = F64 (Fin T)" "0 \<le> T" "T \<le> of_int (int k) * 2 powi 128"
  proof (cases "k = 0")
    case True
    then show ?thesis using that[of 0] by (simp add: zero_f64_def)
  next
    case False
    then obtain T where "wsum P k = F64 (Fin T)" "2 powi (- 149) \<le> T" "T \<le> of_int (int k) * 2 powi 128"
      using Suc.IH Suc.prems by auto
    then show ?thesis using that[of T] order_trans[of 0 "2 powi (- 149)" T] by simp
  qed
  have lo: "fround binary64 (2 powi (- 149)) = Fin (2 powi (- 149))" using fround_powi64[of 1 "- 149"] by simp
  have hi: "fround binary64 (of_int (int (Suc k)) * 2 powi 128) = Fin (of_int (int (Suc k)) * 2 powi 128)"
    using Suc.prems(3) by (intro fround_powi64) simp_all
  have "2 powi (- 149) \<le> T + q" using T(2) q(2) by linarith
  moreover have "T + q \<le> of_int (int (Suc k)) * 2 powi 128" using T(3) q(3) by (simp add: algebra_simps)
  ultimately obtain S where S: "fround binary64 (T + q) = Fin S" "2 powi (- 149) \<le> S"
    "S \<le> of_int (int (Suc k)) * 2 powi 128" using b64.between[OF lo hi] by blast
  moreover have "wsum P (Suc k) = F64 (Fin S)" using S(1) by (simp add: T(1) q(1) plus_f64_def fadd_def)
  ultimately show ?case using b64.rnd_idem[OF S(1)] by blast
qed simp

subsection \<open>The loops of a move\<close>

definition prefix_ok :: "int arr \<Rightarrow> int \<Rightarrow> int \<Rightarrow> bool" where
  "prefix_ok r n j \<longleftrightarrow> (\<forall>k \<in> {0..<j}. 0 \<le> r k \<and> r k < n) \<and> inj_on r {0..<j}"

lemma seen_cities_ok:
  assumes "0 \<le> i" "i < ant_max" "0 \<le> j" "j \<le> NP" and "prefix_ok (routes s i) n j" "n \<le> NP"
  shows "\<exists>been. seen_cities s i j = Some been \<and> (\<forall>c. been c \<noteq> 0 \<longleftrightarrow> c \<in> routes s i ` {0..<j})"
  unfolding seen_cities_def
proof (rule for_up_total)
  fix k and been :: "int arr"
  assume k: "0 \<le> k" "k < j" and b: "\<forall>c. been c \<noteq> 0 \<longleftrightarrow> c \<in> routes s i ` {0..<k}"
  have ins: "{0..<k + 1} = insert k {0..<k}" using k by auto
  have c: "0 \<le> routes s i k" "routes s i k < n" using assms(5) k by (auto simp: prefix_ok_def)
  have "routes s i k < NP" using c(2) assms(6) by (rule less_le_trans)
  then show "\<exists>t. (do { c \<leftarrow> rd2 ant_max NP (routes s) i k; wr NP been c 1 }) = Some t
      \<and> (\<forall>c. t c \<noteq> 0 \<longleftrightarrow> c \<in> routes s i ` {0..<k + 1})"
    using assms(1-4) c(1) k b by (simp add: rd2_def wr_def ins)
qed (use assms in auto)

definition open_inv :: "int arr \<Rightarrow> int \<Rightarrow> int arr \<times> int \<Rightarrow> bool" where
  "open_inv been k s \<longleftrightarrow> 0 \<le> snd s \<and> snd s \<le> k
     \<and> fst s ` {0..<snd s} = {c. 0 \<le> c \<and> c < k \<and> been c = 0}"

lemma open_cities_ok:
  assumes "0 \<le> n" "n \<le> NP"
  shows "\<exists>u cnt. open_cities n been = Some (u, cnt) \<and> open_inv been n (u, cnt)"
proof -
  have "\<exists>t. open_cities n been = Some t \<and> open_inv been n t"
    unfolding open_cities_def
  proof (rule for_up_total)
    fix k s assume k: "0 \<le> k" "k < n" and inv: "open_inv been k s"
    obtain u c where s: "s = (u, c)" by (cases s)
    have c: "0 \<le> c" "c \<le> k" "u ` {0..<c} = {x. 0 \<le> x \<and> x < k \<and> been x = 0}"
      using inv by (simp_all add: open_inv_def s)
    show "\<exists>t. (case s of (u, c) \<Rightarrow> do {
         b \<leftarrow> rd NP been k;
         if b = 0 then do { u \<leftarrow> wr NP u c k; Some (u, c + 1) } else Some (u, c)
       }) = Some t \<and> open_inv been (k + 1) t"
    proof (cases "been k = 0")
      case True
      have "{0..<c + 1} = insert c {0..<c}" using c by auto
      moreover have "(u(c := k)) ` {0..<c} = u ` {0..<c}" by (rule image_cong) auto
      ultimately have "(u(c := k)) ` {0..<c + 1} = insert k {x. 0 \<le> x \<and> x < k \<and> been x = 0}"
        by (simp only: image_insert c(3) fun_upd_same)
      also have "\<dots> = {x. 0 \<le> x \<and> x < k + 1 \<and> been x = 0}" using True k by auto
      finally have "(u(c := k)) ` {0..<c + 1} = {x. 0 \<le> x \<and> x < k + 1 \<and> been x = 0}" .
      then show ?thesis using True k c assms by (simp add: s rd_def wr_def open_inv_def)
    next
      case False
      have "{x. 0 \<le> x \<and> x < k + 1 \<and> been x = 0} = {x. 0 \<le> x \<and> x < k \<and> been x = 0}"
        using False by (auto simp: order_le_less zless_add1_eq)
      then show ?thesis using False k c assms by (simp add: s rd_def open_inv_def)
    qed
  qed (use assms in \<open>auto simp: open_inv_def\<close>)
  then show ?thesis by auto
qed

lemma wsum_cong: "(\<And>i. i < k \<Longrightarrow> P (int i) = R (int i)) \<Longrightarrow> wsum P k = wsum R k"
  by (induction k) simp_all

text \<open>Weights between different cities are positive and finite.\<close>

definition trail_ok :: "(f32 \<Rightarrow> f32 \<Rightarrow> f64) \<Rightarrow> colony \<Rightarrow> bool" where
  "trail_ok weight s \<longleftrightarrow> (\<forall>a b. 0 \<le> a \<and> a < cities s \<and> 0 \<le> b \<and> b < cities s \<and> a \<noteq> b
     \<longrightarrow> weight_ok (weight (pher s a b) (idis s a b)))"

definition weigh_inv :: "int \<Rightarrow> f64 arr \<times> f64 \<Rightarrow> bool" where
  "weigh_inv k p \<longleftrightarrow> snd p = wsum (fst p) (nat k) \<and> (\<forall>i. 0 \<le> i \<and> i < k \<longrightarrow> weight_ok (fst p i))"

lemma weigh_ok:
  assumes "trail_ok weight s" and "cities s \<le> NP" and "0 \<le> cnt" "cnt \<le> NP"
    and "0 \<le> lst" "lst < cities s"
    and "\<And>k. 0 \<le> k \<Longrightarrow> k < cnt \<Longrightarrow> 0 \<le> unvis k \<and> unvis k < cities s \<and> unvis k \<noteq> lst"
  shows "\<exists>P Psum. weigh weight s lst unvis cnt = Some (P, Psum) \<and> weigh_inv cnt (P, Psum)"
proof -
  have "\<exists>t. weigh weight s lst unvis cnt = Some t \<and> weigh_inv cnt t"
    unfolding weigh_def
  proof (rule for_up_total)
    show "weigh_inv 0 (\<lambda>_. 0, 0)" by (auto simp: weigh_inv_def)
    fix k p assume k: "0 \<le> k" "k < cnt" and inv: "weigh_inv k p"
    obtain P S where p: "p = (P, S)" by (cases p)
    let ?w = "weight (pher s lst (unvis k)) (idis s lst (unvis k))"
    have u: "0 \<le> unvis k" "unvis k < cities s" "unvis k \<noteq> lst" using assms(7) k by simp_all
    have w: "weight_ok ?w" using assms(1,5,6) u unfolding trail_ok_def by metis
    have "wsum (P(k := ?w)) (nat k) = wsum P (nat k)" using k by (intro wsum_cong) auto
    moreover have "nat (k + 1) = Suc (nat k)" using k by simp
    ultimately have "weigh_inv (k + 1) (P(k := ?w), S + ?w)"
      using inv w k unfolding weigh_inv_def p by auto
    then show "\<exists>t. (case p of (P, Psum) \<Rightarrow> do {
         c \<leftarrow> rd NP unvis k;
         a \<leftarrow> rd2 NP NP (pher s) lst c;
         b \<leftarrow> rd2 NP NP (idis s) lst c;
         P \<leftarrow> wr NP P k (weight a b);
         Some (P, Psum + weight a b)
       }) = Some t \<and> weigh_inv (k + 1) t"
      using k u(1) less_le_trans[OF u(2) assms(2)] assms by (simp add: p rd_def rd2_def wr_def)
  qed (use assms in auto)
  then show ?thesis by auto
qed

lemma pick_ok:
  assumes "0 < cnt" "cnt \<le> NP" and "wsum P (nat cnt) > rate"
    and "0 \<le> i" "i < ant_max" "0 \<le> j" "j < NP"
  shows "\<exists>k cur. 0 \<le> k \<and> k < cnt
    \<and> pick i j unvis cnt P rate rts = Some (rts(i := (rts i)(j := unvis k)), cur)"
proof -
  let ?Q = "\<lambda>s. \<exists>k cur. 0 \<le> k \<and> k < cnt \<and> s = (rts(i := (rts i)(j := unvis k)), cur)"
  have "\<exists>s. pick i j unvis cnt P rate rts = Some s \<and> ?Q s"
    unfolding pick_def
  proof (rule for_brk_total[where P = "\<lambda>k s. s = (rts, wsum P (nat k)) \<and> (0 < k \<longrightarrow> \<not> wsum P (nat k) > rate)"])
    fix k s assume k: "0 \<le> k" "k < cnt" and s: "s = (rts, wsum P (nat k)) \<and> (0 < k \<longrightarrow> \<not> wsum P (nat k) > rate)"
    have n: "nat (k + 1) = Suc (nat k)" using k by simp
    then have w: "wsum P (nat (k + 1)) = wsum P (nat k) + P k" using k by simp
    show "(\<exists>t. (case s of (r, cur) \<Rightarrow> do {
         p \<leftarrow> rd NP P k;
         let cur = cur + p;
         if cur > rate then do {
           c \<leftarrow> rd NP unvis k;
           r \<leftarrow> wr2 ant_max NP r i j c;
           Some (Break (r, cur))
         } else Some (Next (r, cur))
       }) = Some (Next t) \<and> t = (rts, wsum P (nat (k + 1))) \<and> (0 < k + 1 \<longrightarrow> \<not> wsum P (nat (k + 1)) > rate))
      \<or> (\<exists>t. (case s of (r, cur) \<Rightarrow> do {
         p \<leftarrow> rd NP P k;
         let cur = cur + p;
         if cur > rate then do {
           c \<leftarrow> rd NP unvis k;
           r \<leftarrow> wr2 ant_max NP r i j c;
           Some (Break (r, cur))
         } else Some (Next (r, cur))
       }) = Some (Break t) \<and> ?Q t)"
      using k s assms unfolding w by (cases "rate < wsum P (nat k) + P k") (auto simp: rd_def wr2_def Let_def)
  qed (use assms in auto)
  then show ?thesis by auto
qed

lemma ant_move_ok:
  assumes tr: "trail_ok weight s" and n: "cities s \<le> NP" and i: "0 \<le> i" "i < ant_max"
    and j: "1 \<le> j" "j < cities s" and pre: "prefix_ok (routes s i) (cities s) j" and r: "\<And>k. 0 \<le> rand k"
  shows "\<exists>c k. ant_move weight rand j i s = Some (s\<lparr>routes := (routes s)(i := (routes s i)(j := c)), seed := k\<rparr>)
    \<and> prefix_ok ((routes s i)(j := c)) (cities s) (j + 1)"
proof -
  let ?n = "cities s" and ?V = "routes s i ` {0..<j}"
  have jn: "0 \<le> j" "j \<le> NP" "j < NP" using j n by simp_all
  obtain been where been: "seen_cities s i j = Some been" "\<forall>c. been c \<noteq> 0 \<longleftrightarrow> c \<in> ?V"
    using seen_cities_ok[OF i jn(1,2) pre n] by blast
  have n0: "0 \<le> ?n" using j by simp
  obtain u cnt where o: "open_cities ?n been = Some (u, cnt)" "open_inv been ?n (u, cnt)"
    using open_cities_ok[OF n0 n, of been] by blast
  then have cnt: "0 \<le> cnt" "cnt \<le> NP" and u: "u ` {0..<cnt} = {0..<?n} - ?V"
    using n been(2) by (auto simp: open_inv_def)
  have uk: "0 \<le> u k \<and> u k < ?n \<and> u k \<notin> ?V" if "0 \<le> k" "k < cnt" for k
    using that u by (metis Diff_iff atLeastLessThan_iff imageI)
  have "card ?V \<le> nat j" using card_image_le[of "{0..<j}" "routes s i"] by simp
  also have "\<dots> < card {0..<?n}" using j by simp
  finally have "\<not> {0..<?n} \<subseteq> ?V" using card_mono[of ?V "{0..<?n}"] by fastforce
  then have "0 < cnt" using u cnt by (cases "cnt = 0") auto
  let ?l = "routes s i (j - 1)"
  have l: "0 \<le> ?l" "?l < ?n" "?l \<in> ?V" using pre j by (auto simp: prefix_ok_def)
  have "0 \<le> u k \<and> u k < ?n \<and> u k \<noteq> ?l" if "0 \<le> k" "k < cnt" for k using uk[OF that] l(3) by auto
  then obtain P S where w: "weigh weight s ?l u cnt = Some (P, S)" "weigh_inv cnt (P, S)"
    using weigh_ok[OF tr n cnt l(1,2)] by blast
  then have S: "S = wsum P (nat cnt)" "\<And>k. k < nat cnt \<Longrightarrow> weight_ok (P (int k))" by (auto simp: weigh_inv_def)
  have "0 < nat cnt" "nat cnt \<le> 1000" using \<open>0 < cnt\<close> cnt by (simp_all add: NP_def)
  from wsum_fin[of "nat cnt" P, OF S(2) this] obtain x where x: "S = F64 (Fin x)" "fround binary64 x = Fin x" "2 powi (- 149) \<le> x"
    using S(1) by auto
  obtain rate k' where rn: "randn rand 0 S (seed s) = (rate, k')" by (cases "randn rand 0 S (seed s)")
  have "rate < S" using randn_below[where rand = rand and k = "seed s", OF x(2,3) r] rn x(1) by simp
  then have "wsum P (nat cnt) > rate" using S(1) by simp
  from pick_ok[OF \<open>0 < cnt\<close> cnt(2) this i jn(1,3)] obtain k cur where
    k: "0 \<le> k" "k < cnt" "pick i j u cnt P rate (routes s) = Some ((routes s)(i := (routes s i)(j := u k)), cur)"
    by blast
  have "ant_move weight rand j i s = Some (s\<lparr>routes := (routes s)(i := (routes s i)(j := u k)), seed := k'\<rparr>)"
    using been(1) o(1) w(1) k(3) rn i jn j by (simp add: ant_move_def rd2_def)
  moreover have "prefix_ok ((routes s i)(j := u k)) ?n (j + 1)"
  proof -
    have "{0..<j + 1} = insert j {0..<j}" using j by auto
    moreover have "((routes s i)(j := u k)) ` {0..<j} = ?V" by (rule image_cong) auto
    ultimately show ?thesis using pre uk[OF k(1,2)] unfolding prefix_ok_def
      by (auto simp: inj_on_def image_iff)
  qed
  ultimately show ?thesis by blast
qed

subsection \<open>All moves\<close>

definition moves_inv :: "colony \<Rightarrow> int \<Rightarrow> int \<Rightarrow> int \<Rightarrow> colony \<Rightarrow> bool" where
  "moves_inv s0 m j i s \<longleftrightarrow> s = s0\<lparr>routes := routes s, seed := seed s\<rparr> \<and> (\<forall>a. routes s a 0 = routes s0 a 0)
     \<and> (\<forall>a \<in> {0..<m}. prefix_ok (routes s a) (cities s0) (if a < i then j + 1 else j))"

lemma moves_inv_step:
  assumes inv: "moves_inv s0 m j i s" and tr: "trail_ok weight s0" and n: "cities s0 \<le> NP"
    and i: "0 \<le> i" "i < m" "m \<le> ant_max" and j: "1 \<le> j" "j < cities s0" and r: "\<And>k. 0 \<le> rand k"
  shows "\<exists>s'. ant_move weight rand j i s = Some s' \<and> moves_inv s0 m j (i + 1) s'"
proof -
  have eq: "cities s = cities s0" "pher s = pher s0" "idis s = idis s0"
    using inv unfolding moves_inv_def by (metis colony.select_convs colony.update_convs(6,14) colony.surjective)+
  have "trail_ok weight s" using tr by (simp add: trail_ok_def eq)
  moreover have "prefix_ok (routes s i) (cities s) j"
    using bspec[OF conjunct2[OF conjunct2[OF inv[unfolded moves_inv_def]]], of i] i by (simp add: eq)
  ultimately obtain c k where
    c: "ant_move weight rand j i s = Some (s\<lparr>routes := (routes s)(i := (routes s i)(j := c)), seed := k\<rparr>)"
    "prefix_ok ((routes s i)(j := c)) (cities s) (j + 1)"
    using ant_move_ok[where rand = rand, of weight s i j] n i j r by (auto simp: eq)
  have "s\<lparr>routes := R, seed := k\<rparr> = s0\<lparr>routes := R, seed := k\<rparr>" for R
    using inv unfolding moves_inv_def by (metis colony.update_convs(6,14) colony.surjective)
  then have "moves_inv s0 m j (i + 1) (s\<lparr>routes := (routes s)(i := (routes s i)(j := c)), seed := k\<rparr>)"
    using inv c(2) j unfolding moves_inv_def eq by (auto simp: order_le_less zless_add1_eq)
  then show ?thesis using c(1) by blast
qed

lemma ant_moves_ok:
  assumes tr: "trail_ok weight s" and n: "1 \<le> cities s" "cities s \<le> NP" and m: "0 \<le> m" "m \<le> ant_max"
    and st: "\<forall>i \<in> {0..<m}. 0 \<le> routes s i 0 \<and> routes s i 0 < cities s" and r: "\<And>k. 0 \<le> rand k"
  shows "\<exists>s'. ant_moves weight rand m s = Some s' \<and> moves_inv s m (cities s) 0 s'"
  unfolding ant_moves_def
proof (rule for_up_total)
  have "{0..<1} = {0::int}" by auto
  then show "moves_inv s m 1 0 s" using st by (auto simp: moves_inv_def prefix_ok_def)
  fix j u assume j: "1 \<le> j" "j < cities s" and inv: "moves_inv s m j 0 u"
  have "\<exists>t. for_up 0 m (ant_move weight rand j) u = Some t \<and> moves_inv s m j m t"
    by (rule for_up_total) (use m inv moves_inv_step[OF _ tr n(2) _ _ m(2) j r] in auto)
  then show "\<exists>t. for_up 0 m (ant_move weight rand j) u = Some t \<and> moves_inv s m (j + 1) 0 t"
    by (auto simp: moves_inv_def)
qed (use n in auto)

lemma prefix_bij:
  assumes "prefix_ok r n n"
  shows "bij_betw r {0..<n} {0..<n}"
proof -
  have "r ` {0..<n} \<subseteq> {0..<n}" using assms by (auto simp: prefix_ok_def)
  then have "r ` {0..<n} = {0..<n}" using assms by (intro endo_inj_surj) (auto simp: prefix_ok_def)
  then show ?thesis using assms by (simp add: bij_betw_def prefix_ok_def)
qed

definition small_colony :: colony where
  "small_colony = \<lparr>cities = 4, dis = \<lambda>i j. \<bar>i - j\<bar>, idis = \<lambda>_ _. 1, pher = \<lambda>_ _. 1, delta_pher = \<lambda>_ _. 0,
     routes = \<lambda>i j. if j = 0 then 3 else 0, len_best = \<lambda>_. 0, path_best = \<lambda>_ _. 0, best = \<lambda>_ _. 0,
     px = \<lambda>_. 0, py = \<lambda>_. 0, clas = \<lambda>_. 0, tmp_xy = (0, 0), seed = 0\<rparr>"

section \<open>The best ant of an iteration\<close>

lemma ant_min_ok:
  assumes "1 \<le> m" "m \<le> ant_max"
  shows "\<exists>idx. ant_min m len = Some (len idx, idx) \<and> 0 \<le> idx \<and> idx < m \<and> (\<forall>i \<in> {0..<m}. len idx \<le> len i)"
proof -
  have "\<exists>p. ant_min m len = Some p \<and> (\<exists>idx. p = (len idx, idx) \<and> 0 \<le> idx \<and> idx < m
      \<and> (\<forall>i \<in> {0..<m}. len idx \<le> len i))"
    unfolding ant_min_def
  proof (rule for_up_total)
    fix i p assume i: "1 \<le> i" "i < m"
      and inv: "\<exists>idx. p = (len idx, idx) \<and> 0 \<le> idx \<and> idx < i \<and> (\<forall>i \<in> {0..<i}. len idx \<le> len i)"
    then obtain idx where p: "p = (len idx, idx)" "0 \<le> idx" "idx < i" "\<forall>i \<in> {0..<i}. len idx \<le> len i"
      by blast
    have "{0..<i + 1} = insert i {0..<i}" using i by auto
    then show "\<exists>t. (case p of (min_len, min_index) \<Rightarrow> do {
         l \<leftarrow> rd ant_max len i;
         let (min_len, less) = chkmin min_len l;
         Some (min_len, if less then i else min_index) }) = Some t
      \<and> (\<exists>idx. t = (len idx, idx) \<and> 0 \<le> idx \<and> idx < i + 1 \<and> (\<forall>i \<in> {0..<i + 1}. len idx \<le> len i))"
      using p i assms by (fastforce simp: rd_def chkmin_def)
  next
    have "{0..<1} = {0::int}" by auto
    then show "\<exists>idx. (len 0, 0) = (len idx, idx) \<and> 0 \<le> idx \<and> idx < 1 \<and> (\<forall>i \<in> {0..<1}. len idx \<le> len i)"
      by auto
  qed (use assms in auto)
  then show ?thesis by auto
qed

lemma ant_record_ok:
  assumes "0 \<le> iter" "iter < iter_max" "0 \<le> cities s" "cities s \<le> NP" "0 \<le> idx" "idx < ant_max"
  shows "\<exists>pb. ant_record iter v idx s = Some (s\<lparr>len_best := (len_best s)(iter := v), path_best := pb\<rparr>)
    \<and> (\<forall>k \<in> {0..<cities s}. pb iter k = routes s idx k) \<and> (\<forall>a k. a \<noteq> iter \<longrightarrow> pb a k = path_best s a k)"
proof -
  have "\<exists>pb. for_up 0 (cities s) (\<lambda>i pb. do {
             c \<leftarrow> rd2 ant_max NP (routes s) idx i;
             wr2 iter_max NP pb iter i c }) (path_best s) = Some pb
      \<and> ((\<forall>k \<in> {0..<cities s}. pb iter k = routes s idx k) \<and> (\<forall>a k. a \<noteq> iter \<longrightarrow> pb a k = path_best s a k))"
  proof (rule for_up_total)
    fix i pb assume i: "0 \<le> i" "i < cities s"
      and inv: "(\<forall>k \<in> {0..<i}. pb iter k = routes s idx k) \<and> (\<forall>a k. a \<noteq> iter \<longrightarrow> pb a k = path_best s a k)"
    have "{0..<i + 1} = insert i {0..<i}" "i < NP" using i assms(4) by auto
    then show "\<exists>t. (do { c \<leftarrow> rd2 ant_max NP (routes s) idx i; wr2 iter_max NP pb iter i c }) = Some t
      \<and> ((\<forall>k \<in> {0..<i + 1}. t iter k = routes s idx k) \<and> (\<forall>a k. a \<noteq> iter \<longrightarrow> t a k = path_best s a k))"
      using inv i assms by (auto simp: rd2_def wr2_def)
  qed (use assms in auto)
  then show ?thesis using assms by (auto simp: ant_record_def wr_def)
qed

end
