(* ===== verification/Route_Plan.thy ===== *)
theory Route_Plan
  imports Grid_Search Ant_Colony
begin

text \<open>
  The route planners of \<^verbatim>\<open>CODE/aco.c\<close>: \<open>no_trans_task\<close> (tour and grid search),
  \<open>run_once_nouse\<close>, \<open>run_twice1\<close>, \<open>run_twice2\<close>, the incremental \<open>ACO_to_*\<close> and the greedy
  \<open>to_first\<close>, \<open>to_next\<close>, \<open>go_home\<close>. Their state joins the colony, the way points and the
  cursors of the incremental planners.
\<close>

record plan =
  col :: colony
  lg :: legs
  px_std :: "int arr"
  py_std :: "int arr"
  card_class :: "int arr"
  vis :: "int arr"
  lsttt :: int
  nxttt :: int
  lstttt :: int
  path_clk :: int
  lstpos :: int

definition erx :: int where "erx = 10"
definition ery :: int where "ery = 45"
definition yaw_dis :: int where "yaw_dis = 2"

abbreviation pn :: "plan \<Rightarrow> int" where "pn p \<equiv> cities (col p)"

definition set_n :: "int \<Rightarrow> plan \<Rightarrow> plan" where
  "set_n k p = p\<lparr>col := (col p)\<lparr>cities := k\<rparr>\<rparr>"

definition get_x :: "plan \<Rightarrow> int \<Rightarrow> int option" where "get_x p i = rd NP (px (col p)) i"
definition get_y :: "plan \<Rightarrow> int \<Rightarrow> int option" where "get_y p i = rd NP (py (col p)) i"

definition put_x :: "int \<Rightarrow> int \<Rightarrow> plan \<Rightarrow> plan option" where
  "put_x i v p = map_option (\<lambda>a. p\<lparr>col := (col p)\<lparr>px := a\<rparr>\<rparr>) (wr NP (px (col p)) i v)"
definition put_y :: "int \<Rightarrow> int \<Rightarrow> plan \<Rightarrow> plan option" where
  "put_y i v p = map_option (\<lambda>a. p\<lparr>col := (col p)\<lparr>py := a\<rparr>\<rparr>) (wr NP (py (col p)) i v)"

text \<open>\<open>px[i] = x, py[i] = y\<close>, and the same with the copies \<open>px_std\<close>, \<open>py_std\<close>.\<close>

definition put_xy :: "int \<Rightarrow> int \<Rightarrow> int \<Rightarrow> plan \<Rightarrow> plan option" where
  "put_xy i x y p = do { p \<leftarrow> put_x i x p; put_y i y p }"

definition put_std :: "int \<Rightarrow> int \<Rightarrow> int \<Rightarrow> plan \<Rightarrow> plan option" where
  "put_std i x y p = do {
     p \<leftarrow> put_xy i x y p;
     a \<leftarrow> wr NP (px_std p) i x;
     b \<leftarrow> wr NP (py_std p) i y;
     Some (p\<lparr>px_std := a, py_std := b\<rparr>)
   }"

text \<open>From grid positions to centimetres, between lens and body centre.\<close>

definition to_cm :: "int \<Rightarrow> plan \<Rightarrow> plan option" where
  "to_cm i p = do {
     x \<leftarrow> get_x p i;
     y \<leftarrow> get_y p i;
     put_xy i ((x - 1) * 20 + 10 - erx) ((y - 1) * 20 + 10 - ery) p
   }"

definition to_cm_std :: "int \<Rightarrow> plan \<Rightarrow> plan option" where
  "to_cm_std i p = do {
     p \<leftarrow> to_cm i p;
     x \<leftarrow> get_x p i;
     y \<leftarrow> get_y p i;
     put_std i x y p
   }"

text \<open>\<open>make_path(x0, y0, x1, y1, num_path++, piece_step)\<close>\<close>

definition leg :: "int \<Rightarrow> int \<Rightarrow> int \<Rightarrow> int \<Rightarrow> plan \<Rightarrow> plan option" where
  "leg x0 y0 x1 y1 p = do {
     s \<leftarrow> make_path x0 y0 x1 y1 (num_path (lg p)) piece_step ((lg p)\<lparr>num_path := num_path (lg p) + 1\<rparr>);
     Some (p\<lparr>lg := s\<rparr>)
   }"

definition with_col :: "(colony \<Rightarrow> ('a \<times> colony) option) \<Rightarrow> plan \<Rightarrow> ('a \<times> plan) option" where
  "with_col f p = map_option (\<lambda>(v, c). (v, p\<lparr>col := c\<rparr>)) (f (col p))"

definition run_init_tag :: "(f64 \<Rightarrow> f64 \<Rightarrow> f64) \<Rightarrow> int \<Rightarrow> plan \<Rightarrow> plan option" where
  "run_init_tag pow tag p = map_option (\<lambda>c. p\<lparr>col := c\<rparr>) (init_tag pow tag (col p))"

text \<open>\<open>calc_tag\<close> on the globals \<open>tmpx\<close>, \<open>tmpy\<close>.\<close>

definition run_calc_tag :: "int \<Rightarrow> int \<Rightarrow> int \<Rightarrow> int \<Rightarrow> int \<Rightarrow> plan \<Rightarrow> (int \<times> plan) option" where
  "run_calc_tag x1 y1 x2 y2 tag p =
     map_option (\<lambda>(d, t). (d, p\<lparr>col := (col p)\<lparr>tmp_xy := t\<rparr>\<rparr>)) (calc_tag x1 y1 x2 y2 tag (tmp_xy (col p)))"

abbreviation tmpx :: "plan \<Rightarrow> int" where "tmpx p \<equiv> fst (tmp_xy (col p))"
abbreviation tmpy :: "plan \<Rightarrow> int" where "tmpy p \<equiv> snd (tmp_xy (col p))"

definition add_tmpy :: "int \<Rightarrow> plan \<Rightarrow> plan" where
  "add_tmpy d p = p\<lparr>col := (col p)\<lparr>tmp_xy := (tmpx p, tmpy p + d)\<rparr>\<rparr>"

definition rd_path :: "plan \<Rightarrow> int \<Rightarrow> int \<Rightarrow> int option" where
  "rd_path p tim i = rd2 2 60 (best (col p)) tim i"

text \<open>\<open>px[path[tim][i]], py[path[tim][i]]\<close>\<close>

definition stop_xy :: "plan \<Rightarrow> int \<Rightarrow> int \<Rightarrow> (int \<times> int) option" where
  "stop_xy p tim i = do { c \<leftarrow> rd_path p tim i; x \<leftarrow> get_x p c; y \<leftarrow> get_y p c; Some (x, y) }"

section \<open>Whole tours\<close>

definition grid_of :: "int \<Rightarrow> int" where
  "grid_of v = cdiv (v + 39) 10 + 1"

text \<open>
  The call of \<open>astar\<close> by \<open>no_trans_task\<close>; \<^const>\<open>None\<close> also stands for a search that does not
  return, which \<open>astar_returns\<close> excludes for starts inside the box.
\<close>

definition tour_leg :: "int arr2 \<Rightarrow> (int \<Rightarrow> int) \<Rightarrow> nodee arr \<Rightarrow> int \<Rightarrow> plan \<Rightarrow> plan option" where
  "tour_leg obs junk h i p = do {
     a \<leftarrow> stop_xy p 0 i;
     b \<leftarrow> stop_xy p 0 (i + 1);
     (case astar obs junk h (grid_of (fst a)) (grid_of (snd a)) (grid_of (fst b)) (grid_of (snd b)) b (lg p)
      of Some (Some s) \<Rightarrow> Some (p\<lparr>lg := s\<rparr>) | _ \<Rightarrow> None)
   }"

definition no_trans_task :: "(f64 \<Rightarrow> f64 \<Rightarrow> f64) \<Rightarrow> (nat \<Rightarrow> int) \<Rightarrow> (int \<Rightarrow> int) \<Rightarrow> nodee arr \<Rightarrow>
    (int \<times> int) list \<Rightarrow> int \<Rightarrow> plan \<Rightarrow> plan option" where
  "no_trans_task pow rand junk h pos_int pic_num p = do {
     let p = set_n pic_num p;
     p \<leftarrow> for_up 0 (pn p) to_cm p;
     p \<leftarrow> put_xy (pn p) 0 0 p;
     let p = set_n (pn p + 1) p;
     p \<leftarrow> run_init_tag pow 0 p;
     (ans_len, p) \<leftarrow> with_col (ant rand 20 50 (pn p - 1) 1 0 0) p;
     obs \<leftarrow> astar_init pos_int;
     p \<leftarrow> for_up 0 (pn p - 1) (tour_leg obs junk h) p;
     a \<leftarrow> stop_xy p 0 (pn p - 1);
     leg (fst a) (snd a) 0 0 p
   }"

text \<open>A leg over the drop point: \<open>calc_tag\<close>, to \<open>(tmpx, tmpy)\<close>, on to the next stop.\<close>

definition over_drop :: "int \<times> int \<Rightarrow> int \<times> int \<Rightarrow> int \<Rightarrow> plan \<Rightarrow> plan option" where
  "over_drop a b tag p = do {
     (d, p) \<leftarrow> run_calc_tag (fst a) (snd a) (fst b) (snd b) tag p;
     p \<leftarrow> leg (fst a) (snd a) (tmpx p) (tmpy p) p;
     leg (tmpx p) (tmpy p) (fst b) (snd b) p
   }"

definition stop_clas :: "plan \<Rightarrow> int \<Rightarrow> int \<Rightarrow> int option" where
  "stop_clas p tim i = do { c \<leftarrow> rd_path p tim i; rd NP (clas (col p)) c }"

definition drop_tour :: "int \<Rightarrow> int \<Rightarrow> plan \<Rightarrow> plan option" where
  "drop_tour tim from p = do {
     p \<leftarrow> for_up from (pn p - 1) (\<lambda>i p. do {
            a \<leftarrow> stop_xy p tim i;
            b \<leftarrow> stop_xy p tim (i + 1);
            t \<leftarrow> stop_clas p tim i;
            over_drop a b t p }) p;
     a \<leftarrow> stop_xy p tim (pn p - 1);
     t \<leftarrow> stop_clas p tim (pn p - 1);
     p \<leftarrow> over_drop a (0, 0) t p;
     if t = 0 then Some (p\<lparr>lg := (lg p)\<lparr>num_path := num_path (lg p) - 1\<rparr>\<rparr>) else Some p
   }"

definition run_once_nouse :: "(f64 \<Rightarrow> f64 \<Rightarrow> f64) \<Rightarrow> (nat \<Rightarrow> int) \<Rightarrow> plan \<Rightarrow> plan option" where
  "run_once_nouse pow rand p = do {
     p \<leftarrow> put_xy (pn p) 0 0 p;
     let p = set_n (pn p + 1) p;
     p \<leftarrow> run_init_tag pow 1 p;
     (ans_len, p) \<leftarrow> with_col (ant rand 20 50 (pn p - 1) 1 0 1) p;
     a \<leftarrow> stop_xy p 0 1;
     p \<leftarrow> leg 0 0 (fst a) (snd a) p;
     drop_tour 0 1 p
   }"

definition run_twice1 :: "(f64 \<Rightarrow> f64 \<Rightarrow> f64) \<Rightarrow> (nat \<Rightarrow> int) \<Rightarrow> int \<Rightarrow> plan \<Rightarrow> plan option" where
  "run_twice1 pow rand pic_num p = do {
     let p = set_n pic_num p;
     p \<leftarrow> for_up 0 (pn p) to_cm p;
     p \<leftarrow> put_xy (pn p) 0 0 p;
     let p = set_n (pn p + 1) p;
     p \<leftarrow> run_init_tag pow 0 p;
     (tot1, p) \<leftarrow> with_col (ant rand 20 50 (pn p - 1) 0 0 2) p;
     p \<leftarrow> for_up 0 (pn p - 1) (\<lambda>i p. do {
            a \<leftarrow> stop_xy p 0 i;
            b \<leftarrow> stop_xy p 0 (i + 1);
            leg (fst a) (snd a) (fst b) (snd b) p }) p;
     l \<leftarrow> rd_path p 0 (pn p - 1);
     Some (p\<lparr>lstpos := l\<rparr>)
   }"

definition run_twice2 :: "(f64 \<Rightarrow> f64 \<Rightarrow> f64) \<Rightarrow> (nat \<Rightarrow> int) \<Rightarrow> plan \<Rightarrow> plan option" where
  "run_twice2 pow rand p = do {
     let p = set_n (pn p - 1) p;
     p \<leftarrow> run_init_tag pow 2 p;
     (tot2, p) \<leftarrow> with_col (ant rand 20 50 (lstpos p) 1 1 2) p;
     drop_tour 1 0 p
   }"

section \<open>The incremental planners\<close>

definition ACO_to_first :: "(f64 \<Rightarrow> f64 \<Rightarrow> f64) \<Rightarrow> (nat \<Rightarrow> int) \<Rightarrow> int \<Rightarrow> plan \<Rightarrow> plan option" where
  "ACO_to_first pow rand pic_num p = do {
     let p = set_n pic_num p;
     p \<leftarrow> for_up 0 (pn p) to_cm_std p;
     p \<leftarrow> put_xy (pn p) 0 0 p;
     let p = set_n (pn p + 1) p;
     p \<leftarrow> run_init_tag pow 0 p;
     (v, p) \<leftarrow> with_col (ant rand 100 50 (pn p - 1) 1 0 0) p;
     let p = set_n (pn p - 1) p;
     (a, k) \<leftarrow> shuffle rand (best (col p) 0) 13 (seed (col p));
     let p = p\<lparr>col := (col p)\<lparr>best := (best (col p))(0 := a), seed := k\<rparr>\<rparr>;
     l \<leftarrow> rd_path p 0 (path_clk p);
     v \<leftarrow> wr NP (vis p) l 1;
     let p = p\<lparr>lsttt := l, lstttt := 0, vis := v\<rparr>;
     y \<leftarrow> get_y p l;
     p \<leftarrow> put_y l (y + 10) p;
     x \<leftarrow> get_x p l;
     y \<leftarrow> get_y p l;
     leg 0 0 x y p
   }"

text \<open>The leg between two stops by the outcome of \<open>check_yaw\<close>.\<close>

definition ACO_to_next :: "(f64 \<Rightarrow> f64) \<Rightarrow> plan \<Rightarrow> plan option" where
  "ACO_to_next atan p = do {
     let p = p\<lparr>path_clk := path_clk p + 1\<rparr>;
     nxt \<leftarrow> rd_path p 0 (path_clk p);
     let p = p\<lparr>nxttt := nxt\<rparr>;
     let l = lsttt p;
     xl \<leftarrow> get_x p l; yl \<leftarrow> get_y p l; xn \<leftarrow> get_x p nxt; yn \<leftarrow> get_y p nxt;
     let lst_check = check_yaw atan xl yl xn yn;
     p \<leftarrow> (if lst_check = 0 then leg xl yl xn yn p else Some p);
     p \<leftarrow> (if lst_check = 1 then do {
             p \<leftarrow> put_y nxt (yn - yaw_dis) p;
             yl \<leftarrow> get_y p l;
             leg xl yl xn (yn - yaw_dis) p }
           else Some p);
     p \<leftarrow> (if lst_check = 2 then do {
             let hori_dis = (if xn \<le> xl then 20 else - 20);
             p \<leftarrow> leg xl yl (xn + hori_dis) yn p;
             let tmp = (if xn \<le> xl then - 8 else 8);
             p \<leftarrow> leg (xn + hori_dis) yn (xn + tmp) yn p;
             put_x nxt (xn + tmp) p }
           else Some p);
     Some (p\<lparr>lstttt := lsttt p, lsttt := nxttt p\<rparr>)
   }"

text \<open>The leg to a depot; \<open>ACO_to_R\<close> alone also updates \<open>lstttt\<close>.\<close>

definition to_depot :: "(f64 \<Rightarrow> f64) \<Rightarrow> int \<Rightarrow> int \<Rightarrow> plan \<Rightarrow> plan option" where
  "to_depot atan dx dy p = do {
     let n = pn p;
     p \<leftarrow> put_std n dx dy p;
     x0 \<leftarrow> get_x p (n - 1); y0 \<leftarrow> get_y p (n - 1); x1 \<leftarrow> get_x p n; y1 \<leftarrow> get_y p n;
     let lst_check = check_yaw atan x0 y0 x1 y1;
     p \<leftarrow> (if lst_check \<noteq> 1 then leg x0 y0 x1 y1 p else Some p);
     (if lst_check = 1 then do {
        p \<leftarrow> put_y n (y1 - yaw_dis) p;
        leg x0 y0 x1 (y1 - yaw_dis) p }
      else Some p)
   }"

definition ACO_to_R :: "(f64 \<Rightarrow> f64) \<Rightarrow> plan \<Rightarrow> plan option" where
  "ACO_to_R atan p = do {
     p \<leftarrow> to_depot atan 725 460 p;
     let p = p\<lparr>lstttt := lsttt p\<rparr>;
     let p = p\<lparr>lsttt := pn p\<rparr>;
     Some (set_n (pn p + 1) p)
   }"

definition ACO_to_T :: "(f64 \<Rightarrow> f64) \<Rightarrow> plan \<Rightarrow> plan option" where
  "ACO_to_T atan p = do {
     p \<leftarrow> to_depot atan 465 500 p;
     let p = p\<lparr>lsttt := pn p\<rparr>;
     Some (set_n (pn p + 1) p)
   }"

definition ACO_to_L :: "(f64 \<Rightarrow> f64) \<Rightarrow> plan \<Rightarrow> plan option" where
  "ACO_to_L atan p = do {
     p \<leftarrow> to_depot atan (- 10) 400 p;
     let p = p\<lparr>lsttt := pn p\<rparr>;
     Some (set_n (pn p + 1) p)
   }"

section \<open>The greedy planner\<close>

text \<open>The side a card class is carried to: classes 1 to 5, 6 to 10 and above.\<close>

definition clas_of :: "int \<Rightarrow> int" where
  "clas_of c = (let k = cdiv (c - 1) 5 + 1; k = (if k = 1 then 0 else k) in if k = 3 then 1 else k)"

definition to_cm_clas :: "int \<Rightarrow> plan \<Rightarrow> plan option" where
  "to_cm_clas i p = do {
     p \<leftarrow> to_cm_std i p;
     c \<leftarrow> rd NP (card_class p) i;
     a \<leftarrow> wr NP (clas (col p)) i (clas_of c);
     Some (p\<lparr>col := (col p)\<lparr>clas := a\<rparr>\<rparr>)
   }"

definition nearest_home :: "plan \<Rightarrow> (int \<times> int) option" where
  "nearest_home p =
     for_up 0 (pn p) (\<lambda>i (mx, l). do {
         x \<leftarrow> get_x p i;
         y \<leftarrow> get_y p i;
         d \<leftarrow> calc_dis 0 0 x y;
         let (mx, less) = chkmin mx d;
         Some (mx, if less then i else l) }) (10000, lsttt p)"

definition to_first :: "int \<Rightarrow> plan \<Rightarrow> plan option" where
  "to_first pic_num p = do {
     let p = set_n pic_num p;
     p \<leftarrow> for_up 0 (pn p) to_cm_clas p;
     (mx, l) \<leftarrow> nearest_home p;
     v \<leftarrow> wr NP (vis p) l 1;
     let p = p\<lparr>lsttt := l, lstttt := 0, vis := v\<rparr>;
     y \<leftarrow> get_y p l;
     p \<leftarrow> put_y l (y + 10) p;
     x \<leftarrow> get_x p l;
     y \<leftarrow> get_y p l;
     leg 0 0 x y p
   }"

definition find_step :: "int \<Rightarrow> int \<Rightarrow> int \<Rightarrow> int \<Rightarrow> int \<times> int \<times> plan \<Rightarrow> (int \<times> int \<times> plan) option" where
  "find_step x y tag i st =
     (let (mx, best_id, p) = st in do {
        v \<leftarrow> rd NP (vis p) i;
        if v = 0 then do {
          xi \<leftarrow> get_x p i;
          yi \<leftarrow> get_y p i;
          (d, p) \<leftarrow> run_calc_tag x y xi yi tag p;
          let (mx, less) = chkmin mx d;
          Some (mx, if less then i else best_id, p)
        } else Some (mx, best_id, p) })"

definition find_next :: "int \<Rightarrow> int \<Rightarrow> int \<Rightarrow> plan \<Rightarrow> (int \<times> plan) option" where
  "find_next x y np p = do {
     tag \<leftarrow> rd NP (clas (col p)) np;
     (mx, best_id, p) \<leftarrow> for_up 0 (pn p) (find_step x y tag) (10000, 0, p);
     v \<leftarrow> wr NP (vis p) best_id 1;
     Some (best_id, p\<lparr>vis := v\<rparr>)
   }"

definition to_next_plain :: "int \<Rightarrow> plan \<Rightarrow> plan option" where
  "to_next_plain lst_check p = do {
     let n = nxttt p;
     yn \<leftarrow> get_y p n;
     p \<leftarrow> put_y n (yn - lst_check * yaw_dis) p;
     xn \<leftarrow> get_x p n;
     yn \<leftarrow> get_y p n;
     leg (tmpx p) (tmpy p) xn yn p
   }"

definition to_next_side :: "(f64 \<Rightarrow> f64) \<Rightarrow> plan \<Rightarrow> plan option" where
  "to_next_side atan p = do {
     let n = nxttt p;
     xn \<leftarrow> get_x p n;
     yn \<leftarrow> get_y p n;
     let hori_dis = (if xn \<le> tmpx p then 20 else - 20);
     p \<leftarrow> put_y n (yn - check_yaw atan (tmpx p) (tmpy p) (xn + hori_dis) yn * yaw_dis) p;
     yn \<leftarrow> get_y p n;
     p \<leftarrow> leg (tmpx p) (tmpy p) (xn + hori_dis) yn p;
     let tmp = (if xn \<le> tmpx p then - 8 else 8);
     p \<leftarrow> leg (xn + hori_dis) yn (xn + tmp) yn p;
     put_x n (xn + tmp) p
   }"

definition to_next :: "(f64 \<Rightarrow> f64) \<Rightarrow> plan \<Rightarrow> plan option" where
  "to_next atan p = do {
     let l = lsttt p;
     xl \<leftarrow> get_x p l;
     yl \<leftarrow> get_y p l;
     (nxt, p) \<leftarrow> find_next xl yl l p;
     let p = p\<lparr>nxttt := nxt\<rparr>;
     xn \<leftarrow> get_x p nxt;
     yn \<leftarrow> get_y p nxt;
     c \<leftarrow> rd NP (clas (col p)) l;
     (d, p) \<leftarrow> run_calc_tag xl yl xn yn c p;
     let lst_check = check_yaw atan xl yl (tmpx p) (tmpy p);
     let p = add_tmpy (- (lst_check * yaw_dis)) p;
     p \<leftarrow> leg xl yl (tmpx p) (tmpy p) p;
     let p = add_tmpy (lst_check * yaw_dis) p;
     p \<leftarrow> (if c \<noteq> 1 then to_next_plain lst_check p else to_next_side atan p);
     let p = add_tmpy (- (lst_check * yaw_dis)) p;
     Some (p\<lparr>lstttt := lsttt p, lsttt := nxttt p\<rparr>)
   }"

definition go_home :: "(f64 \<Rightarrow> f64) \<Rightarrow> plan \<Rightarrow> plan option" where
  "go_home atan p = do {
     p \<leftarrow> put_xy (pn p) 5 0 p;
     let n = nxttt p;
     x \<leftarrow> get_x p n;
     y \<leftarrow> get_y p n;
     c \<leftarrow> rd NP (clas (col p)) n;
     (d, p) \<leftarrow> run_calc_tag x y 0 0 c p;
     let p = add_tmpy (- (check_yaw atan x y (tmpx p) (tmpy p) * yaw_dis)) p;
     p \<leftarrow> leg x y (tmpx p) (tmpy p) p;
     p \<leftarrow> leg (tmpx p) (tmpy p) 5 0 p;
     Some (p\<lparr>lstttt := lsttt p, lsttt := pn p\<rparr>)
   }"

section \<open>The greedy choice\<close>

lemma calc_tag_tmp:
  assumes "tag \<in> {0, 1, 2}"
  shows "calc_tag x1 y1 x2 y2 tag t = calc_tag x1 y1 x2 y2 tag (0, 0)"
proof -
  have "calc_tag_L x1 y1 x2 y2 t = calc_tag_L x1 y1 x2 y2 (0, 0)"
    "calc_tag_T x1 y1 x2 y2 t = calc_tag_T x1 y1 x2 y2 (0, 0)"
    "calc_tag_R x1 y1 x2 y2 t = calc_tag_R x1 y1 x2 y2 (0, 0)"
    by (simp_all add: calc_tag_L_def calc_tag_T_def calc_tag_R_def Let_def)
  then show ?thesis using assms by (auto simp: calc_tag_def)
qed

text \<open>The length of the way over the drop point.\<close>

definition tag_cost :: "int \<Rightarrow> int \<Rightarrow> int \<Rightarrow> int \<Rightarrow> int \<Rightarrow> int" where
  "tag_cost x1 y1 x2 y2 tag = fst (the (calc_tag x1 y1 x2 y2 tag (0, 0)))"

lemma calc_tag_total:
  assumes f: "on_field x1 y1" "on_field x2 y2" and "tag \<in> {0, 1, 2}"
  shows "\<exists>u. calc_tag x1 y1 x2 y2 tag t = Some (tag_cost x1 y1 x2 y2 tag, u) \<and> tag_cost x1 y1 x2 y2 tag < 10000"
proof -
  note fd = f[unfolded on_field_def]
  have "\<exists>d u. calc_tag x1 y1 x2 y2 tag (0, 0) = Some (d, u) \<and> d < 10000"
  proof (cases "x1 = 0 \<and> y1 = 0")
    case True
    have "\<bar>0 - x2\<bar> \<le> 1000" "\<bar>0 - y2\<bar> \<le> 1000" using fd by linarith+
    from calc_dis_small[OF this] show ?thesis using True by (auto simp: calc_tag_def)
  next
    case False
    note p = calc_tag_parts[OF f, of "(0, 0)"]
    consider "tag = 0" | "tag = 1" | "tag = 2" using assms(3) by auto
    then obtain tx ty where t: "calc_tag x1 y1 x2 y2 tag (0, 0) = do {
        a \<leftarrow> calc_dis x1 y1 tx ty; b \<leftarrow> calc_dis x2 y2 tx ty; Some (a + b, tx, ty) }"
      "- 100 \<le> tx" "tx \<le> 800" "- 100 \<le> ty" "ty \<le> 800"
    proof cases
      case 1
      with p(1) obtain ty where ty: "calc_tag_L x1 y1 x2 y2 (0, 0) = Some (- 30, ty)"
        "min y1 y2 - 35 \<le> ty" "ty \<le> max y1 y2 + 35" by blast
      have "- 100 \<le> ty" "ty \<le> 800" using ty fd by linarith+
      then show ?thesis using that[of "- 30" ty] ty(1) False 1 by (auto simp: calc_tag_def)
    next
      case 2
      with p(2) obtain tx where tx: "calc_tag_T x1 y1 x2 y2 (0, 0) = Some (tx, 480)"
        "min x1 x2 \<le> tx" "tx \<le> max x1 x2" by blast
      have "- 100 \<le> tx" "tx \<le> 800" using tx fd by linarith+
      then show ?thesis using that[of tx 480] tx(1) False 2 by (auto simp: calc_tag_def)
    next
      case 3
      with p(3) obtain ty where ty: "calc_tag_R x1 y1 x2 y2 (0, 0) = Some (715, ty)"
        "min y1 y2 - 35 \<le> ty" "ty \<le> max y1 y2 + 35" by blast
      have "- 100 \<le> ty" "ty \<le> 800" using ty fd by linarith+
      then show ?thesis using that[of 715 ty] ty(1) False 3 by (auto simp: calc_tag_def)
    qed
    have b: "\<bar>x1 - tx\<bar> \<le> 1000" "\<bar>y1 - ty\<bar> \<le> 1000" "\<bar>x2 - tx\<bar> \<le> 1000" "\<bar>y2 - ty\<bar> \<le> 1000"
      using t(2-5) fd by linarith+
    from calc_dis_small[OF b(1,2)] calc_dis_small[OF b(3,4)] show ?thesis unfolding t(1) by auto
  qed
  then obtain d u where "calc_tag x1 y1 x2 y2 tag (0, 0) = Some (d, u)" "d < 10000" by blast
  moreover have "calc_tag x1 y1 x2 y2 tag t = calc_tag x1 y1 x2 y2 tag (0, 0)"
    using assms(3) by (rule calc_tag_tmp)
  ultimately show ?thesis by (simp add: tag_cost_def)
qed

definition unvisited :: "plan \<Rightarrow> int \<Rightarrow> int set" where
  "unvisited p k = {i. 0 \<le> i \<and> i < k \<and> vis p i = 0}"

definition card_cost :: "plan \<Rightarrow> int \<Rightarrow> int \<Rightarrow> int \<Rightarrow> int \<Rightarrow> int" where
  "card_cost p x y tag i = tag_cost x y (px (col p) i) (py (col p) i) tag"

definition set_tmp :: "int \<times> int \<Rightarrow> plan \<Rightarrow> plan" where
  "set_tmp t p = p\<lparr>col := (col p)\<lparr>tmp_xy := t\<rparr>\<rparr>"

definition find_best :: "plan \<Rightarrow> int \<Rightarrow> int \<Rightarrow> int \<Rightarrow> int \<Rightarrow> int \<Rightarrow> int \<Rightarrow> bool" where
  "find_best p x y tag k mx b \<longleftrightarrow>
     (if unvisited p k = {} then mx = 10000 \<and> b = 0
      else b \<in> unvisited p k \<and> mx = card_cost p x y tag b \<and> mx < 10000
        \<and> (\<forall>i \<in> unvisited p k. card_cost p x y tag b \<le> card_cost p x y tag i))"

definition find_inv :: "plan \<Rightarrow> int \<Rightarrow> int \<Rightarrow> int \<Rightarrow> int \<Rightarrow> int \<times> int \<times> plan \<Rightarrow> bool" where
  "find_inv p x y tag k st \<longleftrightarrow>
     (\<exists>t. snd (snd st) = set_tmp t p) \<and> find_best p x y tag k (fst st) (fst (snd st))"

lemma find_step_ok:
  assumes n: "pn p0 \<le> NP" and xy: "on_field x y" and tag: "tag \<in> {0, 1, 2}"
    and f: "\<forall>i \<in> {0..<pn p0}. on_field (px (col p0) i) (py (col p0) i)"
    and k: "0 \<le> k" "k < pn p0" and inv: "find_inv p0 x y tag k st"
  shows "\<exists>st'. find_step x y tag k st = Some st' \<and> find_inv p0 x y tag (k + 1) st'"
proof -
  obtain mx b p where st: "st = (mx, b, p)" by (metis prod.collapse)
  from inv obtain t where p: "p = set_tmp t p0" and best: "find_best p0 x y tag k mx b"
    unfolding find_inv_def st fst_conv snd_conv by blast
  let ?c = "card_cost p0 x y tag k"
  have idx: "0 \<le> k" "k < NP" using k n by simp_all
  show ?thesis
  proof (cases "vis p0 k = 0")
    case False
    have "unvisited p0 (k + 1) = unvisited p0 k"
      using False by (auto simp: unvisited_def order_le_less zless_add1_eq)
    then have "find_inv p0 x y tag (k + 1) st"
      using best unfolding find_inv_def find_best_def st fst_conv snd_conv p by (metis (no_types, lifting))
    moreover have "find_step x y tag k st = Some st"
      using False idx by (simp add: find_step_def st p set_tmp_def rd_def)
    ultimately show ?thesis by blast
  next
    case True
    have U: "unvisited p0 (k + 1) = insert k (unvisited p0 k)" using True k by (auto simp: unvisited_def)
    have "on_field (px (col p0) k) (py (col p0) k)" using f k by simp
    from calc_tag_total[OF xy this tag, of t] obtain u where
      u: "calc_tag x y (px (col p0) k) (py (col p0) k) tag t = Some (?c, u)" "?c < 10000"
      unfolding card_cost_def by blast
    have step: "find_step x y tag k st
        = Some (if mx > ?c then (?c, k, set_tmp u p0) else (mx, b, set_tmp u p0))"
      using True idx u(1)
      by (simp add: find_step_def st p set_tmp_def rd_def get_x_def get_y_def run_calc_tag_def chkmin_def)
    have "find_best p0 x y tag (k + 1) (if mx > ?c then ?c else mx) (if mx > ?c then k else b)"
    proof (cases "unvisited p0 k = {}")
      case True
      then show ?thesis using best u(2) by (simp add: find_best_def U)
    next
      case False
      then have "b \<in> unvisited p0 k" "mx = card_cost p0 x y tag b" "mx < 10000"
        "\<forall>i \<in> unvisited p0 k. card_cost p0 x y tag b \<le> card_cost p0 x y tag i"
        using best by (simp_all add: find_best_def)
      then show ?thesis using u(2) by (cases "mx > ?c") (auto simp: find_best_def U intro: order_trans)
    qed
    then show ?thesis using step unfolding find_inv_def
      by (cases "mx > ?c") (simp_all del: split_paired_Ex, blast+)
  qed
qed

text \<open>
  C16. With all cards on the field and one not yet visited, \<open>find_\<close> returns an unvisited card
  for which the way over the drop point of the current card's side is shortest, marks exactly
  this card, and changes besides only the scratch point \<open>tmpx\<close>, \<open>tmpy\<close>.
\<close>

theorem find_next_nearest:
  assumes "pn p \<le> NP" and "on_field x y" and "\<forall>i \<in> {0..<pn p}. on_field (px (col p) i) (py (col p) i)"
    and "0 \<le> np" "np < NP" and "clas (col p) np \<in> {0, 1, 2}"
    and "\<exists>i \<in> {0..<pn p}. vis p i = 0"
  shows "\<exists>b t. find_next x y np p = Some (b, p\<lparr>col := (col p)\<lparr>tmp_xy := t\<rparr>, vis := (vis p)(b := 1)\<rparr>)
    \<and> 0 \<le> b \<and> b < pn p \<and> vis p b = 0
    \<and> (\<forall>i \<in> {0..<pn p}. vis p i = 0 \<longrightarrow>
         tag_cost x y (px (col p) b) (py (col p) b) (clas (col p) np)
         \<le> tag_cost x y (px (col p) i) (py (col p) i) (clas (col p) np))"
proof -
  let ?tag = "clas (col p) np"
  have n0: "0 \<le> pn p" using assms(7) by auto
  have "\<exists>st. for_up 0 (pn p) (find_step x y ?tag) (10000, 0, p) = Some st \<and> find_inv p x y ?tag (pn p) st"
  proof (rule for_up_total)
    have "p = set_tmp (tmp_xy (col p)) p" by (simp add: set_tmp_def)
    then show "find_inv p x y ?tag 0 (10000, 0, p)"
      unfolding find_inv_def fst_conv snd_conv
      by (intro conjI exI[of _ "tmp_xy (col p)"]) (simp_all add: find_best_def unvisited_def)
  qed (use n0 find_step_ok[OF assms(1,2,6,3)] in auto)
  then obtain st where st: "for_up 0 (pn p) (find_step x y ?tag) (10000, 0, p) = Some st"
    "find_inv p x y ?tag (pn p) st" by blast
  obtain mx b p' where p': "st = (mx, b, p')" by (metis prod.collapse)
  obtain t where t: "p' = set_tmp t p" and best: "find_best p x y ?tag (pn p) mx b"
    using st(2) unfolding find_inv_def p' by auto
  have "unvisited p (pn p) \<noteq> {}" using assms(7) by (auto simp: unvisited_def)
  then have "b \<in> unvisited p (pn p)"
    and least: "\<forall>i \<in> unvisited p (pn p). card_cost p x y ?tag b \<le> card_cost p x y ?tag i"
    using best by (simp_all add: find_best_def)
  then have b: "0 \<le> b" "b < pn p" "vis p b = 0" by (simp_all add: unvisited_def)
  have "find_next x y np p = Some (b, p\<lparr>col := (col p)\<lparr>tmp_xy := t\<rparr>, vis := (vis p)(b := 1)\<rparr>)"
    using st(1) b assms(1,4,5) by (simp add: find_next_def rd_def wr_def p' t set_tmp_def)
  moreover have "\<forall>i \<in> {0..<pn p}. vis p i = 0 \<longrightarrow> tag_cost x y (px (col p) b) (py (col p) b) ?tag
      \<le> tag_cost x y (px (col p) i) (py (col p) i) ?tag"
    using least by (auto simp: unvisited_def card_cost_def)
  ultimately show ?thesis using b by blast
qed

definition small_plan :: plan where
  "small_plan = \<lparr>col = small_colony\<lparr>px := \<lambda>i. 100 * i + 50, py := \<lambda>i. 60 * i + 40, clas := \<lambda>_. 2\<rparr>,
     lg = blank_legs 0, px_std = \<lambda>_. 0, py_std = \<lambda>_. 0, card_class = \<lambda>_. 6,
     vis = \<lambda>i. if i = 1 then 1 else 0, lsttt = 1, nxttt = 0, lstttt = 0, path_clk = 1, lstpos = 0\<rparr>"

lemma find_next_nearest_witness:
  "\<exists>b p'. find_next 150 100 1 small_plan = Some (b, p') \<and> b \<in> {0, 2, 3} \<and> vis p' b = 1"
proof -
  have f: "\<forall>i \<in> {0..<4}. on_field (100 * i + 50) (60 * i + 40)" by (auto simp: on_field_def)
  have fields: "pn small_plan = 4" "px (col small_plan) = (\<lambda>i. 100 * i + 50)"
    "py (col small_plan) = (\<lambda>i. 60 * i + 40)" "clas (col small_plan) 1 = 2"
    "vis small_plan = (\<lambda>i. if i = 1 then 1 else 0)"
    by (simp_all add: small_plan_def small_colony_def)
  have "\<exists>i \<in> {0..<pn small_plan}. vis small_plan i = 0" by (rule bexI[of _ 0]) (simp_all add: fields)
  from find_next_nearest[of small_plan 150 100 1, unfolded fields, OF _ _ f _ _ _ this[unfolded fields]]
  obtain b t where b: "find_next 150 100 1 small_plan
      = Some (b, small_plan\<lparr>col := (col small_plan)\<lparr>tmp_xy := t\<rparr>, vis := (\<lambda>i. if i = 1 then 1 else 0)(b := 1)\<rparr>)"
    "0 \<le> b" "b < 4" "(if b = 1 then 1 else 0) = (0::int)"
    by (auto simp: NP_def on_field_def)
  then have "b = 0 \<or> b = 2 \<or> b = 3" by (cases "b = 1") auto
  then show ?thesis using b(1) by auto
qed

end
