(* ===== verification/Point_Queue.thy ===== *)
theory Point_Queue
  imports C_Prelude
begin

text \<open>
  The linked queue of \<^verbatim>\<open>CODE/coor_pick.c\<close> (\<open>QNode\<close>, \<open>Queue\<close>, \<open>CreateQueue\<close>,
  \<open>enqueue\<close>, \<open>is_empty\<close>, \<open>dequeue\<close>) on an explicit store of nodes. Address 0 is \<open>NULL\<close>;
  following a pointer outside the store is \<^const>\<open>None\<close>. \<open>rt_malloc\<close> is a parameter that maps
  the store to the address of the new node; the predicate \<open>fresh_alloc\<close> is what the code
  relies on: the address is not \<open>NULL\<close> and not in use.

  The flood fill keeps two queues in step, one for each coordinate. The contract it uses is the
  locale \<open>fifo\<close>, interpreted on the pair of queues.
\<close>

section \<open>The interface of a queue\<close>

locale fifo =
  fixes enq :: "'a \<Rightarrow> 'q \<Rightarrow> 'q option"
    and deq :: "'q \<Rightarrow> ('a \<times> 'q) option"
    and isempty :: "'q \<Rightarrow> bool"
    and cont :: "'q \<Rightarrow> 'a list"
    and inv :: "'q \<Rightarrow> bool"
    and good :: "'a \<Rightarrow> bool"
  assumes enq_ok: "inv q \<Longrightarrow> good a \<Longrightarrow> \<exists>q'. enq a q = Some q' \<and> inv q' \<and> cont q' = cont q @ [a]"
    and deq_ok: "inv q \<Longrightarrow> cont q = a # as \<Longrightarrow> \<exists>q'. deq q = Some (a, q') \<and> inv q' \<and> cont q' = as"
    and empty_ok: "inv q \<Longrightarrow> isempty q \<longleftrightarrow> cont q = []"
begin

primrec enq_list :: "'a list \<Rightarrow> 'q \<Rightarrow> 'q option" where
  "enq_list [] q = Some q"
| "enq_list (a # as) q = (case enq a q of None \<Rightarrow> None | Some q' \<Rightarrow> enq_list as q')"

primrec deq_list :: "nat \<Rightarrow> 'q \<Rightarrow> ('a list \<times> 'q) option" where
  "deq_list 0 q = Some ([], q)"
| "deq_list (Suc n) q = (case deq q of None \<Rightarrow> None
     | Some (a, q') \<Rightarrow> map_option (\<lambda>(as, q''). (a # as, q'')) (deq_list n q'))"

lemma enq_list_ok:
  assumes "inv q" and "\<forall>a \<in> set as. good a"
  shows "\<exists>q'. enq_list as q = Some q' \<and> inv q' \<and> cont q' = cont q @ as"
  using assms
proof (induction as arbitrary: q)
  case (Cons a as)
  then obtain q1 where q1: "enq a q = Some q1" "inv q1" "cont q1 = cont q @ [a]"
    using enq_ok[of q a] by auto
  with Cons.IH[of q1] Cons.prems show ?case by auto
qed simp

lemma deq_list_ok:
  assumes "inv q" and "cont q = as @ bs"
  shows "\<exists>q'. deq_list (length as) q = Some (as, q') \<and> inv q' \<and> cont q' = bs"
  using assms
proof (induction as arbitrary: q)
  case (Cons a as)
  then obtain q1 where q1: "deq q = Some (a, q1)" "inv q1" "cont q1 = as @ bs"
    using deq_ok[of q a "as @ bs"] by auto
  with Cons.IH[of q1] show ?case by auto
qed simp

end

section \<open>The store and the operations\<close>

record qnode =
  qdata :: int
  qnext :: int

record queue =
  head :: int
  tail :: int

type_synonym store = "int \<rightharpoonup> qnode"

definition CreateQueue :: queue where
  "CreateQueue = \<lparr>head = 0, tail = 0\<rparr>"

definition enqueue :: "(store \<Rightarrow> int) \<Rightarrow> int \<Rightarrow> store \<times> queue \<Rightarrow> (store \<times> queue) option" where
  "enqueue malloc item s =
     (let (st, q) = s; a = malloc st in
      if a = 0 then None
      else
        let st = st(a \<mapsto> \<lparr>qdata = u8 item, qnext = 0\<rparr>);
            q = (if head q = 0 then q\<lparr>head := a\<rparr> else q) in
        if tail q = 0 then Some (st, q\<lparr>tail := a\<rparr>)
        else (case st (tail q) of None \<Rightarrow> None
              | Some t \<Rightarrow> Some (st(tail q \<mapsto> t\<lparr>qnext := a\<rparr>), q\<lparr>tail := a\<rparr>)))"

definition is_empty :: "queue \<Rightarrow> bool" where
  "is_empty q = (head q = 0)"

definition dequeue :: "store \<times> queue \<Rightarrow> (int \<times> store \<times> queue) option" where
  "dequeue s =
     (let (st, q) = s; temp = head q in
      case st temp of None \<Rightarrow> None
      | Some n \<Rightarrow>
          let q = (if head q = tail q then \<lparr>head = 0, tail = 0\<rparr> else q\<lparr>head := qnext n\<rparr>)
          in Some (qdata n, st(temp := None), q))"

text \<open>The two queues of the flood fill, in the order the code operates on them.\<close>

record pair_queue =
  mem :: store
  qx :: queue
  qy :: queue

definition enq_pair :: "(store \<Rightarrow> int) \<Rightarrow> int \<times> int \<Rightarrow> pair_queue \<Rightarrow> pair_queue option" where
  "enq_pair malloc c p =
     (case enqueue malloc (fst c) (mem p, qx p) of None \<Rightarrow> None
      | Some (st, qx') \<Rightarrow>
         (case enqueue malloc (snd c) (st, qy p) of None \<Rightarrow> None
          | Some (st, qy') \<Rightarrow> Some \<lparr>mem = st, qx = qx', qy = qy'\<rparr>))"

definition deq_pair :: "pair_queue \<Rightarrow> ((int \<times> int) \<times> pair_queue) option" where
  "deq_pair p =
     (case dequeue (mem p, qx p) of None \<Rightarrow> None
      | Some (x, st, qx') \<Rightarrow>
         (case dequeue (st, qy p) of None \<Rightarrow> None
          | Some (y, st, qy') \<Rightarrow> Some ((x, y), \<lparr>mem = st, qx = qx', qy = qy'\<rparr>)))"

definition new_pair :: "store \<Rightarrow> pair_queue" where
  "new_pair st = \<lparr>mem = st, qx = CreateQueue, qy = CreateQueue\<rparr>"

section \<open>Representation\<close>

definition fresh_alloc :: "(store \<Rightarrow> int) \<Rightarrow> bool" where
  "fresh_alloc malloc \<longleftrightarrow> (\<forall>st. finite (dom st) \<longrightarrow> malloc st \<noteq> 0 \<and> malloc st \<notin> dom st)"

text \<open>
  \<open>chain st ns xs\<close>: the nodes at the addresses \<open>ns\<close> hold \<open>xs\<close>, each points to the next one and
  the last to \<open>NULL\<close>.
\<close>

fun chain :: "store \<Rightarrow> int list \<Rightarrow> int list \<Rightarrow> bool" where
  "chain st [] [] = True"
| "chain st (a # ns) (x # xs) =
     (a \<noteq> 0 \<and> st a = Some \<lparr>qdata = x, qnext = (case ns of [] \<Rightarrow> 0 | b # _ \<Rightarrow> b)\<rparr> \<and> chain st ns xs)"
| "chain st _ _ = False"

definition qrep :: "store \<Rightarrow> queue \<Rightarrow> int list \<Rightarrow> int list \<Rightarrow> bool" where
  "qrep st q ns xs \<longleftrightarrow> distinct ns \<and> chain st ns xs
     \<and> head q = (case ns of [] \<Rightarrow> 0 | a # _ \<Rightarrow> a) \<and> tail q = (if ns = [] then 0 else last ns)"

lemma chain_dom: "chain st ns xs \<Longrightarrow> set ns \<subseteq> dom st"
  by (induction st ns xs rule: chain.induct) auto

lemma chain_zero: "chain st ns xs \<Longrightarrow> 0 \<notin> set ns"
  by (induction st ns xs rule: chain.induct) auto

lemma chain_frame: "chain st ns xs \<Longrightarrow> (\<And>a. a \<in> set ns \<Longrightarrow> st' a = st a) \<Longrightarrow> chain st' ns xs"
  by (induction st ns xs rule: chain.induct) auto

lemma chain_length: "chain st ns xs \<Longrightarrow> length ns = length xs"
  by (induction st ns xs rule: chain.induct) auto

lemma chain_last:
  "chain st ns xs \<Longrightarrow> ns \<noteq> [] \<Longrightarrow> st (last ns) = Some \<lparr>qdata = last xs, qnext = 0\<rparr>"
proof (induction st ns xs rule: chain.induct)
  case (2 st a ns x xs)
  then show ?case using chain_length[of st ns xs] by (cases ns) auto
qed simp_all

text \<open>Appending a node: the last one is redirected to it.\<close>

lemma chain_append:
  assumes "chain st ns xs" and "distinct ns" and "ns \<noteq> []" and "a \<notin> set ns" and "a \<noteq> 0"
  shows "chain (st(a \<mapsto> \<lparr>qdata = x, qnext = 0\<rparr>, last ns \<mapsto> \<lparr>qdata = last xs, qnext = a\<rparr>)) (ns @ [a]) (xs @ [x])"
  using assms
proof (induction st ns xs rule: chain.induct)
  case (2 st b ns y ys)
  show ?case
  proof (cases ns)
    case Nil
    then show ?thesis using 2 chain_length[of st ns ys] by auto
  next
    case (Cons c cs)
    define st' where "st' = st(a \<mapsto> \<lparr>qdata = x, qnext = 0\<rparr>, last ns \<mapsto> \<lparr>qdata = last ys, qnext = a\<rparr>)"
    have ne: "ns \<noteq> []" "ys \<noteq> []" using 2(2) Cons by (cases ys; auto)+
    have IH: "chain st' (ns @ [a]) (ys @ [x])" unfolding st'_def by (rule 2(1)) (use 2(2-) ne in auto)
    have "b \<noteq> last ns" "b \<noteq> a" using 2(3,5) ne by auto
    then have b: "st' b = st b" by (simp add: st'_def)
    have "st b = Some \<lparr>qdata = y, qnext = c\<rparr>" "b \<noteq> 0" using 2(2) Cons by simp_all
    then have "chain st' (b # (ns @ [a])) (y # (ys @ [x]))" using IH b Cons by simp
    moreover have eq: "st(a \<mapsto> \<lparr>qdata = x, qnext = 0\<rparr>, last (b # ns) \<mapsto> \<lparr>qdata = last (y # ys), qnext = a\<rparr>) = st'"
      unfolding st'_def last_ConsR[OF ne(1)] last_ConsR[OF ne(2)] ..
    ultimately show ?thesis unfolding eq append_Cons by simp
  qed
qed simp_all

lemma enqueue_rep:
  assumes "qrep st q ns xs" and "malloc st \<noteq> 0" and "malloc st \<notin> dom st" and "u8 x = x"
  shows "\<exists>st' q'. enqueue malloc x (st, q) = Some (st', q') \<and> qrep st' q' (ns @ [malloc st]) (xs @ [x])
    \<and> (\<forall>b. b \<notin> set ns \<and> b \<noteq> malloc st \<longrightarrow> st' b = st b) \<and> dom st' = insert (malloc st) (dom st)"
proof -
  let ?a = "malloc st"
  have r: "distinct ns" "chain st ns xs" "head q = (case ns of [] \<Rightarrow> 0 | a # _ \<Rightarrow> a)"
    "tail q = (if ns = [] then 0 else last ns)" using assms(1) by (simp_all add: qrep_def)
  have a: "?a \<notin> set ns" using chain_dom[OF r(2)] assms(3) by auto
  show ?thesis
  proof (cases "ns = []")
    case True
    then have "xs = []" using chain_length[OF r(2)] by simp
    then show ?thesis using True r assms(2,4)
      by (auto simp: enqueue_def Let_def qrep_def)
  next
    case False
    have nz: "head q \<noteq> 0" "tail q \<noteq> 0"
      using r(3,4) False chain_zero[OF r(2)] last_in_set[OF False]
      by (metis list.case(2) list.set_intros(1) neq_Nil_conv, metis)
    have la: "last ns \<noteq> ?a" using a last_in_set[OF False] by metis
    let ?st = "st(?a \<mapsto> \<lparr>qdata = x, qnext = 0\<rparr>, last ns \<mapsto> \<lparr>qdata = last xs, qnext = ?a\<rparr>)"
    have "enqueue malloc x (st, q) = Some (?st, q\<lparr>tail := ?a\<rparr>)"
      using nz la assms(2,4) False r(4) chain_last[OF r(2) False] by (simp add: enqueue_def Let_def)
    moreover have "qrep ?st (q\<lparr>tail := ?a\<rparr>) (ns @ [?a]) (xs @ [x])"
      using chain_append[OF r(2,1) False a assms(2)] r False a by (auto simp: qrep_def split: list.splits)
    moreover have "last ns \<in> dom st" using chain_dom[OF r(2)] last_in_set[OF False] by blast
    ultimately show ?thesis using False by (intro exI[of _ ?st] exI[of _ "q\<lparr>tail := ?a\<rparr>"]) auto
  qed
qed

lemma dequeue_rep:
  assumes "qrep st q ns (x # xs)"
  shows "\<exists>st' q' ns'. dequeue (st, q) = Some (x, st', q') \<and> qrep st' q' ns' xs \<and> set ns' \<subseteq> set ns
    \<and> (\<forall>b. b \<notin> set ns \<longrightarrow> st' b = st b) \<and> dom st' \<subseteq> dom st"
proof -
  from assms obtain a ms where ns: "ns = a # ms" by (cases ns) (auto simp: qrep_def)
  have r: "distinct ns" "a \<noteq> 0" "st a = Some \<lparr>qdata = x, qnext = (case ms of [] \<Rightarrow> 0 | b # _ \<Rightarrow> b)\<rparr>"
    "chain st ms xs" "head q = a" "tail q = last ns"
    using assms by (auto simp: qrep_def ns)
  let ?st = "st(a := None)"
  have ch: "chain ?st ms xs" by (rule chain_frame[OF r(4)]) (use r(1) in \<open>auto simp: ns\<close>)
  show ?thesis
  proof (cases "ms = []")
    case True
    then show ?thesis using r ch by (auto simp: dequeue_def ns qrep_def Let_def intro!: exI[of _ "[]"])
  next
    case False
    have "a \<noteq> last ns" using r(1) False by (auto simp: ns)
    then have "dequeue (st, q) = Some (x, ?st, q\<lparr>head := (case ms of [] \<Rightarrow> 0 | b # _ \<Rightarrow> b)\<rparr>)"
      using r by (simp add: dequeue_def Let_def)
    moreover have "qrep ?st (q\<lparr>head := (case ms of [] \<Rightarrow> 0 | b # _ \<Rightarrow> b)\<rparr>) ms xs"
      using r ch False by (auto simp: qrep_def ns)
    ultimately show ?thesis using r(3)
      by (intro exI[of _ ?st] exI[of _ "q\<lparr>head := (case ms of [] \<Rightarrow> 0 | b # _ \<Rightarrow> b)\<rparr>"] exI[of _ ms]) (auto simp: ns)
  qed
qed

section \<open>The pair of queues implements the interface\<close>

lemma chain_det: "chain st ns xs \<Longrightarrow> chain st ms ys \<Longrightarrow>
    (case ns of [] \<Rightarrow> 0 | a # _ \<Rightarrow> a) = (case ms of [] \<Rightarrow> 0 | a # _ \<Rightarrow> a) \<Longrightarrow> xs = ys"
proof (induction st ns xs arbitrary: ms ys rule: chain.induct)
  case (1 st)
  then show ?case by (cases ms; cases ys) auto
next
  case (2 st a ns x xs)
  then obtain ms' y ys' where m: "ms = a # ms'" "ys = y # ys'" by (cases ms; cases ys) auto
  then show ?case using 2 by auto
qed simp_all

lemma qrep_det: "qrep st q ns xs \<Longrightarrow> qrep st q ms ys \<Longrightarrow> xs = ys"
  unfolding qrep_def by (metis chain_det)

definition contents :: "store \<Rightarrow> queue \<Rightarrow> int list" where
  "contents st q = (THE xs. \<exists>ns. qrep st q ns xs)"

lemma contents_eq: "qrep st q ns xs \<Longrightarrow> contents st q = xs"
  unfolding contents_def using qrep_det by blast

definition pair_cont :: "pair_queue \<Rightarrow> (int \<times> int) list" where
  "pair_cont p = zip (contents (mem p) (qx p)) (contents (mem p) (qy p))"

definition pair_rep :: "pair_queue \<Rightarrow> int list \<Rightarrow> int list \<Rightarrow> (int \<times> int) list \<Rightarrow> bool" where
  "pair_rep p ns ms cs \<longleftrightarrow> qrep (mem p) (qx p) ns (map fst cs) \<and> qrep (mem p) (qy p) ms (map snd cs)
     \<and> set ns \<inter> set ms = {} \<and> finite (dom (mem p))"

definition pair_inv :: "(store \<Rightarrow> int) \<Rightarrow> pair_queue \<Rightarrow> bool" where
  "pair_inv malloc p \<longleftrightarrow> fresh_alloc malloc \<and> (\<exists>ns ms cs. pair_rep p ns ms cs)"

definition byte_pair :: "int \<times> int \<Rightarrow> bool" where
  "byte_pair c \<longleftrightarrow> 0 \<le> fst c \<and> fst c < 256 \<and> 0 \<le> snd c \<and> snd c < 256"

lemma pair_cont_eq: "pair_rep p ns ms cs \<Longrightarrow> pair_cont p = cs"
  by (auto simp: pair_rep_def pair_cont_def dest!: contents_eq simp: zip_map_fst_snd)

lemma qrep_frame: "qrep st q ns xs \<Longrightarrow> (\<And>a. a \<in> set ns \<Longrightarrow> st' a = st a) \<Longrightarrow> qrep st' q ns xs"
  unfolding qrep_def using chain_frame[of st ns xs st'] by auto

lemma enq_pair_rep:
  assumes m: "fresh_alloc malloc" and r: "pair_rep p ns ms cs" and c: "byte_pair c"
  shows "\<exists>p' ns' ms'. enq_pair malloc c p = Some p' \<and> pair_rep p' ns' ms' (cs @ [c])"
proof -
  let ?st = "mem p" and ?a = "malloc (mem p)"
  have q: "qrep ?st (qx p) ns (map fst cs)" "qrep ?st (qy p) ms (map snd cs)"
    "set ns \<inter> set ms = {}" "finite (dom ?st)" using r by (simp_all add: pair_rep_def)
  have a: "?a \<noteq> 0" "?a \<notin> dom ?st" using m q(4) by (simp_all add: fresh_alloc_def)
  have u: "u8 (fst c) = fst c" "u8 (snd c) = snd c" using c by (simp_all add: byte_pair_def u8_id)
  from enqueue_rep[where malloc = malloc, OF q(1) a u(1)] obtain st1 q1 where
    e1: "enqueue malloc (fst c) (?st, qx p) = Some (st1, q1)" "qrep st1 q1 (ns @ [?a]) (map fst cs @ [fst c])"
      "\<forall>b. b \<notin> set ns \<and> b \<noteq> ?a \<longrightarrow> st1 b = ?st b" "dom st1 = insert ?a (dom ?st)" by blast
  have msd: "set ms \<subseteq> dom ?st" using q(2) chain_dom unfolding qrep_def by blast
  have q2: "qrep st1 (qy p) ms (map snd cs)"
    by (rule qrep_frame[OF q(2)]) (use e1(3) q(3) msd a(2) in blast)
  let ?b = "malloc st1"
  have fin: "finite (dom st1)" using e1(4) q(4) by simp
  then have b: "?b \<noteq> 0" "?b \<notin> dom st1" using m by (simp_all add: fresh_alloc_def)
  from enqueue_rep[where malloc = malloc, OF q2 b u(2)] obtain st2 q2' where
    e2: "enqueue malloc (snd c) (st1, qy p) = Some (st2, q2')" "qrep st2 q2' (ms @ [?b]) (map snd cs @ [snd c])"
      "\<forall>x. x \<notin> set ms \<and> x \<noteq> ?b \<longrightarrow> st2 x = st1 x" "dom st2 = insert ?b (dom st1)" by blast
  have nsd: "set (ns @ [?a]) \<subseteq> dom st1" using e1(2) chain_dom unfolding qrep_def by blast
  have disj: "set (ns @ [?a]) \<inter> set (ms @ [?b]) = {}" using q(3) msd a(2) nsd b(2) by auto
  have "qrep st2 q1 (ns @ [?a]) (map fst cs @ [fst c])"
    by (rule qrep_frame[OF e1(2)]) (use e2(3) disj in auto)
  then have "pair_rep \<lparr>mem = st2, qx = q1, qy = q2'\<rparr> (ns @ [?a]) (ms @ [?b]) (cs @ [c])"
    using e2(2,4) disj fin by (simp add: pair_rep_def)
  then show ?thesis using e1(1) e2(1) by (auto simp: enq_pair_def)
qed

lemma deq_pair_rep:
  assumes r: "pair_rep p ns ms (c # cs)"
  shows "\<exists>p' ns' ms'. deq_pair p = Some (c, p') \<and> pair_rep p' ns' ms' cs"
proof -
  let ?st = "mem p"
  have q: "qrep ?st (qx p) ns (fst c # map fst cs)" "qrep ?st (qy p) ms (snd c # map snd cs)"
    "set ns \<inter> set ms = {}" "finite (dom ?st)" using r by (simp_all add: pair_rep_def)
  from dequeue_rep[OF q(1)] obtain st1 q1 ns' where
    d1: "dequeue (?st, qx p) = Some (fst c, st1, q1)" "qrep st1 q1 ns' (map fst cs)" "set ns' \<subseteq> set ns"
      "\<forall>b. b \<notin> set ns \<longrightarrow> st1 b = ?st b" "dom st1 \<subseteq> dom ?st" by blast
  have q2: "qrep st1 (qy p) ms (snd c # map snd cs)"
    by (rule qrep_frame[OF q(2)]) (use d1(4) q(3) in auto)
  from dequeue_rep[OF q2] obtain st2 q2' ms' where
    d2: "dequeue (st1, qy p) = Some (snd c, st2, q2')" "qrep st2 q2' ms' (map snd cs)" "set ms' \<subseteq> set ms"
      "\<forall>b. b \<notin> set ms \<longrightarrow> st2 b = st1 b" "dom st2 \<subseteq> dom st1" by blast
  have "qrep st2 q1 ns' (map fst cs)"
    by (rule qrep_frame[OF d1(2)]) (use d2(4) d1(3) q(3) in auto)
  moreover have "finite (dom st2)" using d1(5) d2(5) q(4) by (meson finite_subset)
  moreover have "set ns' \<inter> set ms' = {}" using d1(3) d2(3) q(3) by auto
  ultimately have "pair_rep \<lparr>mem = st2, qx = q1, qy = q2'\<rparr> ns' ms' cs"
    using d2(2) by (simp add: pair_rep_def)
  then show ?thesis using d1(1) d2(1) by (auto simp: deq_pair_def)
qed

interpretation point_fifo: fifo "enq_pair malloc" deq_pair "\<lambda>p. is_empty (qx p)" pair_cont "pair_inv malloc" byte_pair
  for malloc
proof
  fix q :: pair_queue and a as
  assume inv: "pair_inv malloc q"
  then obtain ns ms cs where m: "fresh_alloc malloc" and r: "pair_rep q ns ms cs" by (auto simp: pair_inv_def)
  note cs = pair_cont_eq[OF r]
  show "\<exists>q'. enq_pair malloc a q = Some q' \<and> pair_inv malloc q' \<and> pair_cont q' = pair_cont q @ [a]"
    if "byte_pair a"
    using enq_pair_rep[OF m r that] pair_cont_eq m cs by (fastforce simp: pair_inv_def)
  show "\<exists>q'. deq_pair q = Some (a, q') \<and> pair_inv malloc q' \<and> pair_cont q' = as" if "pair_cont q = a # as"
    using deq_pair_rep[of q ns ms a as] r that cs pair_cont_eq m by (fastforce simp: pair_inv_def)
  show "is_empty (qx q) = (pair_cont q = [])"
    using r cs chain_zero chain_length by (fastforce simp: is_empty_def pair_rep_def qrep_def split: list.splits)
qed

lemma new_pair_inv:
  assumes "fresh_alloc malloc" and "finite (dom st)"
  shows "pair_inv malloc (new_pair st)" and "pair_cont (new_pair st) = []"
proof -
  have "pair_rep (new_pair st) [] [] []"
    using assms by (simp add: pair_rep_def new_pair_def CreateQueue_def qrep_def)
  then show "pair_inv malloc (new_pair st)" "pair_cont (new_pair st) = []"
    using assms(1) pair_cont_eq by (auto simp: pair_inv_def)
qed

section \<open>Properties\<close>

primrec enq_points :: "(store \<Rightarrow> int) \<Rightarrow> (int \<times> int) list \<Rightarrow> pair_queue \<Rightarrow> pair_queue option" where
  "enq_points malloc [] p = Some p"
| "enq_points malloc (c # cs) p = (case enq_pair malloc c p of None \<Rightarrow> None | Some p' \<Rightarrow> enq_points malloc cs p')"

primrec deq_points :: "nat \<Rightarrow> pair_queue \<Rightarrow> ((int \<times> int) list \<times> pair_queue) option" where
  "deq_points 0 p = Some ([], p)"
| "deq_points (Suc n) p = (case deq_pair p of None \<Rightarrow> None
     | Some (c, p') \<Rightarrow> map_option (\<lambda>(cs, p''). (c # cs, p'')) (deq_points n p'))"

lemma enq_points_eq: "enq_points malloc cs p = point_fifo.enq_list malloc cs p"
  by (induction cs arbitrary: p) (auto split: option.split)

lemma deq_points_eq: "deq_points n p = point_fifo.deq_list n p"
  by (induction n arbitrary: p) (auto split: option.split)


text \<open>An allocator: one above the highest address in use.\<close>

definition bump :: "store \<Rightarrow> int" where
  "bump st = Max (insert 0 (dom st)) + 1"

lemma fresh_bump: "fresh_alloc bump"
proof -
  have "bump st \<noteq> 0 \<and> bump st \<notin> dom st" if f: "finite (dom st)" for st
  proof -
    have "x \<le> Max (insert 0 (dom st))" if "x \<in> insert 0 (dom st)" for x using that f by (intro Max_ge) simp_all
    from this[of 0] this[of "bump st"] show ?thesis by (auto simp: bump_def)
  qed
  then show ?thesis by (simp add: fresh_alloc_def)
qed


end
