(* ===== verification/Flood_Fill.thy ===== *)
theory Flood_Fill
  imports Point_Queue Soft_Float
begin

text \<open>
  The flood fill \<open>BFS\<close> of \<^verbatim>\<open>CODE/coor_pick.c\<close> over the binary picture \<open>img_origin\<close> (188 by
  120 bytes, 255 is white): it writes the label \<open>cnt\<close> into \<open>img\<close> (\<open>int8_t\<close>, -1 is unlabelled),
  accumulates \<open>block[cnt]\<close> and, when \<open>tag\<close> is set, collects in \<open>edge\<close> the cells of the other
  colour it meets. The outer \<^const>\<open>None\<close> is divergence, the inner one undefined behaviour.
\<close>

definition img_width :: int where "img_width = 188"
definition img_height :: int where "img_height = 120"
definition PIC_NUM :: int where "PIC_NUM = 25"
definition EDGE_NUM :: int where "EDGE_NUM = 3008"

text \<open>The field \<open>id\<close> of the C struct is never used.\<close>

record blob =
  num :: int
  sum_x :: int
  sum_y :: int
  aver_x :: f32
  aver_y :: f32

record fill =
  img :: "int arr2"
  block :: "blob arr"
  edge :: "(int \<times> int) arr"
  tot :: int
  que :: pair_queue

definition dirs :: "(int \<times> int) list" where
  "dirs = [(-1, 0), (0, -1), (1, 0), (0, 1), (-1, 1), (1, -1), (-1, -1), (1, 1)]"

definition is_picture :: "blob \<Rightarrow> bool" where
  "is_picture pic = (\<not> (num pic < 1 \<or> num pic > 25))"

text \<open>\<open>img[x][y] = cnt, ++block[cnt].num; block[cnt].sum_x += x, block[cnt].sum_y += y\<close>\<close>

definition mark :: "int \<Rightarrow> int \<Rightarrow> int \<Rightarrow> fill \<Rightarrow> fill option" where
  "mark cnt x y s = do {
     i \<leftarrow> wr2 img_width img_height (img s) x y (i8 cnt);
     b \<leftarrow> rd PIC_NUM (block s) cnt;
     bs \<leftarrow> wr PIC_NUM (block s) cnt (b\<lparr>num := num b + 1, sum_x := sum_x b + x, sum_y := sum_y b + y\<rparr>);
     Some (s\<lparr>img := i, block := bs\<rparr>)
   }"

definition push_point :: "(store \<Rightarrow> int) \<Rightarrow> int \<Rightarrow> int \<Rightarrow> fill \<Rightarrow> fill option" where
  "push_point malloc x y s = map_option (\<lambda>q. s\<lparr>que := q\<rparr>) (enq_pair malloc (x, y) (que s))"

text \<open>One neighbour of the cell \<open>(nx, ny)\<close> taken from the queue.\<close>

definition look :: "(store \<Rightarrow> int) \<Rightarrow> int arr2 \<Rightarrow> bool \<Rightarrow> int \<Rightarrow> int \<Rightarrow> int \<Rightarrow> int \<times> int \<Rightarrow> fill \<Rightarrow> fill option" where
  "look malloc orig tag cnt x y d s =
     (let dx = x + fst d; dy = y + snd d in
      if dx < 0 \<or> dx \<ge> img_width \<or> dy < 0 \<or> dy \<ge> img_height \<or> img s dx dy \<noteq> - 1 then Some s
      else do {
        a \<leftarrow> rd2 img_width img_height orig x y;
        b \<leftarrow> rd2 img_width img_height orig dx dy;
        if (a = 255) \<noteq> (b = 255) then
          (if tag then do {
             e \<leftarrow> wr EDGE_NUM (edge s) (tot s) (u8 dx, u8 dy);
             Some (s\<lparr>edge := e, tot := tot s + 1\<rparr>)
           } else Some s)
        else do {
          s \<leftarrow> mark cnt dx dy s;
          push_point malloc dx dy s
        }
      })"

definition bfs_step :: "(store \<Rightarrow> int) \<Rightarrow> int arr2 \<Rightarrow> nat \<Rightarrow> bool \<Rightarrow> int \<Rightarrow> fill \<Rightarrow> fill option" where
  "bfs_step malloc orig k tag cnt s = do {
     (c, q) \<leftarrow> deq_pair (que s);
     for_list (look malloc orig tag cnt (fst c) (snd c)) (take k dirs) (s\<lparr>que := q\<rparr>)
   }"

definition bfs_start :: "(store \<Rightarrow> int) \<Rightarrow> int \<Rightarrow> int \<Rightarrow> int \<Rightarrow> fill \<Rightarrow> fill option" where
  "bfs_start malloc x y cnt s = do {
     s \<leftarrow> push_point malloc x y (s\<lparr>que := new_pair (mem (que s))\<rparr>);
     mark cnt x y s
   }"

definition BFS :: "(store \<Rightarrow> int) \<Rightarrow> int arr2 \<Rightarrow> int \<Rightarrow> int \<Rightarrow> int \<Rightarrow> nat \<Rightarrow> bool \<Rightarrow> fill \<Rightarrow> fill option option" where
  "BFS malloc orig x y cnt k tag s =
     (case bfs_start malloc x y cnt s of None \<Rightarrow> Some None
      | Some s \<Rightarrow> while_ub (\<lambda>s. \<not> is_empty (qx (que s))) (bfs_step malloc orig k tag cnt) s)"

section \<open>The component of a cell\<close>

type_synonym cell = "int \<times> int"

definition in_img :: "cell \<Rightarrow> bool" where
  "in_img c \<longleftrightarrow> 0 \<le> fst c \<and> fst c < img_width \<and> 0 \<le> snd c \<and> snd c < img_height"

definition white :: "int arr2 \<Rightarrow> cell \<Rightarrow> bool" where
  "white orig c \<longleftrightarrow> orig (fst c) (snd c) = 255"

definition add_dir :: "cell \<Rightarrow> int \<times> int \<Rightarrow> cell" where
  "add_dir c d = (fst c + fst d, snd c + snd d)"

text \<open>The fill goes from \<open>c\<close> to \<open>e\<close>: \<open>e\<close> is in the picture, unlabelled and of the same colour.\<close>

definition flows :: "int arr2 \<Rightarrow> int arr2 \<Rightarrow> cell \<Rightarrow> cell \<Rightarrow> bool" where
  "flows orig img0 c e \<longleftrightarrow> in_img e \<and> img0 (fst e) (snd e) = - 1 \<and> white orig c = white orig e"

inductive comp :: "int arr2 \<Rightarrow> int arr2 \<Rightarrow> nat \<Rightarrow> cell \<Rightarrow> cell \<Rightarrow> bool" for orig img0 k st where
  comp_start: "comp orig img0 k st st"
| comp_step: "comp orig img0 k st c \<Longrightarrow> d \<in> set (take k dirs) \<Longrightarrow> flows orig img0 c (add_dir c d) \<Longrightarrow>
    comp orig img0 k st (add_dir c d)"

lemma comp_img: "comp orig img0 k st c \<Longrightarrow> in_img st \<Longrightarrow> in_img c"
  by (induction rule: comp.induct) (auto simp: flows_def)

definition component :: "int arr2 \<Rightarrow> int arr2 \<Rightarrow> nat \<Rightarrow> cell \<Rightarrow> cell set" where
  "component orig img0 k st = {c. comp orig img0 k st c}"

lemma finite_img: "finite {c. in_img c}"
proof (rule finite_subset)
  show "{c. in_img c} \<subseteq> {0..img_width} \<times> {0..img_height}" by (auto simp: in_img_def)
qed simp

lemma finite_component: "in_img st \<Longrightarrow> finite (component orig img0 k st)"
  by (rule finite_subset[OF _ finite_img]) (auto simp: component_def comp_img)

section \<open>The invariant of the fill\<close>

definition grown :: "blob \<Rightarrow> cell set \<Rightarrow> blob" where
  "grown b L = b\<lparr>num := num b + int (card L), sum_x := sum_x b + (\<Sum>c\<in>L. fst c), sum_y := sum_y b + (\<Sum>c\<in>L. snd c)\<rparr>"

definition filled :: "(store \<Rightarrow> int) \<Rightarrow> int arr2 \<Rightarrow> nat \<Rightarrow> bool \<Rightarrow> int \<Rightarrow> cell \<Rightarrow> fill \<Rightarrow> cell set \<Rightarrow> fill \<Rightarrow> bool" where
  "filled malloc orig k tag cnt st s0 L s \<longleftrightarrow>
     st \<in> L \<and> L \<subseteq> component orig (img s0) k st
     \<and> (\<forall>c. img s (fst c) (snd c) = (if c \<in> L then cnt else img s0 (fst c) (snd c)))
     \<and> block s = (block s0)(cnt := grown (block s0 cnt) L)
     \<and> pair_inv malloc (que s) \<and> set (pair_cont (que s)) \<subseteq> L
     \<and> (\<not> tag \<longrightarrow> edge s = edge s0 \<and> tot s = tot s0)"

definition closed_in :: "int arr2 \<Rightarrow> int arr2 \<Rightarrow> cell set \<Rightarrow> (int \<times> int) list \<Rightarrow> cell \<Rightarrow> bool" where
  "closed_in orig img0 L ds c \<longleftrightarrow> (\<forall>d \<in> set ds. flows orig img0 c (add_dir c d) \<longrightarrow> add_dir c d \<in> L)"

definition fill_measure :: "fill \<Rightarrow> nat" where
  "fill_measure s = card {c. in_img c \<and> img s (fst c) (snd c) = - 1} + length (pair_cont (que s))"

text \<open>The assumptions shared by the lemmas: a fresh allocator, a free start and a valid label.\<close>

definition fill_pre :: "(store \<Rightarrow> int) \<Rightarrow> int \<Rightarrow> cell \<Rightarrow> fill \<Rightarrow> bool" where
  "fill_pre malloc cnt st s0 \<longleftrightarrow> fresh_alloc malloc \<and> 0 \<le> cnt \<and> cnt < PIC_NUM
     \<and> in_img st \<and> img s0 (fst st) (snd st) = - 1"

lemma in_img_byte: "in_img c \<Longrightarrow> byte_pair c"
  by (simp add: in_img_def byte_pair_def img_width_def img_height_def)

lemma grown_insert:
  assumes "finite L" and "c \<notin> L"
  shows "grown b (insert c L) = (grown b L)\<lparr>num := num (grown b L) + 1,
    sum_x := sum_x (grown b L) + fst c, sum_y := sum_y (grown b L) + snd c\<rparr>"
  using assms by (simp add: grown_def algebra_simps)

lemma mark_ok:
  assumes "0 \<le> cnt" "cnt < PIC_NUM" "in_img c"
  shows "mark cnt (fst c) (snd c) s = Some (s\<lparr>img := (img s)(fst c := (img s (fst c))(snd c := cnt)),
    block := (block s)(cnt := (block s cnt)\<lparr>num := num (block s cnt) + 1,
      sum_x := sum_x (block s cnt) + fst c, sum_y := sum_y (block s cnt) + snd c\<rparr>)\<rparr>)"
  using assms by (simp add: mark_def in_img_def c_simps PIC_NUM_def)

text \<open>Labelling a further cell of the component and putting it into the queue.\<close>

lemma fill_one:
  assumes pre: "fill_pre malloc cnt st s0" and inv: "filled malloc orig k tag cnt st s0 L s"
    and c: "c \<notin> L" "c \<in> component orig (img s0) k st" "img s0 (fst c) (snd c) = - 1"
  shows "\<exists>s'. do { s \<leftarrow> mark cnt (fst c) (snd c) s; push_point malloc (fst c) (snd c) s } = Some s'
    \<and> filled malloc orig k tag cnt st s0 (insert c L) s'
    \<and> pair_cont (que s') = pair_cont (que s) @ [c] \<and> fill_measure s' = fill_measure s"
proof -
  have st: "in_img st" and cnt: "0 \<le> cnt" "cnt < PIC_NUM" using pre by (simp_all add: fill_pre_def)
  have ci: "in_img c" using c(2) st comp_img by (auto simp: component_def)
  have "L \<subseteq> component orig (img s0) k st" using inv unfolding filled_def by blast
  then have fin: "finite L" using finite_component[OF st] by (rule finite_subset)
  have pi: "pair_inv malloc (que s)" using inv by (simp add: filled_def)
  from point_fifo.enq_ok[OF pi in_img_byte[OF ci]] obtain q where
    q: "enq_pair malloc c (que s) = Some q" "pair_inv malloc q" "pair_cont q = pair_cont (que s) @ [c]" by blast
  let ?b = "block s cnt"
  let ?s' = "s\<lparr>img := (img s)(fst c := (img s (fst c))(snd c := cnt)),
    block := (block s)(cnt := ?b\<lparr>num := num ?b + 1, sum_x := sum_x ?b + fst c, sum_y := sum_y ?b + snd c\<rparr>),
    que := q\<rparr>"
  have run: "do { s \<leftarrow> mark cnt (fst c) (snd c) s; push_point malloc (fst c) (snd c) s } = Some ?s'"
    using mark_ok[OF cnt ci] q(1) by (simp add: push_point_def)
  have b: "?b = grown (block s0 cnt) L" "block s = (block s0)(cnt := ?b)" using inv by (simp_all add: filled_def)
  have img': "img ?s' (fst e) (snd e) = (if e = c then cnt else img s (fst e) (snd e))" for e
    by (auto simp: prod_eq_iff)
  have bl: "block ?s' = (block s0)(cnt := grown (block s0 cnt) (insert c L))"
    unfolding grown_insert[OF fin c(1)] b(1)[symmetric] using b(2) by (simp add: fun_upd_idem_iff) (metis fun_upd_upd)
  have "filled malloc orig k tag cnt st s0 (insert c L) ?s'"
    unfolding filled_def bl img' using inv c q by (auto simp: filled_def)
  moreover have "fill_measure ?s' = fill_measure s"
  proof -
    have "img s (fst c) (snd c) = - 1" using inv c(1,3) by (simp add: filled_def)
    then have "{e. in_img e \<and> img s (fst e) (snd e) = - 1} = insert c {e. in_img e \<and> img ?s' (fst e) (snd e) = - 1}"
      using ci unfolding img' using cnt by auto
    moreover have "c \<notin> {e. in_img e \<and> img ?s' (fst e) (snd e) = - 1}" unfolding img' using cnt by simp
    moreover have "finite {e. in_img e \<and> img ?s' (fst e) (snd e) = - 1}"
      using finite_subset[OF _ finite_img] by auto
    ultimately show ?thesis using q(3) by (simp add: fill_measure_def)
  qed
  ultimately show ?thesis using run q(3) by (intro exI[of _ ?s']) simp
qed

text \<open>One neighbour.\<close>

lemma look_ok:
  assumes pre: "fill_pre malloc cnt st s0" and inv: "filled malloc orig k tag cnt st s0 L s"
    and c: "c \<in> L" and d: "d \<in> set (take k dirs)"
  shows "(tag \<and> look malloc orig tag cnt (fst c) (snd c) d s = None)
    \<or> (\<exists>s' L'. look malloc orig tag cnt (fst c) (snd c) d s = Some s'
        \<and> filled malloc orig k tag cnt st s0 L' s' \<and> L \<subseteq> L' \<and> L' - L \<subseteq> set (pair_cont (que s'))
        \<and> set (pair_cont (que s)) \<subseteq> set (pair_cont (que s'))
        \<and> closed_in orig (img s0) L' [d] c \<and> fill_measure s' = fill_measure s)"
proof -
  let ?e = "add_dir c d"
  have st: "in_img st" and cnt: "0 \<le> cnt" "cnt < PIC_NUM" using pre by (simp_all add: fill_pre_def)
  have cc: "c \<in> component orig (img s0) k st" using inv c unfolding filled_def by blast
  then have ci: "in_img c" using st comp_img by (auto simp: component_def)
  have im: "img s (fst ?e) (snd ?e) = (if ?e \<in> L then cnt else img s0 (fst ?e) (snd ?e))"
    using inv unfolding filled_def by blast
  have fs: "fst ?e = fst c + fst d" "snd ?e = snd c + snd d" by (simp_all add: add_dir_def)
  have skip: ?thesis if "look malloc orig tag cnt (fst c) (snd c) d s = Some s"
    "flows orig (img s0) c ?e \<longrightarrow> ?e \<in> L"
    using that inv by (auto simp: closed_in_def)
  show ?thesis
  proof (cases "in_img ?e \<and> img s (fst ?e) (snd ?e) = - 1")
    case False
    have "look malloc orig tag cnt (fst c) (snd c) d s = Some s"
      using False unfolding look_def Let_def fs[symmetric] in_img_def by auto
    moreover have "?e \<in> L" if "flows orig (img s0) c ?e"
      using that False im by (auto simp: flows_def split: if_splits)
    ultimately show ?thesis using skip by blast
  next
    case True
    then have enL: "?e \<notin> L" "img s0 (fst ?e) (snd ?e) = - 1" using im cnt by (auto split: if_splits)
    have rd: "rd2 img_width img_height orig (fst c) (snd c) = Some (orig (fst c) (snd c))"
      "rd2 img_width img_height orig (fst ?e) (snd ?e) = Some (orig (fst ?e) (snd ?e))"
      using ci True by (simp_all add: in_img_def rd2_def)
    have go: "look malloc orig tag cnt (fst c) (snd c) d s = (if white orig c \<noteq> white orig ?e then
          (if tag then do {
             e \<leftarrow> wr EDGE_NUM (edge s) (tot s) (u8 (fst ?e), u8 (snd ?e));
             Some (s\<lparr>edge := e, tot := tot s + 1\<rparr>)
           } else Some s)
        else do { s \<leftarrow> mark cnt (fst ?e) (snd ?e) s; push_point malloc (fst ?e) (snd ?e) s })"
      using True rd unfolding look_def Let_def fs[symmetric] in_img_def white_def by auto
    show ?thesis
    proof (cases "white orig c = white orig ?e")
      case same: True
      then have "flows orig (img s0) c ?e" using True enL by (simp add: flows_def)
      then have ec: "?e \<in> component orig (img s0) k st"
        using cc d comp_step by (auto simp: component_def)
      from fill_one[OF pre inv enL(1) ec enL(2)] obtain s' where s':
        "do { s \<leftarrow> mark cnt (fst ?e) (snd ?e) s; push_point malloc (fst ?e) (snd ?e) s } = Some s'"
        "filled malloc orig k tag cnt st s0 (insert ?e L) s'"
        "pair_cont (que s') = pair_cont (que s) @ [?e]" "fill_measure s' = fill_measure s" by blast
      have "look malloc orig tag cnt (fst c) (snd c) d s = Some s'" using go same s'(1) by simp
      then show ?thesis using s'(2-4) by (intro disjI2 exI[of _ s'] exI[of _ "insert ?e L"]) (auto simp: closed_in_def)
    next
      case diff: False
      then have nf: "\<not> flows orig (img s0) c ?e" by (simp add: flows_def)
      show ?thesis
      proof (cases tag)
        case False
        then show ?thesis using skip go diff nf by simp
      next
        case True
        show ?thesis
        proof (cases "wr EDGE_NUM (edge s) (tot s) (u8 (fst ?e), u8 (snd ?e))")
          case None
          then show ?thesis using go diff True by simp
        next
          case (Some e')
          let ?s' = "s\<lparr>edge := e', tot := tot s + 1\<rparr>"
          have "look malloc orig tag cnt (fst c) (snd c) d s = Some ?s'" using go diff True Some by simp
          moreover have "filled malloc orig k tag cnt st s0 L ?s'" using inv True by (simp add: filled_def)
          moreover have "fill_measure ?s' = fill_measure s" by (simp add: fill_measure_def)
          ultimately show ?thesis using nf by (intro disjI2 exI[of _ ?s'] exI[of _ L]) (auto simp: closed_in_def)
        qed
      qed
    qed
  qed
qed

lemma look_list_ok:
  assumes pre: "fill_pre malloc cnt st s0" and inv: "filled malloc orig k tag cnt st s0 L s"
    and c: "c \<in> L" and ds: "set ds \<subseteq> set (take k dirs)"
  shows "(tag \<and> for_list (look malloc orig tag cnt (fst c) (snd c)) ds s = None)
    \<or> (\<exists>s' L'. for_list (look malloc orig tag cnt (fst c) (snd c)) ds s = Some s'
        \<and> filled malloc orig k tag cnt st s0 L' s' \<and> L \<subseteq> L' \<and> L' - L \<subseteq> set (pair_cont (que s'))
        \<and> set (pair_cont (que s)) \<subseteq> set (pair_cont (que s'))
        \<and> closed_in orig (img s0) L' ds c \<and> fill_measure s' = fill_measure s)"
  using inv c ds
proof (induction ds arbitrary: L s)
  case Nil
  then show ?case by (auto simp: closed_in_def)
next
  case (Cons d ds)
  let ?f = "look malloc orig tag cnt (fst c) (snd c)"
  have d: "d \<in> set (take k dirs)" "set ds \<subseteq> set (take k dirs)" using Cons.prems(3) by simp_all
  show ?case
  proof (cases "?f d s")
    case None
    then show ?thesis using look_ok[OF pre Cons.prems(1,2) d(1)] by auto
  next
    case (Some s1)
    then obtain L1 where 1: "filled malloc orig k tag cnt st s0 L1 s1" "L \<subseteq> L1" "L1 - L \<subseteq> set (pair_cont (que s1))"
      "set (pair_cont (que s)) \<subseteq> set (pair_cont (que s1))"
      "closed_in orig (img s0) L1 [d] c" "fill_measure s1 = fill_measure s"
      using look_ok[OF pre Cons.prems(1,2) d(1)] by auto
    have "c \<in> L1" using 1(2) Cons.prems(2) by auto
    from Cons.IH[OF 1(1) this d(2)] show ?thesis
    proof (elim disjE exE conjE)
      assume "tag" "for_list ?f ds s1 = None"
      then show ?thesis using Some by simp
    next
      fix s' L'
      assume 2: "for_list ?f ds s1 = Some s'" "filled malloc orig k tag cnt st s0 L' s'" "L1 \<subseteq> L'"
        "L' - L1 \<subseteq> set (pair_cont (que s'))" "set (pair_cont (que s1)) \<subseteq> set (pair_cont (que s'))"
        "closed_in orig (img s0) L' ds c" "fill_measure s' = fill_measure s1"
      have "closed_in orig (img s0) L' (d # ds) c" using 1(5) 2(3,6) unfolding closed_in_def by auto
      then show ?thesis using Some 1 2 by (intro disjI2 exI[of _ s'] exI[of _ L']) auto
    qed
  qed
qed

section \<open>The loop\<close>

definition bfs_inv :: "(store \<Rightarrow> int) \<Rightarrow> int arr2 \<Rightarrow> nat \<Rightarrow> bool \<Rightarrow> int \<Rightarrow> cell \<Rightarrow> fill \<Rightarrow> fill \<Rightarrow> bool" where
  "bfs_inv malloc orig k tag cnt st s0 s \<longleftrightarrow>
     (\<exists>L. filled malloc orig k tag cnt st s0 L s
        \<and> (\<forall>c \<in> L - set (pair_cont (que s)). closed_in orig (img s0) L (take k dirs) c))"

lemma bfs_step_ok:
  assumes pre: "fill_pre malloc cnt st s0" and inv: "bfs_inv malloc orig k tag cnt st s0 s"
    and ne: "\<not> is_empty (qx (que s))"
  shows "(tag \<and> bfs_step malloc orig k tag cnt s = None)
    \<or> (\<exists>s'. bfs_step malloc orig k tag cnt s = Some s' \<and> bfs_inv malloc orig k tag cnt st s0 s'
         \<and> fill_measure s' < fill_measure s)"
proof -
  from inv obtain L where L: "filled malloc orig k tag cnt st s0 L s"
    and cl: "\<And>c. c \<in> L \<Longrightarrow> c \<notin> set (pair_cont (que s)) \<Longrightarrow> closed_in orig (img s0) L (take k dirs) c"
    by (auto simp: bfs_inv_def)
  have pi: "pair_inv malloc (que s)" using L by (simp add: filled_def)
  then obtain c cs where cs: "pair_cont (que s) = c # cs"
    using ne point_fifo.empty_ok[OF pi] by (cases "pair_cont (que s)") auto
  from point_fifo.deq_ok[OF pi cs] obtain q where
    q: "deq_pair (que s) = Some (c, q)" "pair_inv malloc q" "pair_cont q = cs" by blast
  let ?s = "s\<lparr>que := q\<rparr>"
  have c: "c \<in> L" using L cs by (auto simp: filled_def)
  have L1: "filled malloc orig k tag cnt st s0 L ?s" using L q cs by (auto simp: filled_def)
  have m1: "fill_measure ?s < fill_measure s" using q cs by (simp add: fill_measure_def)
  have eq: "bfs_step malloc orig k tag cnt s
      = for_list (look malloc orig tag cnt (fst c) (snd c)) (take k dirs) ?s"
    using q(1) by (simp add: bfs_step_def)
  from look_list_ok[OF pre L1 c order_refl] show ?thesis
  proof (elim disjE exE conjE)
    fix s' L'
    assume 2: "for_list (look malloc orig tag cnt (fst c) (snd c)) (take k dirs) ?s = Some s'"
      "filled malloc orig k tag cnt st s0 L' s'" "L \<subseteq> L'" "L' - L \<subseteq> set (pair_cont (que s'))"
      "set (pair_cont (que ?s)) \<subseteq> set (pair_cont (que s'))" "closed_in orig (img s0) L' (take k dirs) c"
      "fill_measure s' = fill_measure ?s"
    have "closed_in orig (img s0) L' (take k dirs) e" if e: "e \<in> L'" "e \<notin> set (pair_cont (que s'))" for e
    proof (cases "e = c")
      case True
      then show ?thesis using 2(6) by simp
    next
      case False
      then have "e \<in> L" "e \<notin> set (pair_cont (que s))" using e 2(4,5) q(3) cs by auto
      then show ?thesis using cl 2(3) unfolding closed_in_def by blast
    qed
    then have "bfs_inv malloc orig k tag cnt st s0 s'" using 2(2) by (auto simp: bfs_inv_def)
    then show ?thesis using 2(1,7) m1 eq by auto
  qed (use eq in auto)
qed

lemma bfs_closed:
  assumes "filled malloc orig k tag cnt st s0 L s"
    and "\<And>c. c \<in> L \<Longrightarrow> closed_in orig (img s0) L (take k dirs) c"
  shows "L = component orig (img s0) k st"
proof
  show "L \<subseteq> component orig (img s0) k st" using assms(1) unfolding filled_def by blast
  have "c \<in> L" if "comp orig (img s0) k st c" for c
    using that
  proof induction
    case comp_start
    then show ?case using assms(1) by (simp add: filled_def)
  next
    case (comp_step c d)
    then show ?case using assms(2)[of c] by (auto simp: closed_in_def)
  qed
  then show "component orig (img s0) k st \<subseteq> L" by (auto simp: component_def)
qed

lemma bfs_start_ok:
  assumes pre: "fill_pre malloc cnt (x, y) s" and fin: "finite (dom (mem (que s)))"
  shows "\<exists>s1. bfs_start malloc x y cnt s = Some s1 \<and> bfs_inv malloc orig k tag cnt (x, y) s s1"
proof -
  have cnt: "0 \<le> cnt" "cnt < PIC_NUM" and xy: "in_img (x, y)" and fa: "fresh_alloc malloc"
    using pre by (simp_all add: fill_pre_def)
  note new = new_pair_inv[OF fa fin]
  from point_fifo.enq_ok[OF new(1) in_img_byte[OF xy]] new(2) obtain q where
    q: "enq_pair malloc (x, y) (new_pair (mem (que s))) = Some q" "pair_inv malloc q" "pair_cont q = [(x, y)]"
    by auto
  let ?s = "s\<lparr>que := q\<rparr>"
  let ?b = "block s cnt"
  let ?s1 = "?s\<lparr>img := (img s)(x := (img s x)(y := cnt)),
    block := (block s)(cnt := ?b\<lparr>num := num ?b + 1, sum_x := sum_x ?b + x, sum_y := sum_y ?b + y\<rparr>)\<rparr>"
  have "bfs_start malloc x y cnt s = Some ?s1"
    using q(1) mark_ok[OF cnt xy, of ?s] by (simp add: bfs_start_def push_point_def)
  moreover have "filled malloc orig k tag cnt (x, y) s {(x, y)} ?s1"
    using q(2,3) comp_start by (auto simp: filled_def component_def grown_def)
  then have "bfs_inv malloc orig k tag cnt (x, y) s ?s1" unfolding bfs_inv_def
    using q(3) by (intro exI[of _ "{(x, y)}"]) simp
  ultimately show ?thesis by blast
qed

lemma bfs_result:
  assumes pre: "fill_pre malloc cnt (x, y) s" and fin: "finite (dom (mem (que s)))"
  shows "(tag \<and> BFS malloc orig x y cnt k tag s = Some None)
    \<or> (\<exists>s'. BFS malloc orig x y cnt k tag s = Some (Some s')
        \<and> filled malloc orig k tag cnt (x, y) s (component orig (img s) k (x, y)) s')"
proof -
  from bfs_start_ok[OF pre fin] obtain s1 where
    s1: "bfs_start malloc x y cnt s = Some s1" "bfs_inv malloc orig k tag cnt (x, y) s s1" by blast
  let ?I = "bfs_inv malloc orig k tag cnt (x, y) s" and ?b = "\<lambda>s. \<not> is_empty (qx (que s))"
  let ?W = "while_ub ?b (bfs_step malloc orig k tag cnt) s1"
  have "(tag \<and> ?W = Some None) \<or> (\<exists>t. ?W = Some (Some t) \<and> ?I t \<and> \<not> ?b t)"
  proof (cases tag)
    case True
    then show ?thesis
      using while_ub_wf[OF wf_measure[of fill_measure], where I = ?I and b = ?b
          and c = "bfs_step malloc orig k tag cnt", OF s1(2)] bfs_step_ok[OF pre] by fastforce
  next
    case False
    then show ?thesis
      using while_ub_total[OF wf_measure[of fill_measure], where I = ?I and b = ?b
          and c = "bfs_step malloc orig k tag cnt", OF s1(2)] bfs_step_ok[OF pre] by fastforce
  qed
  then show ?thesis
  proof (elim disjE exE conjE)
    fix t assume t: "?W = Some (Some t)" "?I t" "\<not> ?b t"
    from t(2) obtain L where L: "filled malloc orig k tag cnt (x, y) s L t"
      "\<forall>c \<in> L - set (pair_cont (que t)). closed_in orig (img s) L (take k dirs) c" by (auto simp: bfs_inv_def)
    have "pair_inv malloc (que t)" using L(1) by (simp add: filled_def)
    then have "pair_cont (que t) = []" using t(3) point_fifo.empty_ok by blast
    then have "L = component orig (img s) k (x, y)" using bfs_closed[OF L(1)] L(2) by simp
    then show ?thesis using t(1) s1(1) L(1) by (auto simp: BFS_def)
  qed (use s1(1) in \<open>auto simp: BFS_def\<close>)
qed


definition blank_fill :: fill where
  "blank_fill = \<lparr>img = \<lambda>_ _. - 1, block = \<lambda>_. \<lparr>num = 0, sum_x = 0, sum_y = 0, aver_x = 0, aver_y = 0\<rparr>,
     edge = \<lambda>_. (0, 0), tot = 0, que = new_pair Map.empty\<rparr>"


end
