(* ===== verification/Template_Match.thy ===== *)
theory Template_Match
  imports C_Prelude
begin

text \<open>
  The matching of an 11 by 11 template at a position of a picture, as both corner searches of
  the program do it (\<open>get_smlarA4\<close> in \<^verbatim>\<open>CODE/coor_pick.c\<close>, \<open>get_similarity\<close> in
  \<^verbatim>\<open>CODE/pic_pick.c\<close>): the differences are summed cell by cell, a row is left when the sum
  exceeds a limit, and the position counts only when all 121 cells were visited. The searches
  differ in what a cell costs and in the limit, which are the parameters \<open>cost\<close> and \<open>lim\<close>.
\<close>

definition COR_H :: int where "COR_H = 11"
definition COR_W :: int where "COR_W = 11"

text \<open>
  \<open>row_match\<close> runs along one row of the template and is left when the sum exceeds the limit;
  the outer loop goes on with the next row all the same.
\<close>

fun row_match :: "(int \<Rightarrow> int \<Rightarrow> int) \<Rightarrow> int \<Rightarrow> (int \<Rightarrow> int) \<Rightarrow> int list \<Rightarrow> int \<Rightarrow> int \<times> int \<Rightarrow> int \<times> int" where
  "row_match cost lim px [] l (dif, cnt1) = (dif, cnt1)"
| "row_match cost lim px (t # ts) l (dif, cnt1) =
     (let dif = dif + cost (px l) t
      in if dif > lim then (dif, cnt1) else row_match cost lim px ts (l + 1) (dif, cnt1 + 1))"

fun tmpl_match :: "(int \<Rightarrow> int \<Rightarrow> int) \<Rightarrow> int \<Rightarrow> (int \<Rightarrow> int \<Rightarrow> int) \<Rightarrow> int list list \<Rightarrow> int \<Rightarrow> int \<times> int \<Rightarrow> int \<times> int" where
  "tmpl_match cost lim px [] k s = s"
| "tmpl_match cost lim px (r # rs) k s = tmpl_match cost lim px rs (k + 1) (row_match cost lim (px k) r 0 s)"

text \<open>
  One position. The best sum so far is a \<open>float\<close> in \<open>get_smlarA4\<close>, but starts as 100 and then
  holds a small integer, so it is kept as an integer.
\<close>

definition corner_at :: "(int \<Rightarrow> int \<Rightarrow> int) \<Rightarrow> int \<Rightarrow> (int \<Rightarrow> int \<Rightarrow> int) \<Rightarrow> int list list \<Rightarrow> int \<Rightarrow> int \<Rightarrow>
    int \<times> int \<times> int \<Rightarrow> int \<times> int \<times> int" where
  "corner_at cost lim px tm i j s =
     (let (smlar, c) = s;
          (dif, cnt1) = tmpl_match cost lim (\<lambda>k l. px (i + k) (j + l)) tm 0 (0, 0)
      in if cnt1 = COR_H * COR_W \<and> smlar > dif then (dif, i, j) else (smlar, c))"

section \<open>The full sum\<close>

primrec row_score :: "(int \<Rightarrow> int \<Rightarrow> int) \<Rightarrow> (int \<Rightarrow> int) \<Rightarrow> int list \<Rightarrow> int \<Rightarrow> int" where
  "row_score cost px [] l = 0"
| "row_score cost px (t # ts) l = cost (px l) t + row_score cost px ts (l + 1)"

primrec tmpl_score :: "(int \<Rightarrow> int \<Rightarrow> int) \<Rightarrow> (int \<Rightarrow> int \<Rightarrow> int) \<Rightarrow> int list list \<Rightarrow> int \<Rightarrow> int" where
  "tmpl_score cost px [] k = 0"
| "tmpl_score cost px (r # rs) k = row_score cost (px k) r 0 + tmpl_score cost px rs (k + 1)"

definition score_at :: "(int \<Rightarrow> int \<Rightarrow> int) \<Rightarrow> (int \<Rightarrow> int \<Rightarrow> int) \<Rightarrow> int list list \<Rightarrow> int \<times> int \<Rightarrow> int" where
  "score_at cost px tm c = tmpl_score cost (\<lambda>k l. px (fst c + k) (snd c + l)) tm 0"

definition full_tmpl :: "int list list \<Rightarrow> bool" where
  "full_tmpl tm \<longleftrightarrow> (\<forall>r \<in> set tm. r \<noteq> []) \<and> length (concat tm) = 121 \<and> tm \<noteq> []"

section \<open>The early exits lose nothing\<close>

text \<open>The laws of a cost, and what the match of a template gives under them.\<close>

locale cell_cost =
  fixes cost :: "int \<Rightarrow> int \<Rightarrow> int" and lim :: int
  assumes cost_nonneg: "0 \<le> cost p t" and lim_range: "0 \<le> lim" "lim < 100"
begin

lemma row_score_nonneg: "0 \<le> row_score cost px ts l"
  by (induction ts arbitrary: l) (auto simp: cost_nonneg)

lemma tmpl_score_nonneg: "0 \<le> tmpl_score cost px rs k"
  by (induction rs arbitrary: k) (auto simp: row_score_nonneg add_nonneg_nonneg)

lemma row_match_score:
  "if d + row_score cost px ts l \<le> lim then row_match cost lim px ts l (d, n) = (d + row_score cost px ts l, n + int (length ts))
   else ts = [] \<and> row_match cost lim px ts l (d, n) = (d, n)
     \<or> (\<exists>d' n'. row_match cost lim px ts l (d, n) = (d', n') \<and> lim < d' \<and> n' < n + int (length ts))"
proof (induction ts arbitrary: l d n)
  case (Cons t ts)
  let ?d = "d + cost (px l) t"
  show ?case
  proof (cases "?d > lim")
    case True
    then show ?thesis using row_score_nonneg[of px ts "l + 1"] by (auto simp: Let_def)
  next
    case False
    then have eq: "row_match cost lim px (t # ts) l (d, n) = row_match cost lim px ts (l + 1) (?d, n + 1)" by (simp add: Let_def)
    have sc: "d + row_score cost px (t # ts) l = ?d + row_score cost px ts (l + 1)" by simp
    show ?thesis unfolding sc eq using Cons.IH[of ?d "l + 1" "n + 1"] False
      by (auto simp: add.commute split: if_splits)
  qed
qed simp

lemma tmpl_match_score:
  assumes "\<forall>r \<in> set rs. r \<noteq> []"
  shows "if d + tmpl_score cost px rs k \<le> lim
     then tmpl_match cost lim px rs k (d, n) = (d + tmpl_score cost px rs k, n + int (length (concat rs)))
     else rs = [] \<and> tmpl_match cost lim px rs k (d, n) = (d, n)
       \<or> (\<exists>d' n'. tmpl_match cost lim px rs k (d, n) = (d', n') \<and> lim < d' \<and> n' < n + int (length (concat rs)))"
  using assms
proof (induction rs arbitrary: k d n)
  case (Cons r rs)
  have ne: "r \<noteq> []" "\<forall>r \<in> set rs. r \<noteq> []" using Cons.prems by simp_all
  let ?R = "row_score cost (px k) r 0"
  show ?case
  proof (cases "d + ?R \<le> lim")
    case True
    then have eq: "tmpl_match cost lim px (r # rs) k (d, n) = tmpl_match cost lim px rs (k + 1) (d + ?R, n + int (length r))"
      using row_match_score[of d "px k" r 0 n] by simp
    have sc: "d + tmpl_score cost px (r # rs) k = d + ?R + tmpl_score cost px rs (k + 1)" by simp
    show ?thesis
    proof (cases "rs = []")
      case True
      then show ?thesis using \<open>d + ?R \<le> lim\<close> eq by simp
    next
      case False
      then show ?thesis unfolding sc eq
        using Cons.IH[OF ne(2), where k = "k + 1" and d = "d + ?R" and n = "n + int (length r)"]
        by (auto simp: add.assoc split: if_splits)
    qed
  next
    case False
    then obtain d' n' where r: "row_match cost lim (px k) r 0 (d, n) = (d', n')" "lim < d'" "n' < n + int (length r)"
      using row_match_score[of d "px k" r 0 n] ne(1) by auto
    have no: "\<not> d + tmpl_score cost px (r # rs) k \<le> lim" using False tmpl_score_nonneg[of px rs "k + 1"] by simp
    have big: "\<not> d' + tmpl_score cost px rs (k + 1) \<le> lim" using r(2) tmpl_score_nonneg[of px rs "k + 1"] by simp
    show ?thesis
      using no big r Cons.IH[OF ne(2), where k = "k + 1" and d = d' and n = n'] by fastforce
  qed
qed simp

lemma corner_at_score:
  assumes "full_tmpl tm"
  shows "corner_at cost lim px tm i j (sm, c)
    = (if score_at cost px tm (i, j) \<le> lim \<and> score_at cost px tm (i, j) < sm
       then (score_at cost px tm (i, j), (i, j)) else (sm, c))"
proof -
  have "\<forall>r \<in> set tm. r \<noteq> []" "length (concat tm) = 121" "tm \<noteq> []" using assms by (simp_all add: full_tmpl_def)
  then show ?thesis
    using tmpl_match_score[where rs = tm and d = 0 and n = 0 and k = 0
        and px = "\<lambda>k l. px (i + k) (j + l)"]
    by (auto simp: corner_at_def score_at_def COR_H_def COR_W_def split: if_splits)
qed

text \<open>\<open>s\<close> is the first best of the positions \<open>P\<close>, starting from the position \<open>z\<close>.\<close>

definition best_of :: "(int \<times> int) \<Rightarrow> ((int \<times> int) \<Rightarrow> int) \<Rightarrow> (int \<times> int) set \<Rightarrow> int \<times> int \<times> int \<Rightarrow> bool" where
  "best_of z f P s \<longleftrightarrow> (if \<exists>p \<in> P. f p \<le> lim
     then snd s \<in> P \<and> f (snd s) = fst s \<and> fst s \<le> lim \<and> (\<forall>p \<in> P. fst s \<le> f p)
     else s = (100, z))"

lemma best_of_start: "best_of z f {} (100, z)"
  by (simp add: best_of_def)

lemma best_of_step:
  assumes "full_tmpl tm" and "best_of z (score_at cost px tm) P s"
  shows "best_of z (score_at cost px tm) (insert (i, j) P) (corner_at cost lim px tm i j s)"
proof -
  let ?f = "score_at cost px tm"
  obtain sm c where s: "s = (sm, c)" by (cases s)
  show ?thesis
  proof (cases "\<exists>p \<in> P. ?f p \<le> lim")
    case True
    then have b: "c \<in> P" "?f c = sm" "sm \<le> lim" "\<forall>p \<in> P. sm \<le> ?f p"
      using assms(2) by (simp_all add: best_of_def s)
    then show ?thesis using True unfolding s corner_at_score[OF assms(1)] best_of_def
      by (cases "?f (i, j) < sm") (auto intro: order_trans)
  next
    case False
    then have "s = (100, z)" using assms(2) unfolding best_of_def by presburger
    then show ?thesis using False lim_range unfolding s corner_at_score[OF assms(1)] best_of_def by fastforce
  qed
qed

lemma best_of_row:
  assumes "full_tmpl tm" and "best_of z (score_at cost px tm) P s"
  shows "best_of z (score_at cost px tm) (P \<union> {i} \<times> set js) (foldl (\<lambda>s j. corner_at cost lim px tm i j s) s js)"
  using assms(2)
proof (induction js arbitrary: P s)
  case (Cons j js)
  have "insert (i, j) P \<union> {i} \<times> set js = P \<union> {i} \<times> set (j # js)" by auto
  with Cons.IH[OF best_of_step[OF assms(1) Cons.prems, of i j]]
  show ?case by simp
qed simp

lemma best_of_rows:
  assumes "full_tmpl tm" and "best_of z (score_at cost px tm) P s"
  shows "best_of z (score_at cost px tm) (P \<union> set us \<times> set js)
    (foldl (\<lambda>s i. foldl (\<lambda>s j. corner_at cost lim px tm i j s) s js) s us)"
  using assms(2)
proof (induction us arbitrary: P s)
  case (Cons u us)
  have "P \<union> {u} \<times> set js \<union> set us \<times> set js = P \<union> set (u # us) \<times> set js" by auto
  with Cons.IH[OF best_of_row[OF assms(1) Cons.prems, of u js]]
  show ?case by simp
qed simp

lemma best_of_box:
  assumes "full_tmpl tm"
  shows "best_of z (score_at cost px tm) ({i0..<i1} \<times> {j0..<j1})
    (foldl (\<lambda>s i. foldl (\<lambda>s j. corner_at cost lim px tm i j s) s [j0..j1 - 1]) (100, z) [i0..i1 - 1])"
proof -
  note best_of_rows[OF assms best_of_start, where us = "[i0..i1 - 1]" and js = "[j0..j1 - 1]"]
  moreover have "set [i0..i1 - 1] = {i0..<i1}" "set [j0..j1 - 1] = {j0..<j1}" by auto
  ultimately show ?thesis by simp
qed

end

end
