(* ===== verification/Raster.thy ===== *)
theory Raster
  imports Flood_Fill Template_Match
begin

text \<open>
  Finding the field in the camera picture (\<^verbatim>\<open>CODE/coor_pick.c\<close>): the threshold
  \<open>GetOSTU\<close>, the four corner templates and their search \<open>get_smlarA4\<close>, the line drawer
  \<open>line_\<close>, the plausibility test \<open>check_rct\<close> and the loop \<open>get_a4\<close> over camera frames.

  The template search reads the picture up to ten cells to the right and above the current
  position without a range check; such reads are taken from flat memory, with the parameter
  \<open>junk\<close> outside the array. Writes are checked. Showing the picture and waiting have no
  counterpart.
\<close>

section \<open>The threshold\<close>

text \<open>\<open>HistoGram\<close> is an array of \<open>unsigned char\<close>: a count of 256 is a count of 0.\<close>

definition otsu_hist :: "int arr2 \<Rightarrow> int arr option" where
  "otsu_hist orig =
     for_up 0 img_height (\<lambda>i. for_up 0 img_width (\<lambda>j h. do {
         v \<leftarrow> rd2 img_width img_height orig j i;
         c \<leftarrow> rd 256 h v;
         wr 256 h v (u8 (c + 1)) })) (\<lambda>_. 0)"

function otsu_min :: "int arr \<Rightarrow> int \<Rightarrow> int" where
  "otsu_min h k = (if k < 256 \<and> h k = 0 then otsu_min h (k + 1) else k)"
  by pat_completeness auto
termination by (relation "measure (\<lambda>(h, k). nat (256 - k))") auto

declare otsu_min.simps [simp del]

text \<open>The condition of the loop tests \<open>HistoGram[MinValue]\<close>, not \<open>HistoGram[MaxValue]\<close>.\<close>

function otsu_max :: "int arr \<Rightarrow> int \<Rightarrow> int \<Rightarrow> int" where
  "otsu_max h mn k = (if k > mn \<and> h mn = 0 then otsu_max h mn (k - 1) else k)"
  by pat_completeness auto
termination by (relation "measure (\<lambda>(h, mn, k). nat (k - mn))") auto

declare otsu_max.simps [simp del]

definition otsu_amount :: "int arr \<Rightarrow> int \<Rightarrow> int \<Rightarrow> int" where
  "otsu_amount h mn mx = foldl (\<lambda>a j. a + h j) 0 [mn..mx]"

definition otsu_total :: "int arr \<Rightarrow> int \<Rightarrow> int \<Rightarrow> int" where
  "otsu_total h mn mx = foldl (\<lambda>a j. a + h j * j) 0 [mn..mx]"

record otsu =
  PixelBack :: int
  PixelBackSum :: int
  SigmaB :: f32
  Threshold :: int

definition otsu_step :: "int arr \<Rightarrow> int \<Rightarrow> int \<Rightarrow> otsu \<Rightarrow> int \<Rightarrow> otsu" where
  "otsu_step h amount whole s j =
     (let back = PixelBack s + h j;
          fore = amount - back;
          omegaB = s_of_int back / s_of_int amount;
          omegaF = s_of_int fore / s_of_int amount;
          sumB = PixelBackSum s + h j * j;
          sumF = whole - sumB;
          microB = s_of_int sumB / s_of_int back;
          microF = s_of_int sumF / s_of_int fore;
          sigma = omegaB * omegaF * (microB - microF) * (microB - microF);
          s = s\<lparr>PixelBack := back, PixelBackSum := sumB\<rparr>
      in if sigma > SigmaB s then s\<lparr>SigmaB := sigma, Threshold := u8 j\<rparr> else s)"

definition otsu_threshold :: "int arr \<Rightarrow> int" where
  "otsu_threshold h =
     (let mn = otsu_min h 0; mx = otsu_max h mn 255
      in if mx = mn then u8 mx
         else if mn + 1 = mx then u8 mn
         else Threshold (foldl (otsu_step h (otsu_amount h mn mx) (otsu_total h mn mx))
           \<lparr>PixelBack = 0, PixelBackSum = 0, SigmaB = - 1, Threshold = 0\<rparr> [mn..mx - 1]))"

definition GetOSTU :: "int arr2 \<Rightarrow> int option" where
  "GetOSTU orig = map_option otsu_threshold (otsu_hist orig)"

section \<open>The corner templates\<close>

definition a4_UL :: "int list list" where
  "a4_UL = [
    [0, 0, 0, 0, 0, 0, 0, 0, 0, 0, 0],
    [1, 1, 1, 1, 1, 1, 1, 1, 1, 1, 0],
    [2, 2, 2, 2, 2, 2, 2, 2, 2, 1, 0],
    [0, 0, 0, 0, 0, 0, 0, 0, 2, 1, 0],
    [2, 2, 2, 2, 2, 2, 2, 0, 2, 1, 0],
    [2, 2, 2, 2, 2, 2, 2, 0, 2, 1, 0],
    [2, 2, 2, 2, 2, 2, 2, 0, 2, 1, 0],
    [2, 2, 2, 2, 2, 2, 2, 0, 2, 1, 0],
    [2, 2, 2, 2, 2, 2, 2, 0, 2, 1, 0],
    [2, 2, 2, 2, 2, 2, 2, 0, 2, 1, 0],
    [2, 2, 2, 2, 2, 2, 2, 0, 2, 1, 0]]"

definition a4_UR :: "int list list" where
  "a4_UR = [
    [2, 2, 2, 2, 2, 2, 2, 0, 2, 1, 0],
    [2, 2, 2, 2, 2, 2, 2, 0, 2, 1, 0],
    [2, 2, 2, 2, 2, 2, 2, 0, 2, 1, 0],
    [2, 2, 2, 2, 2, 2, 2, 0, 2, 1, 0],
    [2, 2, 2, 2, 2, 2, 2, 0, 2, 1, 0],
    [2, 2, 2, 2, 2, 2, 2, 0, 2, 1, 0],
    [2, 2, 2, 2, 2, 2, 2, 0, 2, 1, 0],
    [0, 0, 0, 0, 0, 0, 0, 0, 2, 1, 0],
    [2, 2, 2, 2, 2, 2, 2, 2, 2, 1, 0],
    [1, 1, 1, 1, 1, 1, 1, 1, 1, 1, 0],
    [0, 0, 0, 0, 0, 0, 0, 0, 0, 0, 0]]"

definition a4_DR :: "int list list" where
  "a4_DR = [
    [0, 1, 2, 0, 2, 2, 2, 2, 2, 2, 2],
    [0, 1, 2, 0, 2, 2, 2, 2, 2, 2, 2],
    [0, 1, 2, 0, 2, 2, 2, 2, 2, 2, 2],
    [0, 1, 2, 0, 2, 2, 2, 2, 2, 2, 2],
    [0, 1, 2, 0, 2, 2, 2, 2, 2, 2, 2],
    [0, 1, 2, 0, 2, 2, 2, 2, 2, 2, 2],
    [0, 1, 2, 0, 2, 2, 2, 2, 2, 2, 2],
    [0, 1, 2, 0, 0, 0, 0, 0, 0, 0, 0],
    [0, 1, 2, 2, 2, 2, 2, 2, 2, 2, 2],
    [0, 1, 1, 1, 1, 1, 1, 1, 1, 1, 1],
    [0, 0, 0, 0, 0, 0, 0, 0, 0, 0, 0]]"

definition a4_DL :: "int list list" where
  "a4_DL = [
    [0, 0, 0, 0, 0, 0, 0, 0, 0, 0, 0],
    [0, 1, 1, 1, 1, 1, 1, 1, 1, 1, 1],
    [0, 1, 2, 2, 2, 2, 2, 2, 2, 2, 2],
    [0, 1, 2, 0, 0, 0, 0, 0, 0, 0, 0],
    [0, 1, 2, 0, 2, 2, 2, 2, 2, 2, 2],
    [0, 1, 2, 0, 2, 2, 2, 2, 2, 2, 2],
    [0, 1, 2, 0, 2, 2, 2, 2, 2, 2, 2],
    [0, 1, 2, 0, 2, 2, 2, 2, 2, 2, 2],
    [0, 1, 2, 0, 2, 2, 2, 2, 2, 2, 2],
    [0, 1, 2, 0, 2, 2, 2, 2, 2, 2, 2],
    [0, 1, 2, 0, 2, 2, 2, 2, 2, 2, 2]]"

definition rd_img :: "int arr2 \<Rightarrow> (int \<Rightarrow> int) \<Rightarrow> int \<Rightarrow> int \<Rightarrow> int" where
  "rd_img orig junk x y =
     (let a = x * img_height + y
      in if 0 \<le> a \<and> a < img_width * img_height then orig (a div img_height) (a mod img_height) else junk a)"

text \<open>A cell of the template that is 2 does not count; a row is left when the sum exceeds 4.\<close>

definition masked :: "int \<Rightarrow> int \<Rightarrow> int" where
  "masked p t = (if t \<noteq> 2 then \<bar>p - t\<bar> else 0)"

definition find_corner :: "int arr2 \<Rightarrow> (int \<Rightarrow> int) \<Rightarrow> int list list \<Rightarrow> int \<Rightarrow> int \<Rightarrow> int \<Rightarrow> int \<Rightarrow>
    int \<times> int" where
  "find_corner orig junk tm i0 i1 j0 j1 =
     snd (foldl (\<lambda>s i. foldl (\<lambda>s j. corner_at masked 4 (rd_img orig junk) tm i j s) s [j0..j1 - 1]) (100, 0, 0) [i0..i1 - 1])"

text \<open>\<open>cor[0..3]\<close>: upper left, upper right, lower left, lower right.\<close>

record corners =
  cUL :: "int \<times> int"
  cUR :: "int \<times> int"
  cDL :: "int \<times> int"
  cDR :: "int \<times> int"

definition add2 :: "int \<times> int \<Rightarrow> int \<Rightarrow> int \<Rightarrow> int \<times> int" where
  "add2 c a b = (fst c + a, snd c + b)"

definition get_smlarA4 :: "int arr2 \<Rightarrow> (int \<Rightarrow> int) \<Rightarrow> corners" where
  "get_smlarA4 orig junk =
     (let w2 = cdiv img_width 2; h2 = cdiv img_height 2;
          ul = find_corner orig junk a4_UL 0 w2 h2 img_height;
          dr = find_corner orig junk a4_DR w2 img_width 0 h2;
          ur = find_corner orig junk a4_UR w2 img_width h2 img_height;
          dl = find_corner orig junk a4_DL 0 w2 0 h2
      in \<lparr>cUL = add2 ul 1 9, cUR = add2 ur 9 9, cDL = add2 dl 1 1, cDR = add2 dr 9 1\<rparr>)"

section \<open>Lines\<close>

record pen =
  pimg :: "int arr2"
  pi :: int
  pj :: int
  perr :: int
  pend :: bool

definition line_step :: "int \<Rightarrow> int \<Rightarrow> int \<Rightarrow> int \<Rightarrow> int \<Rightarrow> int \<Rightarrow> pen \<Rightarrow> pen option" where
  "line_step i1 j1 dx dy sx sy p = do {
     im \<leftarrow> wr2 img_width img_height (pimg p) (pi p) (pj p) 1;
     let p = p\<lparr>pimg := im\<rparr>;
     if pi p = i1 \<and> pj p = j1 then Some (p\<lparr>pend := True\<rparr>)
     else
       let e2 = 2 * perr p;
           p = (if e2 \<ge> dy then p\<lparr>perr := perr p + dy, pi := pi p + sx\<rparr> else p);
           p = (if e2 \<le> dx then p\<lparr>perr := perr p + dx, pj := pj p + sy\<rparr> else p)
       in Some p
   }"

definition draw_line :: "int \<Rightarrow> int \<Rightarrow> int \<Rightarrow> int \<Rightarrow> int arr2 \<Rightarrow> int arr2 option option" where
  "draw_line i0 j0 i1 j1 orig =
     (let dx = \<bar>i1 - i0\<bar>; sx = (if i0 < i1 then 1 else - 1);
          dy = - \<bar>j1 - j0\<bar>; sy = (if j0 < j1 then 1 else - 1);
          err = dx + dy
      in map_option (map_option pimg) (while_ub (\<lambda>p. \<not> pend p) (line_step i1 j1 dx dy sx sy)
           \<lparr>pimg = orig, pi = i0, pj = j0, perr = err, pend = False\<rparr>))"

section \<open>The frame loop\<close>

definition check_rct :: "int \<times> int \<Rightarrow> int \<times> int \<Rightarrow> int \<times> int \<Rightarrow> int \<times> int \<Rightarrow> bool" where
  "check_rct ls rs rx lx =
     (let w = (\<bar>fst rs - fst ls\<bar> + \<bar>fst rx - fst lx\<bar>) div 2;
          h = (\<bar>snd ls - snd lx\<bar> + \<bar>snd rx - snd rs\<bar>) div 2;
          dd = to_s (1 * d_of_int w / d_of_int h);
          ss = w * h
      in if to_d dd < lit 1.3 \<or> to_d dd > lit 1.5 then True
         else if ss < 4000 \<or> ss > 10000 then True else False)"

definition map_img :: "(int \<Rightarrow> int \<Rightarrow> int \<Rightarrow> int) \<Rightarrow> int arr2 \<Rightarrow> int arr2" where
  "map_img f orig = (\<lambda>i j. if 0 \<le> i \<and> i < img_width \<and> 0 \<le> j \<and> j < img_height then f i j (orig i j) else orig i j)"

definition seq_ub :: "('a \<Rightarrow> 'a option option) list \<Rightarrow> 'a \<Rightarrow> 'a option option" where
  "seq_ub fs a = foldl (\<lambda>r f. case r of Some (Some a) \<Rightarrow> f a | _ \<Rightarrow> r) (Some (Some a)) fs"

definition draw_rect :: "corners \<Rightarrow> int arr2 \<Rightarrow> int arr2 option option" where
  "draw_rect c =
     seq_ub [draw_line (fst (cUL c)) (snd (cUL c)) (fst (cUR c)) (snd (cUR c)),
             draw_line (fst (cUL c)) (snd (cUL c)) (fst (cDL c)) (snd (cDL c)),
             draw_line (fst (cDL c)) (snd (cDL c)) (fst (cDR c)) (snd (cDR c)),
             draw_line (fst (cDR c)) (snd (cDR c)) (fst (cUR c)) (snd (cUR c))]"

definition straight :: "corners \<Rightarrow> bool" where
  "straight c \<longleftrightarrow> \<bar>snd (cUL c) - snd (cUR c)\<bar> < 6 \<and> \<bar>fst (cUL c) - fst (cDL c)\<bar> < 6
     \<and> \<bar>snd (cDL c) - snd (cDR c)\<bar> < 6 \<and> \<bar>fst (cDR c) - fst (cUR c)\<bar> < 6"

text \<open>One frame: the camera picture \<open>cam\<close> is transposed, thresholded, searched and outlined.\<close>

definition a4_frame :: "(int \<Rightarrow> int) \<Rightarrow> int arr2 \<Rightarrow> int arr2 \<Rightarrow> (int arr2 \<times> corners \<times> bool) option option" where
  "a4_frame junk cam orig =
     (let orig = map_img (\<lambda>i j _. cam (img_height - 1 - j) i) orig in
      case GetOSTU orig of None \<Rightarrow> Some None
      | Some thre \<Rightarrow>
          let orig = map_img (\<lambda>i j v. if v < thre then 1 else 0) orig;
              c = get_smlarA4 orig junk
          in map_option (map_option (\<lambda>o1. (map_img (\<lambda>i j v. u8 (v * 255)) o1, c,
               straight c \<and> \<not> check_rct (cUL c) (cUR c) (cDR c) (cDL c)))) (draw_rect c orig))"

text \<open>The loop takes the frames \<open>cam k\<close>, \<open>cam (k + 1)\<close>, ... until one is accepted.\<close>

partial_function (option) get_a4 ::
  "(int \<Rightarrow> int) \<Rightarrow> (nat \<Rightarrow> int arr2) \<Rightarrow> nat \<Rightarrow> int arr2 \<Rightarrow> (int arr2 \<times> corners \<times> nat) option option" where
  "get_a4 junk cam k orig =
     (case a4_frame junk (cam k) orig of None \<Rightarrow> None
      | Some None \<Rightarrow> Some None
      | Some (Some (o1, c, ok)) \<Rightarrow>
          if ok then Some (Some (o1, c, k + 1)) else get_a4 junk cam (k + 1) o1)"

declare get_a4.simps [code]

section \<open>Lines stay in their rectangle\<close>

text \<open>
  After \<open>p\<close> steps in the first and \<open>q\<close> in the second coordinate, of \<open>a\<close> and \<open>b\<close>, the error
  is \<open>(q + 1) * a - (p + 1) * b\<close>; a coordinate that has arrived makes no further step.
\<close>

definition line_inv :: "int \<Rightarrow> int \<Rightarrow> int \<Rightarrow> int \<Rightarrow> int arr2 \<Rightarrow> pen \<Rightarrow> bool" where
  "line_inv i0 j0 i1 j1 orig p \<longleftrightarrow>
     (let a = \<bar>i1 - i0\<bar>; b = \<bar>j1 - j0\<bar>; sx = (if i0 < i1 then 1 else - 1); sy = (if j0 < j1 then 1 else - 1)
      in \<exists>u v. 0 \<le> u \<and> u \<le> a \<and> 0 \<le> v \<and> v \<le> b \<and> pi p = i0 + sx * u \<and> pj p = j0 + sy * v
         \<and> perr p = (v + 1) * a - (u + 1) * b
         \<and> (pend p \<longrightarrow> u = a \<and> v = b \<and> pimg p i1 j1 = 1)
         \<and> (pimg p i0 j0 = 1 \<or> (u = 0 \<and> v = 0 \<and> \<not> pend p)))
     \<and> (\<forall>x y. pimg p x y = orig x y
          \<or> pimg p x y = 1 \<and> min i0 i1 \<le> x \<and> x \<le> max i0 i1 \<and> min j0 j1 \<le> y \<and> y \<le> max j0 j1)"

definition line_measure :: "int \<Rightarrow> int \<Rightarrow> pen \<Rightarrow> nat" where
  "line_measure i1 j1 p = (if pend p then 0 else Suc (nat (\<bar>i1 - pi p\<bar> + \<bar>j1 - pj p\<bar>)))"

lemma line_arith:
  fixes a b u v :: int
  assumes "0 \<le> u" "u \<le> a" "0 \<le> v" "v \<le> b" "\<not> (u = a \<and> v = b)"
    and e: "e = (v + 1) * a - (u + 1) * b"
  shows "2 * e \<ge> - b \<Longrightarrow> u < a" and "2 * e \<le> a \<Longrightarrow> v < b" and "2 * e \<ge> - b \<or> 2 * e \<le> a"
proof -
  show "u < a" if "2 * e \<ge> - b"
  proof (rule ccontr)
    assume "\<not> u < a"
    then have "u = a" "v < b" using assms by auto
    then have "e = a * (v + 1 - b) - b" using e by (simp add: algebra_simps)
    moreover have "a * (v + 1 - b) \<le> 0" using \<open>v < b\<close> assms by (intro mult_nonneg_nonpos) simp_all
    ultimately show False using that \<open>v < b\<close> assms(3) by linarith
  qed
  show "v < b" if "2 * e \<le> a"
  proof (rule ccontr)
    assume "\<not> v < b"
    then have "v = b" "u < a" using assms by auto
    then have "e = b * (a - u - 1) + a" using e by (simp add: algebra_simps)
    moreover have "0 \<le> b * (a - u - 1)" using \<open>u < a\<close> assms by (intro mult_nonneg_nonneg) simp_all
    ultimately show False using that \<open>u < a\<close> assms(1) by linarith
  qed
  show "2 * e \<ge> - b \<or> 2 * e \<le> a" using assms by linarith
qed

text \<open>The position after \<open>u\<close> of \<open>|b - a|\<close> steps from \<open>a\<close> towards \<open>b\<close>.\<close>

lemma toward:
  fixes a b u :: int
  assumes "0 \<le> u" "u \<le> \<bar>b - a\<bar>"
  defines "s \<equiv> (if a < b then 1 else - 1)"
  shows "min a b \<le> a + s * u" "a + s * u \<le> max a b" "\<bar>b - (a + s * u)\<bar> = \<bar>b - a\<bar> - u"
    "a + s * u = b \<longleftrightarrow> u = \<bar>b - a\<bar>"
  using assms by (auto simp: s_def)

lemma line_step_ok:
  assumes inv: "line_inv i0 j0 i1 j1 orig p" and go: "\<not> pend p"
    and e0: "in_img (i0, j0)" and e1: "in_img (i1, j1)"
  shows "\<exists>p'. line_step i1 j1 \<bar>i1 - i0\<bar> (- \<bar>j1 - j0\<bar>) (if i0 < i1 then 1 else - 1) (if j0 < j1 then 1 else - 1) p = Some p'
    \<and> line_inv i0 j0 i1 j1 orig p' \<and> line_measure i1 j1 p' < line_measure i1 j1 p"
proof -
  let ?a = "\<bar>i1 - i0\<bar>" and ?b = "\<bar>j1 - j0\<bar>"
  let ?sx = "if i0 < i1 then 1 else - 1 :: int" and ?sy = "if j0 < j1 then 1 else - 1 :: int"
  from inv go obtain u v where uv: "0 \<le> u" "u \<le> ?a" "0 \<le> v" "v \<le> ?b"
    and pos: "pi p = i0 + ?sx * u" "pj p = j0 + ?sy * v" and err: "perr p = (v + 1) * ?a - (u + 1) * ?b"
    and st: "pimg p i0 j0 = 1 \<or> (u = 0 \<and> v = 0)"
    and old: "\<And>x y. pimg p x y = orig x y
        \<or> pimg p x y = 1 \<and> min i0 i1 \<le> x \<and> x \<le> max i0 i1 \<and> min j0 j1 \<le> y \<and> y \<le> max j0 j1"
    unfolding line_inv_def Let_def by blast
  note tx = toward[OF uv(1,2)] and ty = toward[OF uv(3,4)]
  have bx: "min i0 i1 \<le> pi p" "pi p \<le> max i0 i1" "min j0 j1 \<le> pj p" "pj p \<le> max j0 j1"
    unfolding pos using tx(1,2) ty(1,2) by simp_all
  have "0 \<le> min i0 i1" "max i0 i1 < img_width" "0 \<le> min j0 j1" "max j0 j1 < img_height"
    using e0 e1 by (simp_all add: in_img_def)
  then have idx: "0 \<le> pi p" "pi p < img_width" "0 \<le> pj p" "pj p < img_height" using bx by linarith+
  let ?im = "(pimg p)(pi p := (pimg p (pi p))(pj p := 1))"
  have wr: "wr2 img_width img_height (pimg p) (pi p) (pj p) 1 = Some ?im" using idx by (simp add: wr2_def)
  have old': "?im x y = orig x y
        \<or> ?im x y = 1 \<and> min i0 i1 \<le> x \<and> x \<le> max i0 i1 \<and> min j0 j1 \<le> y \<and> y \<le> max j0 j1" for x y
    using old[of x y] bx by (cases "x = pi p \<and> y = pj p") auto
  have st': "?im i0 j0 = 1" using st pos by auto
  show ?thesis
  proof (cases "pi p = i1 \<and> pj p = j1")
    case True
    let ?p = "p\<lparr>pimg := ?im, pend := True\<rparr>"
    have "u = ?a" "v = ?b" using True tx(4) ty(4) pos by simp_all
    then have "line_inv i0 j0 i1 j1 orig ?p"
      unfolding line_inv_def Let_def using uv pos err st' old' True by auto
    moreover have "line_step i1 j1 ?a (- ?b) ?sx ?sy p = Some ?p"
      using True wr by (simp add: line_step_def)
    moreover have "line_measure i1 j1 ?p < line_measure i1 j1 p" using go by (simp add: line_measure_def)
    ultimately show ?thesis by blast
  next
    case False
    then have nd: "\<not> (u = ?a \<and> v = ?b)" using tx(4) ty(4) pos by simp
    note ar = line_arith[OF uv nd err]
    let ?X = "2 * perr p \<ge> - ?b" and ?Y = "2 * perr p \<le> ?a"
    let ?u = "if ?X then u + 1 else u" and ?v = "if ?Y then v + 1 else v"
    have uv': "0 \<le> ?u" "?u \<le> ?a" "0 \<le> ?v" "?v \<le> ?b" using uv ar(1,2) by auto
    have less: "u + v < ?u + ?v" using ar(3) by auto
    let ?p = "p\<lparr>pimg := ?im, pi := i0 + ?sx * ?u, pj := j0 + ?sy * ?v, perr := (?v + 1) * ?a - (?u + 1) * ?b\<rparr>"
    have "line_step i1 j1 ?a (- ?b) ?sx ?sy p = Some ?p"
      using False wr pos err by (auto simp: line_step_def Let_def algebra_simps)
    moreover have "line_inv i0 j0 i1 j1 orig ?p"
      unfolding line_inv_def Let_def using uv' st' old' go
      by (intro conjI exI[of _ ?u] exI[of _ ?v]) auto
    moreover have "line_measure i1 j1 ?p < line_measure i1 j1 p"
      using go tx(3) ty(3) toward(3)[OF uv'(1,2)] toward(3)[OF uv'(3,4)] less pos uv'
      by (simp add: line_measure_def)
    ultimately show ?thesis by blast
  qed
qed

text \<open>
  C13. For end points inside the picture, \<open>line_\<close> returns: it paints both ends, and every cell
  it changes is painted 1 and lies in the rectangle of the two points.
\<close>

theorem line_in_rectangle:
  assumes "in_img (i0, j0)" and "in_img (i1, j1)"
  shows "\<exists>im. draw_line i0 j0 i1 j1 orig = Some (Some im) \<and> im i0 j0 = 1 \<and> im i1 j1 = 1
    \<and> (\<forall>x y. im x y \<noteq> orig x y \<longrightarrow> im x y = 1 \<and> min i0 i1 \<le> x \<and> x \<le> max i0 i1
        \<and> min j0 j1 \<le> y \<and> y \<le> max j0 j1)"
proof -
  let ?f = "line_step i1 j1 \<bar>i1 - i0\<bar> (- \<bar>j1 - j0\<bar>) (if i0 < i1 then 1 else - 1) (if j0 < j1 then 1 else - 1)"
  let ?s = "\<lparr>pimg = orig, pi = i0, pj = j0, perr = \<bar>i1 - i0\<bar> + - \<bar>j1 - j0\<bar>, pend = False\<rparr>"
  have "\<exists>t. while_ub (\<lambda>p. \<not> pend p) ?f ?s = Some (Some t) \<and> line_inv i0 j0 i1 j1 orig t \<and> \<not> \<not> pend t"
  proof (rule while_ub_total[OF wf_measure[of "line_measure i1 j1"]])
    show "line_inv i0 j0 i1 j1 orig ?s"
      unfolding line_inv_def Let_def by (auto intro!: exI[of _ 0])
    fix p assume "line_inv i0 j0 i1 j1 orig p" "\<not> pend p"
    from line_step_ok[OF this assms]
    show "\<exists>t. ?f p = Some t \<and> line_inv i0 j0 i1 j1 orig t \<and> (t, p) \<in> measure (line_measure i1 j1)" by simp
  qed
  then obtain t where t: "while_ub (\<lambda>p. \<not> pend p) ?f ?s = Some (Some t)" "line_inv i0 j0 i1 j1 orig t" "pend t"
    by blast
  then have "draw_line i0 j0 i1 j1 orig = Some (Some (pimg t))" by (simp add: draw_line_def Let_def)
  moreover have "pimg t i0 j0 = 1" "pimg t i1 j1 = 1" using t(2,3) unfolding line_inv_def Let_def by blast+
  moreover have "\<forall>x y. pimg t x y \<noteq> orig x y \<longrightarrow> pimg t x y = 1 \<and> min i0 i1 \<le> x \<and> x \<le> max i0 i1
        \<and> min j0 j1 \<le> y \<and> y \<le> max j0 j1" using t(2) unfolding line_inv_def by blast
  ultimately show ?thesis by blast
qed

lemma line_in_rectangle_witness:
  "\<exists>im. draw_line 7 1 2 4 (\<lambda>_ _. 0) = Some (Some im) \<and> im 7 1 = 1 \<and> im 2 4 = 1 \<and> im 8 2 = 0"
  using line_in_rectangle[of 7 1 2 4 "\<lambda>_ _. 0"] by (force simp: in_img_def img_width_def img_height_def)

section \<open>The template search\<close>

interpretation a4: cell_cost masked 4
  by unfold_locales (simp_all add: masked_def)

lemma templates_full [simp]: "full_tmpl a4_UL" "full_tmpl a4_UR" "full_tmpl a4_DR" "full_tmpl a4_DL"
  by (simp_all add: full_tmpl_def a4_UL_def a4_UR_def a4_DR_def a4_DL_def)

text \<open>
  C12. The corner search, with its early exits, is exact: if some position of the scanned
  rectangle differs from the template in at most 4 (summed over the cells that count), the
  result is a position of the rectangle with the least difference; otherwise it is (0, 0).
\<close>

theorem find_corner_best:
  assumes "tm \<in> {a4_UL, a4_UR, a4_DR, a4_DL}"
  shows "let c = find_corner orig junk tm i0 i1 j0 j1; P = {i0..<i1} \<times> {j0..<j1};
      f = score_at masked (rd_img orig junk) tm
    in if \<exists>p \<in> P. f p \<le> 4 then c \<in> P \<and> (\<forall>p \<in> P. f c \<le> f p) else c = (0, 0)"
proof -
  have "full_tmpl tm" using assms by auto
  from a4.best_of_box[OF this, of "(0, 0)" "rd_img orig junk" i0 i1 j0 j1]
  show ?thesis unfolding find_corner_def a4.best_of_def Let_def by (auto split: if_splits)
qed

lemma find_corner_best_witness:
  "find_corner (\<lambda>_ _. 0) (\<lambda>_. 0) a4_UL 0 94 60 120 = (0, 0)"
proof -
  have "rd_img (\<lambda>_ _. 0) (\<lambda>_. 0) x y = 0" for x y by (simp add: rd_img_def Let_def)
  then have "score_at masked (rd_img (\<lambda>_ _. 0) (\<lambda>_. 0)) a4_UL p > 4" for p
    by (simp add: score_at_def a4_UL_def masked_def)
  then show ?thesis
    using find_corner_best[of a4_UL "\<lambda>_ _. 0" "\<lambda>_. 0" 0 94 60 120] by (auto simp: Let_def not_le[symmetric])
qed

end
