(* ===== verification/Float_Bounds.thy ===== *)
theory Float_Bounds
  imports Soft_Float
begin

text \<open>
  Error and range bounds of the floating-point operations that the component proofs share: how
  far rounding moves a value of a given magnitude, values that stay between two integers, and
  the arithmetic of the types \<open>f32\<close> and \<open>f64\<close> on finite operands.
\<close>

lemma rnd_fin_close:
  assumes "\<bar>q\<bar> < 2 powi (e + 1)" and "emin f \<le> e"
  shows "\<bar>rnd_fin f q - q\<bar> \<le> 2 powi (e - prec f)"
proof (cases "q = 0")
  case False
  let ?Q = "qexp f q"
  have "(2 powi ilog2 \<bar>q\<bar> :: rat) < 2 powi (e + 1)" using ilog2_bounds[of "\<bar>q\<bar>"] False assms(1) by simp
  then have "ilog2 \<bar>q\<bar> \<le> e" unfolding powi2_less_iff by simp
  then have Q: "?Q \<le> e - prec f + 1" using assms(2) by (simp add: qexp_def)
  have "rnd_fin f q - q = (of_int (rne (q / 2 powi ?Q)) - q / 2 powi ?Q) * 2 powi ?Q"
    using False by (simp add: rnd_fin_def left_diff_distrib)
  then have "\<bar>rnd_fin f q - q\<bar> \<le> 1 / 2 * 2 powi ?Q"
    using rne_close[of "q / 2 powi ?Q"] by (simp add: abs_mult mult_right_mono)
  also have "\<dots> \<le> 1 / 2 * 2 powi (e - prec f + 1)" using Q by (simp add: powi2_le_iff)
  also have "\<dots> = 2 powi (e - prec f)" by (simp add: power_int_add)
  finally show ?thesis .
qed simp

lemma fround32_near:
  assumes "\<bar>q\<bar> < 4"
  obtains y where "fround binary32 q = Fin y" "\<bar>y - q\<bar> \<le> 1 / 8388608"
proof -
  have c: "\<bar>rnd_fin binary32 q - q\<bar> \<le> 1 / 8388608"
  proof -
    have "(2 :: rat) powi (1 - prec binary32) = 1 / 8388608"
      by (simp add: binary32_def power_int_def power_one_over)
    moreover have "emin binary32 \<le> 1" by (simp add: binary32_def)
    ultimately show ?thesis using rnd_fin_close[of q 1 binary32] assms by (simp add: power_int_def)
  qed
  then have "\<bar>rnd_fin binary32 q\<bar> < 5" using assms by linarith
  then have "fround binary32 q = Fin (rnd_fin binary32 q)"
    by (simp add: fround_Fin) (simp add: binary32_def power_int_def)
  then show ?thesis using c that by blast
qed

lemma fround64_near:
  assumes "\<bar>q\<bar> < 4"
  obtains y where "fround binary64 q = Fin y" "\<bar>y - q\<bar> \<le> 1 / 4503599627370496"
proof -
  have c: "\<bar>rnd_fin binary64 q - q\<bar> \<le> 1 / 4503599627370496"
  proof -
    have "(2 :: rat) powi (1 - prec binary64) = 1 / 4503599627370496"
      by (simp add: binary64_def power_int_def power_one_over)
    moreover have "emin binary64 \<le> 1" by (simp add: binary64_def)
    ultimately show ?thesis using rnd_fin_close[of q 1 binary64] assms by (simp add: power_int_def)
  qed
  then have "\<bar>rnd_fin binary64 q\<bar> < 5" using assms by linarith
  then have "fround binary64 q = Fin (rnd_fin binary64 q)"
    by (simp add: fround_Fin) (simp add: binary64_def power_int_def)
  then show ?thesis using c that by blast
qed

lemma fround32_between:
  assumes "of_int a \<le> q" and "q \<le> of_int b" and "\<bar>a\<bar> < 2 ^ 24" and "\<bar>b\<bar> < 2 ^ 24"
  obtains y where "fround binary32 q = Fin y" "of_int a \<le> y" "y \<le> of_int b"
  using b32.between[OF fround_int32[OF assms(3)] fround_int32[OF assms(4)] assms(1,2)] by metis

lemma fround64_between:
  assumes "of_int a \<le> q" and "q \<le> of_int b" and "\<bar>a\<bar> < 2 ^ 53" and "\<bar>b\<bar> < 2 ^ 53"
  obtains y where "fround binary64 q = Fin y" "of_int a \<le> y" "y \<le> of_int b"
  using b64.between[OF fround_int64[OF assms(3)] fround_int64[OF assms(4)] assms(1,2)] by metis

section \<open>Finite operands\<close>

lemma F32_arith:
  "F32 (Fin a) + F32 (Fin b) = F32 (fround binary32 (a + b))"
  "F32 (Fin a) - F32 (Fin b) = F32 (fround binary32 (a - b))"
  "F32 (Fin a) * F32 (Fin b) = F32 (fround binary32 (a * b))"
  "b \<noteq> 0 \<Longrightarrow> F32 (Fin a) / F32 (Fin b) = F32 (fround binary32 (a / b))"
  by (simp_all add: f32_defs fadd_def fmul_def fdiv_def fneg_def)

lemma F64_arith:
  "F64 (Fin a) + F64 (Fin b) = F64 (fround binary64 (a + b))"
  "F64 (Fin a) - F64 (Fin b) = F64 (fround binary64 (a - b))"
  "F64 (Fin a) * F64 (Fin b) = F64 (fround binary64 (a * b))"
  "b \<noteq> 0 \<Longrightarrow> F64 (Fin a) / F64 (Fin b) = F64 (fround binary64 (a / b))"
  by (simp_all add: f64_defs fadd_def fmul_def fdiv_def fneg_def)

lemma F_order [simp]:
  "F32 (Fin a) \<le> F32 (Fin b) \<longleftrightarrow> a \<le> b" "F32 (Fin a) < F32 (Fin b) \<longleftrightarrow> a < b"
  "F64 (Fin a) \<le> F64 (Fin b) \<longleftrightarrow> a \<le> b" "F64 (Fin a) < F64 (Fin b) \<longleftrightarrow> a < b"
  by (simp_all add: f32_defs f64_defs)

lemma d_of_int_small [simp]: "\<bar>n\<bar> < 2 ^ 53 \<Longrightarrow> d_of_int n = F64 (Fin (of_int n))"
  by (simp add: d_of_int_def fround_int64)

lemma s_of_int_small [simp]: "\<bar>n\<bar> < 2 ^ 24 \<Longrightarrow> s_of_int n = F32 (Fin (of_int n))"
  by (simp add: s_of_int_def fround_int32)

lemma to_Fin [simp]: "to_d (F32 (Fin a)) = F64 (Fin a)" "to_s (F64 (Fin a)) = F32 (fround binary32 a)"
  by (simp_all add: to_d_def to_s_def)

lemma one_F64: "(1 :: f64) = F64 (Fin 1)" "(1 :: f32) = F32 (Fin 1)" "(0 :: f32) = F32 (Fin 0)" "(0 :: f64) = F64 (Fin 0)"
  by (simp_all add: f64_defs f32_defs)

lemma s_int_between:
  assumes "of_int a \<le> q" and "q \<le> of_int b" and "- 2147483648 \<le> a" and "b < 2147483648"
  obtains i where "s_int (F32 (Fin q)) = Some i" "a \<le> i" "i \<le> b"
proof -
  have "a \<le> ftrunc q" "ftrunc q \<le> b"
    using assms(1,2) by (auto simp: ftrunc_def le_floor_iff floor_le_iff le_ceiling_iff ceiling_le_iff)
  then show ?thesis using that assms(3,4) by (simp add: s_int_def fint_def)
qed

lemma lit_0001:
  obtains c where "lit 0.001 = F64 (Fin c)" "9 / 10000 \<le> c" "c \<le> 11 / 10000"
proof -
  obtain y where "fround binary64 (1 / 1000) = Fin y" "\<bar>y - 1 / 1000\<bar> \<le> 1 / 4503599627370496"
    by (rule fround64_near[of "1 / 1000"]) simp_all
  moreover from this have "9 / 10000 \<le> y" "y \<le> 11 / 10000" unfolding abs_le_iff by linarith+
  ultimately show ?thesis using that[of y] by (simp add: lit_def)
qed

section \<open>Values bounded by a power of two\<close>

lemma fround_pow2:
  assumes "2 \<le> prec f" and "emin f - (prec f - 1) \<le> 0" and "int k \<le> emax f"
  shows "fround f (2 ^ k) = Fin (2 ^ k)"
proof -
  have "(2 powi int k :: rat) < 2 powi (emax f + 1)" unfolding powi2_less_iff using assms(3) by simp
  then have lt: "\<bar>of_int 1 * 2 powi int k\<bar> < (2 powi (emax f + 1) :: rat)" by simp
  have "(1 :: int) < 2 ^ nat (prec f)" using assms(1) by simp
  then have "fround f (of_int 1 * 2 powi int k) = Fin (of_int 1 * 2 powi int k)"
    using assms lt by (intro fround_exact) simp_all
  then show ?thesis by simp
qed

lemma fround32_pow:
  assumes "\<bar>q\<bar> \<le> 2 ^ k" and "k < 100"
  obtains y where "fround binary32 q = Fin y" "\<bar>y\<bar> \<le> 2 ^ k"
proof -
  have e: "fround binary32 (2 ^ k) = Fin (2 ^ k)"
    by (rule fround_pow2) (use assms(2) in \<open>simp_all add: binary32_def\<close>)
  then have "fround binary32 (- (2 ^ k)) = Fin (- (2 ^ k))" by (simp add: b32.rnd_neg)
  moreover have "- (2 ^ k) \<le> q" "q \<le> 2 ^ k" using assms(1) by (simp_all add: abs_le_iff)
  ultimately obtain y where "fround binary32 q = Fin y" "- (2 ^ k) \<le> y" "y \<le> 2 ^ k"
    using b32.between[OF _ e, of "- (2 ^ k)" q] by blast
  then show ?thesis using that[of y] by (simp add: abs_le_iff)
qed

lemma fround64_pow:
  assumes "\<bar>q\<bar> \<le> 2 ^ k" and "k < 100"
  obtains y where "fround binary64 q = Fin y" "\<bar>y\<bar> \<le> 2 ^ k"
proof -
  have e: "fround binary64 (2 ^ k) = Fin (2 ^ k)"
    by (rule fround_pow2) (use assms(2) in \<open>simp_all add: binary64_def\<close>)
  then have "fround binary64 (- (2 ^ k)) = Fin (- (2 ^ k))" by (simp add: b64.rnd_neg)
  moreover have "- (2 ^ k) \<le> q" "q \<le> 2 ^ k" using assms(1) by (simp_all add: abs_le_iff)
  ultimately obtain y where "fround binary64 q = Fin y" "- (2 ^ k) \<le> y" "y \<le> 2 ^ k"
    using b64.between[OF _ e, of "- (2 ^ k)" q] by blast
  then show ?thesis using that[of y] by (simp add: abs_le_iff)
qed

text \<open>Finite values of magnitude at most \<open>2 ^ k\<close>, and how the operations move the bound.\<close>

definition mag32 :: "nat \<Rightarrow> f32 \<Rightarrow> bool" where
  "mag32 k x \<longleftrightarrow> (\<exists>q. x = F32 (Fin q) \<and> \<bar>q\<bar> \<le> 2 ^ k)"

definition mag64 :: "nat \<Rightarrow> f64 \<Rightarrow> bool" where
  "mag64 k x \<longleftrightarrow> (\<exists>q. x = F64 (Fin q) \<and> \<bar>q\<bar> \<le> 2 ^ k)"

lemma mag32_mono: "mag32 j x \<Longrightarrow> j \<le> k \<Longrightarrow> mag32 k x"
  using power_increasing[of j k "2 :: rat"] by (fastforce simp: mag32_def intro: order_trans)

lemma mag64_mono: "mag64 j x \<Longrightarrow> j \<le> k \<Longrightarrow> mag64 k x"
  using power_increasing[of j k "2 :: rat"] by (fastforce simp: mag64_def intro: order_trans)

lemma mag32_add: "mag32 k x \<Longrightarrow> mag32 k y \<Longrightarrow> k < 99 \<Longrightarrow> mag32 (k + 1) (x + y)"
proof -
  assume "mag32 k x" "mag32 k y" "k < 99"
  then obtain a b where ab: "x = F32 (Fin a)" "\<bar>a\<bar> \<le> 2 ^ k" "y = F32 (Fin b)" "\<bar>b\<bar> \<le> 2 ^ k"
    by (auto simp: mag32_def)
  have "\<bar>a + b\<bar> \<le> 2 ^ (k + 1)" using ab(2,4) by simp
  then obtain z where "fround binary32 (a + b) = Fin z" "\<bar>z\<bar> \<le> 2 ^ (k + 1)"
    by (rule fround32_pow) (use \<open>k < 99\<close> in simp)
  then show ?thesis using ab by (auto simp: mag32_def F32_arith)
qed

lemma mag32_diff: "mag32 k x \<Longrightarrow> mag32 k y \<Longrightarrow> k < 99 \<Longrightarrow> mag32 (k + 1) (x - y)"
proof -
  assume "mag32 k x" "mag32 k y" "k < 99"
  then obtain a b where ab: "x = F32 (Fin a)" "\<bar>a\<bar> \<le> 2 ^ k" "y = F32 (Fin b)" "\<bar>b\<bar> \<le> 2 ^ k"
    by (auto simp: mag32_def)
  have "\<bar>a - b\<bar> \<le> 2 ^ (k + 1)" using ab(2,4) by simp
  then obtain z where "fround binary32 (a - b) = Fin z" "\<bar>z\<bar> \<le> 2 ^ (k + 1)"
    by (rule fround32_pow) (use \<open>k < 99\<close> in simp)
  then show ?thesis using ab by (auto simp: mag32_def F32_arith)
qed

lemma mag32_mult: "mag32 j x \<Longrightarrow> mag32 k y \<Longrightarrow> j + k < 100 \<Longrightarrow> mag32 (j + k) (x * y)"
proof -
  assume "mag32 j x" "mag32 k y" "j + k < 100"
  then obtain a b where ab: "x = F32 (Fin a)" "\<bar>a\<bar> \<le> 2 ^ j" "y = F32 (Fin b)" "\<bar>b\<bar> \<le> 2 ^ k"
    by (auto simp: mag32_def)
  have "\<bar>a * b\<bar> \<le> 2 ^ j * 2 ^ k" unfolding abs_mult using ab(2,4) by (intro mult_mono) simp_all
  then have "\<bar>a * b\<bar> \<le> 2 ^ (j + k)" by (simp add: power_add)
  then obtain z where "fround binary32 (a * b) = Fin z" "\<bar>z\<bar> \<le> 2 ^ (j + k)"
    by (rule fround32_pow) (use \<open>j + k < 100\<close> in simp)
  then show ?thesis using ab by (auto simp: mag32_def F32_arith)
qed

lemma mag64_mult: "mag64 j x \<Longrightarrow> mag64 k y \<Longrightarrow> j + k < 100 \<Longrightarrow> mag64 (j + k) (x * y)"
proof -
  assume "mag64 j x" "mag64 k y" "j + k < 100"
  then obtain a b where ab: "x = F64 (Fin a)" "\<bar>a\<bar> \<le> 2 ^ j" "y = F64 (Fin b)" "\<bar>b\<bar> \<le> 2 ^ k"
    by (auto simp: mag64_def)
  have "\<bar>a * b\<bar> \<le> 2 ^ j * 2 ^ k" unfolding abs_mult using ab(2,4) by (intro mult_mono) simp_all
  then have "\<bar>a * b\<bar> \<le> 2 ^ (j + k)" by (simp add: power_add)
  then obtain z where "fround binary64 (a * b) = Fin z" "\<bar>z\<bar> \<le> 2 ^ (j + k)"
    by (rule fround64_pow) (use \<open>j + k < 100\<close> in simp)
  then show ?thesis using ab by (auto simp: mag64_def F64_arith)
qed

lemma mag64_add: "mag64 k x \<Longrightarrow> mag64 k y \<Longrightarrow> k < 99 \<Longrightarrow> mag64 (k + 1) (x + y)"
proof -
  assume "mag64 k x" "mag64 k y" "k < 99"
  then obtain a b where ab: "x = F64 (Fin a)" "\<bar>a\<bar> \<le> 2 ^ k" "y = F64 (Fin b)" "\<bar>b\<bar> \<le> 2 ^ k"
    by (auto simp: mag64_def)
  have "\<bar>a + b\<bar> \<le> 2 ^ (k + 1)" using ab(2,4) by simp
  then obtain z where "fround binary64 (a + b) = Fin z" "\<bar>z\<bar> \<le> 2 ^ (k + 1)"
    by (rule fround64_pow) (use \<open>k < 99\<close> in simp)
  then show ?thesis using ab by (auto simp: mag64_def F64_arith)
qed

lemma mag_to: "mag32 k x \<Longrightarrow> mag64 k (to_d x)" "mag64 k u \<Longrightarrow> k < 100 \<Longrightarrow> mag32 k (to_s u)"
proof -
  show "mag32 k x \<Longrightarrow> mag64 k (to_d x)" by (auto simp: mag32_def mag64_def)
  assume "mag64 k u" "k < 100"
  then obtain q where q: "u = F64 (Fin q)" "\<bar>q\<bar> \<le> 2 ^ k" by (auto simp: mag64_def)
  obtain z where "fround binary32 q = Fin z" "\<bar>z\<bar> \<le> 2 ^ k" by (rule fround32_pow[OF q(2) \<open>k < 100\<close>])
  then show "mag32 k (to_s u)" using q by (simp add: mag32_def)
qed

lemma mag_of_int: "\<bar>n\<bar> \<le> 2 ^ k \<Longrightarrow> k < 24 \<Longrightarrow> mag32 k (s_of_int n)" "\<bar>n\<bar> \<le> 2 ^ k \<Longrightarrow> k < 53 \<Longrightarrow> mag64 k (d_of_int n)"
proof -
  assume n: "\<bar>n\<bar> \<le> 2 ^ k"
  have r: "\<bar>of_int n\<bar> \<le> (2 ^ k :: rat)" using n by (metis of_int_abs of_int_le_iff of_int_numeral of_int_power)
  show "mag32 k (s_of_int n)" if "k < 24"
  proof -
    have "(2 :: int) ^ k < 2 ^ 24" using that by (intro power_strict_increasing) simp_all
    then show ?thesis using n r by (simp add: mag32_def)
  qed
  show "mag64 k (d_of_int n)" if "k < 53"
  proof -
    have "(2 :: int) ^ k < 2 ^ 53" using that by (intro power_strict_increasing) simp_all
    then show ?thesis using n r by (simp add: mag64_def)
  qed
qed

end
