(* ===== verification/Card_Locate.thy ===== *)
theory Card_Locate
  imports Raster Float_Bounds
begin

text \<open>
  The rest of \<^verbatim>\<open>CODE/coor_pick.c\<close>: \<open>init\<close> takes a picture of the A4 map (\<open>get_a4\<close>), fills the
  inside and the dots with \<open>BFS\<close>, averages the dots and lays a 36 by 26 grid of crossings over
  the map; \<open>find_pic\<close> finds for every dot the nearest crossing, refines it by a search in steps
  of 0.001, and turns the result into cells of 20 centimetres. \<open>readin_task\<close> fills the table of
  the known tasks.

  Results are \<open>option option\<close>: the outer \<^const>\<open>None\<close> is a loop that does not end, the inner
  one undefined behaviour. The four corners \<open>LSS\<close>, \<open>LXX\<close>, \<open>RSS\<close>, \<open>RXX\<close>, which nothing
  reads, and the clock reading of \<open>find_pic\<close> are left out.
\<close>

section \<open>Lines and crossings\<close>

record node =
  node_x :: f32
  node_y :: f32

record line =
  line_A :: f32
  line_B :: f32
  line_C :: f32

definition get_prox :: "f32 \<Rightarrow> node \<Rightarrow> node \<Rightarrow> node" where
  "get_prox lam p1 p2 =
     \<lparr>node_x = (1 - lam) * node_x p1 + lam * node_x p2, node_y = (1 - lam) * node_y p1 + lam * node_y p2\<rparr>"

definition get_line :: "node \<Rightarrow> node \<Rightarrow> line" where
  "get_line p1 p2 =
     \<lparr>line_A = node_y p2 - node_y p1, line_B = node_x p1 - node_x p2,
      line_C = - (node_x p1 * node_y p2 - node_x p2 * node_y p1)\<rparr>"

definition get_cross :: "node \<Rightarrow> node \<Rightarrow> node \<Rightarrow> node \<Rightarrow> node" where
  "get_cross p1 p2 p3 p4 =
     (let L1 = get_line p1 p2; L2 = get_line p3 p4;
          a1 = line_A L1; a2 = line_A L2; b1 = line_B L1; b2 = line_B L2;
          c1 = - line_C L1; c2 = - line_C L2;
          deno = a1 * b2 - a2 * b1
      in if d_abs (to_d deno) < lit 0.001 then \<lparr>node_x = - 1, node_y = - 1\<rparr>
         else \<lparr>node_x = (c1 * b2 - c2 * b1) / deno, node_y = (a1 * c2 - a2 * c1) / deno\<rparr>)"

definition diss :: "node \<Rightarrow> node \<Rightarrow> f32" where
  "diss p1 p2 = (node_x p1 - node_x p2) * (node_x p1 - node_x p2) + (node_y p1 - node_y p2) * (node_y p1 - node_y p2)"

section \<open>The tables of the known tasks\<close>

type_synonym task_table = "int \<Rightarrow> int \<Rightarrow> int \<Rightarrow> int"

definition task_entries :: "(int \<times> int \<times> int \<times> int) list" where
  "task_entries =
    [(0, 5, 6, 11), (0, 8, 3, 15), (0, 14, 4, 3), (0, 23, 3, 6), (0, 16, 8, 9), (0, 21, 10, 4),
     (0, 17, 13, 14), (0, 12, 14, 1), (0, 6, 16, 5), (0, 3, 12, 10), (0, 18, 19, 8), (0, 22, 17, 13),
     (1, 5, 3, 15), (1, 9, 5, 2), (1, 15, 6, 8), (1, 20, 3, 13), (1, 18, 9, 12), (1, 23, 10, 6),
     (1, 21, 15, 3), (1, 14, 16, 10), (1, 8, 18, 11), (1, 3, 17, 5), (1, 10, 12, 1), (1, 4, 9, 7),
     (2, 3, 16, 1), (2, 8, 17, 13), (2, 14, 15, 10), (2, 21, 14, 3), (2, 23, 18, 12), (2, 4, 12, 7),
     (2, 9, 11, 5), (2, 22, 8, 6), (2, 18, 4, 2), (2, 14, 6, 15), (2, 10, 3, 8), (2, 5, 7, 11),
     (3, 5, 6, 7), (3, 9, 4, 12), (3, 15, 3, 6), (3, 23, 7, 10), (3, 16, 8, 4), (3, 11, 9, 1),
     (3, 3, 12, 14), (3, 6, 17, 5), (3, 10, 14, 15), (3, 17, 15, 9), (3, 22, 18, 2), (3, 21, 11, 11),
     (4, 3, 5, 2), (4, 10, 4, 5), (4, 16, 3, 6), (4, 22, 3, 3), (4, 21, 8, 8), (4, 23, 14, 12),
     (4, 18, 18, 1), (4, 11, 16, 13), (4, 5, 15, 10), (4, 9, 12, 7), (4, 4, 9, 15), (4, 14, 7, 11),
     (5, 5, 3, 5), (5, 12, 4, 7), (5, 20, 5, 13), (5, 18, 9, 3), (5, 22, 12, 10), (5, 16, 13, 12),
     (5, 15, 17, 8), (5, 21, 18, 2), (5, 9, 15, 1), (5, 3, 14, 11), (5, 5, 10, 6), (5, 10, 8, 15)]"

definition set_task :: "int \<times> int \<times> int \<times> int \<Rightarrow> task_table \<Rightarrow> task_table" where
  "set_task e tas = (case e of (t, i, j, c) \<Rightarrow> tas(t := (tas t)(i := (tas t i)(j := c))))"

definition readin_task :: "task_table \<Rightarrow> task_table" where
  "readin_task tas = foldl (\<lambda>tas e. set_task e tas) tas task_entries"

section \<open>The state\<close>

definition X_num :: int where "X_num = 35"
definition Y_num :: int where "Y_num = 25"
definition MAX_pieces :: int where "MAX_pieces = 45"
definition rect_widthh :: int where "rect_widthh = 700"
definition rect_heightt :: int where "rect_heightt = 500"
definition inf_f :: f32 where "inf_f = to_s (1 * d_of_int 1061109567)"

record scene =
  zone :: fill
  orig :: "int arr2"
  cor :: corners
  blocks :: int
  pic_num :: int
  LS :: node
  RS :: node
  LX :: node
  RX :: node
  PIC :: "node arr"
  cross :: "node arr2"
  pos :: "node arr"
  pos_int :: "(int \<times> int) arr"
  class_of :: "int arr"
  tas :: task_table
  task_num :: int
  TASK_TAG :: int
  frame :: nat

section \<open>init\<close>

definition near_white :: "int arr2 \<Rightarrow> int \<Rightarrow> int \<Rightarrow> bool option" where
  "near_white o1 i j =
     for_up (i - 1) (i + 2) (\<lambda>ii. for_up (j - 1) (j + 2) (\<lambda>jj w. do {
       v \<leftarrow> rd2 img_width img_height o1 ii jj;
       Some (w \<or> v = 255) })) False"

definition flood :: "(store \<Rightarrow> int) \<Rightarrow> int \<Rightarrow> int \<Rightarrow> nat \<Rightarrow> bool \<Rightarrow> scene \<Rightarrow> scene option option" where
  "flood malloc x y k tag s =
     map_option (map_option (\<lambda>z. s\<lparr>zone := z, blocks := blocks s + 1\<rparr>))
       (BFS malloc (orig s) x y (blocks s) k tag (zone s))"

definition grow_inside :: "(store \<Rightarrow> int) \<Rightarrow> int \<times> int \<Rightarrow> scene \<Rightarrow> scene option option" where
  "grow_inside malloc c s =
     (let (i, j) = c in
      if img (zone s) i j = - 1 \<and> orig s i j = 0 then
        (case near_white (orig s) i j of None \<Rightarrow> Some None
         | Some w \<Rightarrow> if w then Some (Some s) else flood malloc i j 4 True s)
      else Some (Some s))"

definition grow_dot :: "(store \<Rightarrow> int) \<Rightarrow> int \<Rightarrow> scene \<Rightarrow> scene option option" where
  "grow_dot malloc i s =
     (case do { e \<leftarrow> rd EDGE_NUM (edge (zone s)) i;
                l \<leftarrow> rd2 img_width img_height (img (zone s)) (fst e) (snd e);
                v \<leftarrow> rd2 img_width img_height (orig s) (fst e) (snd e);
                Some (e, l, v) } of
        None \<Rightarrow> Some None
      | Some (e, l, v) \<Rightarrow>
          if l = - 1 \<and> v = 255 then flood malloc (fst e) (snd e) 8 False s else Some (Some s))"

definition average :: "int \<Rightarrow> scene \<Rightarrow> scene option" where
  "average i s = do {
     b \<leftarrow> rd PIC_NUM (block (zone s)) i;
     bs \<leftarrow> wr PIC_NUM (block (zone s)) i
       (b\<lparr>aver_x := to_s (1 * d_of_int (sum_x b) / d_of_int (num b)),
          aver_y := to_s (1 * d_of_int (sum_y b) / d_of_int (num b))\<rparr>);
     Some (s\<lparr>zone := (zone s)\<lparr>block := bs\<rparr>\<rparr>)
   }"

definition keep_picture :: "int \<Rightarrow> scene \<Rightarrow> scene option" where
  "keep_picture i s = do {
     b \<leftarrow> rd PIC_NUM (block (zone s)) i;
     if is_picture b then do {
       P \<leftarrow> wr PIC_NUM (PIC s) (pic_num s) \<lparr>node_x = aver_x b, node_y = aver_y b\<rparr>;
       Some (s\<lparr>PIC := P, pic_num := pic_num s + 1\<rparr>)
     } else Some s
   }"

definition grid_step :: "int \<Rightarrow> int \<Rightarrow> f32" where
  "grid_step i n = to_s (1 * d_of_int i * to_d (to_s (1 / d_of_int n)))"

definition lay_grid :: "scene \<Rightarrow> scene" where
  "lay_grid s = s\<lparr>cross := (\<lambda>i j.
     if 0 \<le> i \<and> i \<le> X_num \<and> 0 \<le> j \<and> j \<le> Y_num then
       (let lam_x = grid_step i X_num; lam_y = grid_step j Y_num
        in get_cross (get_prox lam_x (LX s) (RX s)) (get_prox lam_x (LS s) (RS s))
             (get_prox lam_y (LX s) (LS s)) (get_prox lam_y (RX s) (RS s)))
     else \<lparr>node_x = 0, node_y = 0\<rparr>)\<rparr>"

definition node_of :: "int \<times> int \<Rightarrow> node" where
  "node_of c = \<lparr>node_x = s_of_int (fst c), node_y = s_of_int (snd c)\<rparr>"

definition take_corners :: "scene \<Rightarrow> scene" where
  "take_corners s = s\<lparr>LS := node_of (cUL (cor s)), RS := node_of (cUR (cor s)),
     LX := node_of (cDL (cor s)), RX := node_of (cDR (cor s))\<rparr>"

definition init_scene :: "(int \<Rightarrow> int) \<Rightarrow> (store \<Rightarrow> int) \<Rightarrow> (nat \<Rightarrow> int arr2) \<Rightarrow> scene \<Rightarrow> scene option option" where
  "init_scene junk malloc cam s =
     (let s = s\<lparr>pic_num := 0, blocks := 0, zone := (zone s)\<lparr>tot := 0\<rparr>\<rparr>;
          mx = img_width div 2; my = img_height div 2
      in run_then (get_a4 junk cam (frame s) (orig s)) (\<lambda>(o1, c, f).
           let s = s\<lparr>orig := o1, cor := c, frame := f, zone := (zone s)\<lparr>img := (\<lambda>_ _. - 1)\<rparr>\<rparr>
           in run_then (run_list (grow_inside malloc) (List.product [mx - 10..mx + 9] [my - 10..my + 9]) s) (\<lambda>s.
              let s = take_corners s
              in run_then (run_list (grow_dot malloc) [0..tot (zone s) - 1] s) (\<lambda>s.
                Some (map_option lay_grid
                  (do { s \<leftarrow> for_up 0 (blocks s) average s;
                        for_up 1 (blocks s) keep_picture (s\<lparr>pic_num := 0\<rparr>) }))))))"

section \<open>find_pic\<close>

definition nearest_step :: "scene \<Rightarrow> node \<Rightarrow> f32 \<times> int \<times> int \<Rightarrow> int \<times> int \<Rightarrow> f32 \<times> int \<times> int" where
  "nearest_step s p r c =
     (let d = diss p (cross s (fst c) (snd c)) in if d < fst r then (d, c) else r)"

definition nearest_cross :: "scene \<Rightarrow> node \<Rightarrow> f32 \<times> int \<times> int" where
  "nearest_cross s p = foldl (nearest_step s p) (inf_f, - 1, - 1) (List.product [1..X_num - 1] [1..Y_num - 1])"

definition add_step :: "f32 \<Rightarrow> f32" where
  "add_step lam = to_s (to_d lam + lit 0.001)"

definition lam_from :: "int \<Rightarrow> int \<Rightarrow> f32" where
  "lam_from t n = to_s (1 * d_of_int (t - 1) / d_of_int n)"

definition lam_to :: "int \<Rightarrow> int \<Rightarrow> f64" where
  "lam_to t n = 1 * d_of_int (t + 1) / d_of_int n"

text \<open>\<open>(minn, ansx, ansy)\<close>, and the two loops in front of it the loop variables.\<close>

type_synonym found = "f32 \<times> f32 \<times> f32"

definition scan_y_step :: "scene \<Rightarrow> node \<Rightarrow> f32 \<Rightarrow> f32 \<times> found \<Rightarrow> f32 \<times> found" where
  "scan_y_step s p lam_x r =
     (let lam_y = fst r;
          p1 = get_prox lam_x (LX s) (RX s); p2 = get_prox lam_x (LS s) (RS s);
          p3 = get_prox lam_y (LX s) (LS s); p4 = get_prox lam_y (RX s) (RS s);
          q = get_cross p1 p2 p3 p4;
          dis = (node_x q - node_x p) * (node_x q - node_x p) + (node_y q - node_y p) * (node_y q - node_y p)
      in (add_step lam_y, if dis < fst (snd r) then (dis, lam_x, lam_y) else snd r))"

definition scan_y :: "scene \<Rightarrow> node \<Rightarrow> int \<Rightarrow> f32 \<Rightarrow> found \<Rightarrow> found option option" where
  "scan_y s p tj lam_x m =
     map_option (map_option snd) (while_ub (\<lambda>r. to_d (fst r) \<le> lam_to tj Y_num)
       (\<lambda>r. Some (scan_y_step s p lam_x r)) (lam_from tj Y_num, m))"

text \<open>An inner loop that does not end is a \<^const>\<open>None\<close> of the body; \<open>locate_returns\<close> excludes it.\<close>

definition scan_x :: "scene \<Rightarrow> node \<Rightarrow> int \<Rightarrow> int \<Rightarrow> found option option" where
  "scan_x s p ti tj =
     map_option (map_option snd) (while_ub (\<lambda>r. to_d (fst r) \<le> lam_to ti X_num)
       (\<lambda>r. case scan_y s p tj (fst r) (snd r) of Some (Some m) \<Rightarrow> Some (add_step (fst r), m) | _ \<Rightarrow> None)
       (lam_from ti X_num, inf_f, 0, 0))"

definition locate :: "int \<Rightarrow> scene \<Rightarrow> scene option option" where
  "locate k s =
     (case rd PIC_NUM (PIC s) k of None \<Rightarrow> Some None
      | Some p \<Rightarrow>
          (let (d, ti, tj) = nearest_cross s p
           in run_then (scan_x s p ti tj) (\<lambda>(m, ax, ay).
                Some (map_option (\<lambda>a. s\<lparr>pos := a\<rparr>)
                  (wr PIC_NUM (pos s) k \<lparr>node_x = ax * s_of_int rect_widthh, node_y = ay * s_of_int rect_heightt\<rparr>)))))"

definition to_cell :: "int \<Rightarrow> scene \<Rightarrow> scene option" where
  "to_cell i s = do {
     p \<leftarrow> rd PIC_NUM (pos s) i;
     x \<leftarrow> s_int (node_x p);
     y \<leftarrow> s_int (node_y p);
     a \<leftarrow> wr PIC_NUM (pos_int s) i (u8 (cdiv x 20 + 1), u8 (cdiv y 20 + 1));
     Some (s\<lparr>pos_int := a\<rparr>)
   }"

text \<open>\<open>check_task\<close> returns before its search; what follows its first \<open>return\<close> is never run.\<close>

definition check_task :: int where
  "check_task = - 1"

definition task_card :: "int \<times> int \<Rightarrow> scene \<Rightarrow> scene option" where
  "task_card c s =
     (let t = tas s (task_num s) (fst c) (snd c) in
      if t \<noteq> 0 then do {
        a \<leftarrow> wr PIC_NUM (pos_int s) (pic_num s) c;
        b \<leftarrow> wr 30 (class_of s) (pic_num s) t;
        Some (s\<lparr>pos_int := a, class_of := b, pic_num := pic_num s + 1\<rparr>)
      } else Some s)"

definition use_task :: "scene \<Rightarrow> scene option" where
  "use_task s = map_option (\<lambda>s. s\<lparr>TASK_TAG := 1\<rparr>)
     (for_list task_card (List.product [1..25] [1..20]) (s\<lparr>pic_num := 0\<rparr>))"

definition locate_all :: "scene \<Rightarrow> scene option option" where
  "locate_all s = run_then (run_list locate [0..pic_num s - 1] s) (\<lambda>s. Some (for_up 0 (pic_num s) to_cell s))"

definition find_pic :: "(int \<Rightarrow> int) \<Rightarrow> (store \<Rightarrow> int) \<Rightarrow> (nat \<Rightarrow> int arr2) \<Rightarrow> scene \<Rightarrow> scene option option" where
  "find_pic junk malloc cam s =
     run_then (init_scene junk malloc cam s) (\<lambda>s.
       run_then (locate_all s) (\<lambda>s.
         let s = s\<lparr>task_num := check_task\<rparr>
         in Some (if task_num s \<noteq> - 1 then use_task s else Some s)))"

section \<open>The search of one picture ends\<close>

lemma add_step_progress:
  assumes "- 1 \<le> q" and "q \<le> 1"
  obtains r where "add_step (F32 (Fin q)) = F32 (Fin r)" "q + 1 / 2000 \<le> r" "r \<le> q + 1 / 500"
proof -
  obtain c where c: "lit 0.001 = F64 (Fin c)" "9 / 10000 \<le> c" "c \<le> 11 / 10000" by (rule lit_0001)
  obtain y where y: "fround binary64 (q + c) = Fin y" "\<bar>y - (q + c)\<bar> \<le> 1 / 4503599627370496"
    by (rule fround64_near[of "q + c"]) (use assms c in auto)
  have yb: "\<bar>y\<bar> < 4" using y(2) c assms unfolding abs_le_iff abs_less_iff by linarith
  obtain z where z: "fround binary32 y = Fin z" "\<bar>z - y\<bar> \<le> 1 / 8388608" by (rule fround32_near[OF yb])
  have "q + 1 / 2000 \<le> z" "z \<le> q + 1 / 500" using y(2) z(2) c unfolding abs_le_iff by linarith+
  then show ?thesis using that[of z] c(1) y(1) z(1) by (simp add: add_step_def F64_arith)
qed

lemma lam_from_range:
  assumes "0 < n" and "n < 1000" and "- n \<le> t - 1" and "t - 1 \<le> n"
  obtains q where "lam_from t n = F32 (Fin q)" "- 1 \<le> q" "q \<le> 1" "1 \<le> t \<Longrightarrow> 0 \<le> q"
proof -
  let ?v = "of_int (t - 1) / of_int n :: rat" and ?lo = "if 1 \<le> t then 0 else - 1 :: int"
  have v: "of_int ?lo \<le> ?v" "?v \<le> of_int 1" using assms by (auto simp: divide_simps)
  obtain y where y: "fround binary64 ?v = Fin y" "of_int ?lo \<le> y" "y \<le> of_int 1"
    by (rule fround64_between[OF v]) (use assms in auto)
  obtain z where z: "fround binary32 y = Fin z" "of_int ?lo \<le> z" "z \<le> of_int 1"
    by (rule fround32_between[OF y(2,3)]) (use assms in auto)
  have e: "fround binary64 (of_int (t - 1)) = Fin (of_int (t - 1))" using assms by (intro fround_int64) simp
  have "lam_from t n = F32 (Fin z)"
    using assms y z e by (simp add: lam_from_def one_F64 F64_arith del: of_int_diff)
  then show ?thesis using that[of z] z by (auto split: if_splits)
qed

lemma lam_to_range:
  assumes "0 < n" and "n < 1000" and "- n \<le> t + 1" and "t + 1 \<le> n"
  obtains r where "lam_to t n = F64 (Fin r)" "r \<le> 1"
proof -
  let ?v = "of_int (t + 1) / of_int n :: rat"
  have v: "of_int (- 1) \<le> ?v" "?v \<le> of_int 1" using assms by (auto simp: divide_simps)
  obtain y where y: "fround binary64 ?v = Fin y" "y \<le> of_int 1"
    by (rule fround64_between[OF v]) (use assms in auto)
  have e: "fround binary64 (of_int (t + 1)) = Fin (of_int (t + 1))" using assms by (intro fround_int64) simp
  have "lam_to t n = F64 (Fin y)"
    using assms y e by (simp add: lam_to_def one_F64 F64_arith del: of_int_add)
  then show ?thesis using that[of y] y by simp
qed

text \<open>Both loops: the counter moves by at least 1/2000 and stays below 1, so they end.\<close>

lemma lam_loop:
  assumes "- 1 \<le> lo" and "lo \<le> q0" and "q0 \<le> 1" and "r1 \<le> 1" and "P m0"
    and step: "\<And>q m. lo \<le> q \<Longrightarrow> q \<le> 1 \<Longrightarrow> P m \<Longrightarrow>
      \<exists>m'. body (F32 (Fin q), m) = Some (add_step (F32 (Fin q)), m') \<and> P m'"
  shows "\<exists>lam m. while_ub (\<lambda>r. to_d (fst r) \<le> F64 (Fin r1)) body (F32 (Fin q0), m0) = Some (Some (lam, m)) \<and> P m"
proof -
  let ?I = "\<lambda>r. \<exists>q. fst r = F32 (Fin q) \<and> lo \<le> q \<and> P (snd r)"
  let ?f = "\<lambda>r :: f32 \<times> 'a. case v32 (fst r) of Fin q \<Rightarrow> nat \<lceil>(3 - q) * 2000\<rceil> | _ \<Rightarrow> 0"
  have "\<exists>t. while_ub (\<lambda>r. to_d (fst r) \<le> F64 (Fin r1)) body (F32 (Fin q0), m0) = Some (Some t)
      \<and> ?I t \<and> \<not> to_d (fst t) \<le> F64 (Fin r1)"
  proof (rule while_ub_total[where r = "measure ?f"])
    show "?I (F32 (Fin q0), m0)" using assms by simp
    fix s assume I: "?I s" and g: "to_d (fst s) \<le> F64 (Fin r1)"
    obtain q m where s: "s = (F32 (Fin q), m)" "lo \<le> q" "P m" using I by (cases s) auto
    have q1: "q \<le> 1" using g assms(4) by (simp add: s)
    obtain m' where b: "body s = Some (add_step (F32 (Fin q)), m')" "P m'" using step[OF s(2) q1 s(3)] s by auto
    obtain r where r: "add_step (F32 (Fin q)) = F32 (Fin r)" "q + 1 / 2000 \<le> r"
      using add_step_progress[of q] assms(1) s(2) q1 by force
    have c: "\<lceil>u\<rceil> < \<lceil>v\<rceil>" if "u \<le> v - 1" for u v :: rat
      using ceiling_mono[OF that] ceiling_diff_of_int[of v 1] by simp
    have "\<lceil>(3 - r) * 2000\<rceil> < \<lceil>(3 - q) * 2000\<rceil>" by (rule c) (use r(2) in simp)
    moreover have "0 < \<lceil>(3 - q) * 2000\<rceil>" using q1 by simp
    ultimately show "\<exists>t. body s = Some t \<and> ?I t \<and> (t, s) \<in> measure ?f"
      using b r s by auto
  qed simp
  then show ?thesis by force
qed

definition unit_from :: "rat \<Rightarrow> f32 \<Rightarrow> bool" where
  "unit_from lo x \<longleftrightarrow> (\<exists>q. x = F32 (Fin q) \<and> lo \<le> q \<and> q \<le> 1)"

lemma lower_end:
  "lam_from t n = F32 (Fin q) \<Longrightarrow> (if 1 \<le> t then 0 else - 1) \<le> q \<Longrightarrow> q \<le> 1 \<Longrightarrow>
   unit_from (if 1 \<le> t then 0 else - 1) (lam_from t n)"
  by (auto simp: unit_from_def)

lemma scan_y_returns:
  assumes t: "- 1 \<le> tj" "tj \<le> 24" and lx: "unit_from lo lam_x" and lo: "lo \<le> 0" "lo' \<le> (if 1 \<le> tj then 0 else - 1)"
    and m: "unit_from lo (fst (snd m))" "unit_from lo' (snd (snd m))"
  shows "\<exists>m'. scan_y s p tj lam_x m = Some (Some m') \<and> unit_from lo (fst (snd m')) \<and> unit_from lo' (snd (snd m'))"
proof -
  obtain q0 where q0: "lam_from tj Y_num = F32 (Fin q0)" "- 1 \<le> q0" "q0 \<le> 1" "1 \<le> tj \<Longrightarrow> 0 \<le> q0"
    by (rule lam_from_range[of Y_num tj]) (use t in \<open>auto simp: Y_num_def\<close>)
  obtain r1 where r1: "lam_to tj Y_num = F64 (Fin r1)" "r1 \<le> 1"
    by (rule lam_to_range[of Y_num tj]) (use t in \<open>auto simp: Y_num_def\<close>)
  let ?P = "\<lambda>m. unit_from lo (fst (snd m)) \<and> unit_from lo' (snd (snd m))"
  have "\<exists>lam m'. while_ub (\<lambda>r. to_d (fst r) \<le> F64 (Fin r1)) (\<lambda>r. Some (scan_y_step s p lam_x r)) (F32 (Fin q0), m)
      = Some (Some (lam, m')) \<and> ?P m'"
  proof (rule lam_loop[where lo = "if 1 \<le> tj then 0 else - 1"])
    fix q :: rat and n :: found assume "(if 1 \<le> tj then 0 else - 1) \<le> q" "q \<le> 1" "?P n"
    then show "\<exists>m'. Some (scan_y_step s p lam_x (F32 (Fin q), n)) = Some (add_step (F32 (Fin q)), m') \<and> ?P m'"
      using lx lo by (auto simp: scan_y_step_def Let_def unit_from_def)
  qed (use q0 r1 m in auto)
  then show ?thesis unfolding scan_y_def q0(1) r1(1) by auto
qed

lemma scan_x_returns:
  assumes t: "- 1 \<le> ti" "ti \<le> 34" "- 1 \<le> tj" "tj \<le> 24"
  shows "\<exists>m. scan_x s p ti tj = Some (Some m) \<and> unit_from (if 1 \<le> ti then 0 else - 1) (fst (snd m))
    \<and> unit_from (if 1 \<le> tj then 0 else - 1) (snd (snd m))"
proof -
  obtain q0 where q0: "lam_from ti X_num = F32 (Fin q0)" "- 1 \<le> q0" "q0 \<le> 1" "1 \<le> ti \<Longrightarrow> 0 \<le> q0"
    by (rule lam_from_range[of X_num ti]) (use t in \<open>auto simp: X_num_def\<close>)
  obtain r1 where r1: "lam_to ti X_num = F64 (Fin r1)" "r1 \<le> 1"
    by (rule lam_to_range[of X_num ti]) (use t in \<open>auto simp: X_num_def\<close>)
  let ?lx = "if 1 \<le> ti then 0 else - 1 :: rat" and ?ly = "if 1 \<le> tj then 0 else - 1 :: rat"
  let ?P = "\<lambda>m. unit_from ?lx (fst (snd m)) \<and> unit_from ?ly (snd (snd m))"
  let ?body = "\<lambda>r. case scan_y s p tj (fst r) (snd r) of Some (Some m) \<Rightarrow> Some (add_step (fst r), m) | _ \<Rightarrow> None"
  have "\<exists>lam m'. while_ub (\<lambda>r. to_d (fst r) \<le> F64 (Fin r1)) ?body (F32 (Fin q0), inf_f, 0, 0)
      = Some (Some (lam, m')) \<and> ?P m'"
  proof (rule lam_loop[where lo = ?lx])
    fix q :: rat and n :: found assume "?lx \<le> q" "q \<le> 1" "?P n"
    then show "\<exists>m'. ?body (F32 (Fin q), n) = Some (add_step (F32 (Fin q)), m') \<and> ?P m'"
      using scan_y_returns[of tj ?lx "F32 (Fin q)" ?ly n s p] t by (fastforce simp: unit_from_def)
  qed (use q0 r1 in \<open>auto simp: unit_from_def one_F64\<close>)
  then show ?thesis unfolding scan_x_def q0(1) r1(1) by auto
qed

section \<open>Cells lie on the field\<close>

text \<open>Some crossing of the inner grid is nearer to \<open>p\<close> than \<open>inf\<close>.\<close>

definition reachable_pic :: "scene \<Rightarrow> node \<Rightarrow> bool" where
  "reachable_pic s p \<longleftrightarrow> (\<exists>c \<in> set (List.product [1..X_num - 1] [1..Y_num - 1]). diss p (cross s (fst c) (snd c)) < inf_f)"

definition inner_cross :: "int \<times> int \<Rightarrow> bool" where
  "inner_cross c \<longleftrightarrow> 1 \<le> fst c \<and> fst c \<le> 34 \<and> 1 \<le> snd c \<and> snd c \<le> 24"

lemma nearest_fold:
  assumes "\<forall>c \<in> set cs. inner_cross c"
  shows "snd r = (- 1, - 1) \<and> fst r = inf_f \<or> inner_cross (snd r) \<Longrightarrow>
    (let r' = foldl (nearest_step s p) r cs in
       (snd r' = (- 1, - 1) \<and> fst r' = inf_f \<or> inner_cross (snd r'))
       \<and> (inner_cross (snd r) \<or> (\<exists>c \<in> set cs. diss p (cross s (fst c) (snd c)) < inf_f) \<longrightarrow> inner_cross (snd r')))"
  using assms
proof (induction cs arbitrary: r)
  case (Cons c cs)
  have ic: "inner_cross c" using Cons.prems(2) by simp
  have r1: "snd (nearest_step s p r c) = (- 1, - 1) \<and> fst (nearest_step s p r c) = inf_f
      \<or> inner_cross (snd (nearest_step s p r c))"
    using Cons.prems(1) ic by (auto simp: nearest_step_def Let_def)
  have "inner_cross (snd (nearest_step s p r c))"
    if "inner_cross (snd r) \<or> diss p (cross s (fst c) (snd c)) < inf_f"
    using that ic Cons.prems(1) by (auto simp: nearest_step_def Let_def)
  then show ?case using Cons.IH[OF r1] Cons.prems(2) by (auto simp: Let_def)
qed (simp add: Let_def)

lemma nearest_cross_cases:
  obtains d c where "nearest_cross s p = (d, c)" "c = (- 1, - 1) \<or> inner_cross c"
    "reachable_pic s p \<Longrightarrow> inner_cross c"
proof -
  obtain d c where dc: "nearest_cross s p = (d, c)" by (cases "nearest_cross s p")
  have "\<forall>c \<in> set (List.product [1..X_num - 1] [1..Y_num - 1]). inner_cross c"
    by (auto simp: inner_cross_def X_num_def Y_num_def)
  from nearest_fold[OF this, of "(inf_f, - 1, - 1)" s p] dc
  have "c = (- 1, - 1) \<or> inner_cross c" "reachable_pic s p \<longrightarrow> inner_cross c"
    unfolding nearest_cross_def reachable_pic_def by (auto simp: Let_def)
  then show ?thesis using that[OF dc] by blast
qed

definition pos_ok :: "node \<Rightarrow> bool" where
  "pos_ok p \<longleftrightarrow> (\<exists>a b. p = \<lparr>node_x = F32 (Fin a), node_y = F32 (Fin b)\<rparr> \<and> 0 \<le> a \<and> a \<le> 700 \<and> 0 \<le> b \<and> b \<le> 500)"

lemma unit_times:
  assumes "unit_from 0 x" and "0 < n" and "n < 1000"
  obtains a where "x * s_of_int n = F32 (Fin a)" "0 \<le> a" "a \<le> of_int n"
proof -
  obtain q where q: "x = F32 (Fin q)" "0 \<le> q" "q \<le> 1" using assms(1) by (auto simp: unit_from_def)
  have b: "of_int 0 \<le> q * of_int n" "q * of_int n \<le> of_int n"
    using q(2,3) assms(2) by (simp_all add: mult_left_le_one_le)
  obtain a where "fround binary32 (q * of_int n) = Fin a" "of_int 0 \<le> a" "a \<le> of_int n"
    by (rule fround32_between[OF b]) (use assms(2,3) in auto)
  then show ?thesis using that[of a] q(1) assms(2,3) by (simp add: F32_arith)
qed

lemma locate_total:
  assumes "0 \<le> k" and "k < PIC_NUM"
  shows "\<exists>p. locate k s = Some (Some (s\<lparr>pos := (pos s)(k := p)\<rparr>)) \<and> (reachable_pic s (PIC s k) \<longrightarrow> pos_ok p)"
proof -
  obtain d c where n: "nearest_cross s (PIC s k) = (d, c)" "c = (- 1, - 1) \<or> inner_cross c"
    "reachable_pic s (PIC s k) \<Longrightarrow> inner_cross c"
    using nearest_cross_cases[of s "PIC s k"] by blast
  obtain ti tj where c: "c = (ti, tj)" by (cases c)
  have t: "- 1 \<le> ti" "ti \<le> 34" "- 1 \<le> tj" "tj \<le> 24" using n(2) by (auto simp: c inner_cross_def)
  obtain m ax ay where m: "scan_x s (PIC s k) ti tj = Some (Some (m, ax, ay))"
    "unit_from (if 1 \<le> ti then 0 else - 1) ax" "unit_from (if 1 \<le> tj then 0 else - 1) ay"
    using scan_x_returns[OF t] by fastforce
  let ?p = "\<lparr>node_x = ax * s_of_int rect_widthh, node_y = ay * s_of_int rect_heightt\<rparr>"
  have "locate k s = Some (Some (s\<lparr>pos := (pos s)(k := ?p)\<rparr>))"
    using assms n(1) m(1) by (simp add: locate_def c rd_def wr_def)
  moreover have "pos_ok ?p" if "reachable_pic s (PIC s k)"
  proof -
    have "1 \<le> ti" "1 \<le> tj" using n(3)[OF that] by (simp_all add: c inner_cross_def)
    then have u: "unit_from 0 ax" "unit_from 0 ay" using m by simp_all
    obtain a where "ax * s_of_int 700 = F32 (Fin a)" "0 \<le> a" "a \<le> of_int 700" by (rule unit_times[OF u(1), of 700]) auto
    moreover obtain b where "ay * s_of_int 500 = F32 (Fin b)" "0 \<le> b" "b \<le> of_int 500" by (rule unit_times[OF u(2), of 500]) auto
    ultimately show ?thesis unfolding pos_ok_def rect_widthh_def rect_heightt_def by (intro exI[of _ a] exI[of _ b]) simp
  qed
  ultimately show ?thesis by blast
qed

definition on_map :: "int \<times> int \<Rightarrow> bool" where
  "on_map c \<longleftrightarrow> 1 \<le> fst c \<and> fst c \<le> 36 \<and> 1 \<le> snd c \<and> snd c \<le> 26"

lemma cell_coord:
  assumes "0 \<le> a" and "a \<le> of_int (20 * n)" and "0 \<le> n" and "n < 200"
  obtains i where "s_int (F32 (Fin a)) = Some i" "1 \<le> u8 (cdiv i 20 + 1)" "u8 (cdiv i 20 + 1) \<le> n + 1"
proof -
  obtain i where i: "s_int (F32 (Fin a)) = Some i" "0 \<le> i" "i \<le> 20 * n"
    by (rule s_int_between[of 0 a "20 * n"]) (use assms in auto)
  have "cdiv i 20 = i div 20" "0 \<le> i div 20" using i by (simp_all add: c_simps)
  moreover have "i div 20 \<le> n" using i(3) by linarith
  ultimately have "1 \<le> cdiv i 20 + 1" "cdiv i 20 + 1 \<le> n + 1" by simp_all
  then show ?thesis using that[OF i(1)] assms(4) by (simp add: u8_id)
qed

lemma to_cell_total:
  assumes "0 \<le> i" and "i < PIC_NUM" and "pos_ok (pos s i)"
  shows "\<exists>c. to_cell i s = Some (s\<lparr>pos_int := (pos_int s)(i := c)\<rparr>) \<and> on_map c"
proof -
  obtain a b where p: "pos s i = \<lparr>node_x = F32 (Fin a), node_y = F32 (Fin b)\<rparr>" "0 \<le> a" "a \<le> 700" "0 \<le> b" "b \<le> 500"
    using assms(3) by (auto simp: pos_ok_def)
  obtain x where x: "s_int (F32 (Fin a)) = Some x" "1 \<le> u8 (cdiv x 20 + 1)" "u8 (cdiv x 20 + 1) \<le> 35 + 1"
    by (rule cell_coord[of a 35]) (use p in auto)
  obtain y where y: "s_int (F32 (Fin b)) = Some y" "1 \<le> u8 (cdiv y 20 + 1)" "u8 (cdiv y 20 + 1) \<le> 25 + 1"
    by (rule cell_coord[of b 25]) (use p in auto)
  show ?thesis using assms(1,2) p(1) x y by (auto simp: to_cell_def rd_def wr_def on_map_def)
qed

text \<open>The frame of the search: it changes \<open>pos\<close> and \<open>pos_int\<close> only.\<close>

lemma reachable_pic_pos [simp]: "reachable_pic (s\<lparr>pos := q\<rparr>) p \<longleftrightarrow> reachable_pic s p"
  by (simp add: reachable_pic_def)

lemma locate_list_total:
  assumes "\<forall>k \<in> set ks. 0 \<le> k \<and> k < PIC_NUM \<and> reachable_pic s (PIC s k)"
  shows "\<exists>q. run_list locate ks s = Some (Some (s\<lparr>pos := q\<rparr>)) \<and> (\<forall>k. k \<in> set ks \<longrightarrow> pos_ok (q k))
    \<and> (\<forall>k. k \<notin> set ks \<longrightarrow> q k = pos s k)"
  using assms
proof (induction ks arbitrary: s)
  case Nil
  then show ?case by (intro exI[of _ "pos s"]) simp
next
  case (Cons k ks)
  then obtain p where p: "locate k s = Some (Some (s\<lparr>pos := (pos s)(k := p)\<rparr>))" "pos_ok p"
    using locate_total[of k s] by auto
  let ?s = "s\<lparr>pos := (pos s)(k := p)\<rparr>"
  obtain q where q: "run_list locate ks ?s = Some (Some (?s\<lparr>pos := q\<rparr>))" "\<forall>k. k \<in> set ks \<longrightarrow> pos_ok (q k)"
    "\<forall>j. j \<notin> set ks \<longrightarrow> q j = pos ?s j" using Cons.IH[of ?s] Cons.prems by auto
  have "pos_ok (q k)" using q(2,3) p(2) by (cases "k \<in> set ks") auto
  then show ?case using p q by (intro exI[of _ q]) auto
qed

lemma cells_total:
  assumes "0 \<le> n" and "n \<le> PIC_NUM" and "\<forall>i. 0 \<le> i \<and> i < n \<longrightarrow> pos_ok (pos s i)"
  shows "\<exists>c. for_up 0 n to_cell s = Some (s\<lparr>pos_int := c\<rparr>) \<and> (\<forall>i. 0 \<le> i \<and> i < n \<longrightarrow> on_map (c i))"
proof -
  let ?P = "\<lambda>i t. \<exists>c. t = s\<lparr>pos_int := c\<rparr> \<and> (\<forall>j. 0 \<le> j \<and> j < i \<longrightarrow> on_map (c j))"
  have "\<exists>t. for_up 0 n to_cell s = Some t \<and> ?P n t"
  proof (rule for_up_total)
    show "?P 0 s" by (intro exI[of _ "pos_int s"]) auto
    fix i t assume i: "0 \<le> i" "i < n" and "?P i t"
    then obtain c where c: "t = s\<lparr>pos_int := c\<rparr>" "\<forall>j. 0 \<le> j \<and> j < i \<longrightarrow> on_map (c j)" by blast
    obtain d where d: "to_cell i t = Some (t\<lparr>pos_int := (pos_int t)(i := d)\<rparr>)" "on_map d"
      using to_cell_total[of i t] i assms c(1) by auto
    then show "\<exists>t'. to_cell i t = Some t' \<and> ?P (i + 1) t'"
      using c by (intro exI[of _ "t\<lparr>pos_int := (pos_int t)(i := d)\<rparr>"] conjI exI[of _ "c(i := d)"]) auto
  qed (use assms in auto)
  then show ?thesis by blast
qed

lemma locate_all_total:
  assumes "0 \<le> pic_num s" and "pic_num s \<le> PIC_NUM"
    and "\<forall>k. 0 \<le> k \<and> k < pic_num s \<longrightarrow> reachable_pic s (PIC s k)"
  shows "\<exists>q c. locate_all s = Some (Some (s\<lparr>pos := q, pos_int := c\<rparr>)) \<and> (\<forall>k. 0 \<le> k \<and> k < pic_num s \<longrightarrow> on_map (c k))"
proof -
  obtain q where q: "run_list locate [0..pic_num s - 1] s = Some (Some (s\<lparr>pos := q\<rparr>))"
    "\<forall>k. k \<in> set [0..pic_num s - 1] \<longrightarrow> pos_ok (q k)"
    using locate_list_total[of "[0..pic_num s - 1]" s] assms by auto
  obtain c where "for_up 0 (pic_num s) to_cell (s\<lparr>pos := q\<rparr>) = Some (s\<lparr>pos := q, pos_int := c\<rparr>)"
    "\<forall>i. 0 \<le> i \<and> i < pic_num s \<longrightarrow> on_map (c i)"
    using cells_total[of "pic_num s" "s\<lparr>pos := q\<rparr>"] q(2) assms by auto
  then show ?thesis using q(1) by (auto simp: locate_all_def)
qed

section \<open>Properties\<close>

text \<open>
  C18. The refinement of one picture, two nested loops over a \<open>float\<close> counter that is moved by
  0.001 in \<open>double\<close> and rounded back, always ends, without undefined behaviour, whatever the
  picture; only the entry of the picture in \<open>pos\<close> changes.
\<close>

theorem locate_returns:
  assumes "0 \<le> k" and "k < PIC_NUM"
  shows "\<exists>p. locate k s = Some (Some (s\<lparr>pos := (pos s)(k := p)\<rparr>))"
  using locate_total[OF assms] by blast

definition blank_scene :: scene where
  "blank_scene = \<lparr>zone = \<lparr>img = \<lambda>_ _. 0, block = \<lambda>_. \<lparr>num = 0, sum_x = 0, sum_y = 0, aver_x = 0, aver_y = 0\<rparr>,
       edge = \<lambda>_. (0, 0), tot = 0, que = new_pair (\<lambda>_. None)\<rparr>, orig = \<lambda>_ _. 0,
     cor = \<lparr>cUL = (0, 0), cUR = (0, 0), cDL = (0, 0), cDR = (0, 0)\<rparr>, blocks = 0, pic_num = 1,
     LS = node_of (0, 119), RS = node_of (187, 119), LX = node_of (0, 0), RX = node_of (187, 0),
     PIC = \<lambda>_. node_of (0, 0), cross = \<lambda>_ _. node_of (0, 0), pos = \<lambda>_. node_of (0, 0), pos_int = \<lambda>_. (0, 0),
     class_of = \<lambda>_. 0, tas = \<lambda>_ _ _. 0, task_num = 0, TASK_TAG = 0, frame = 0\<rparr>"

lemma locate_returns_witness: "\<exists>p. locate 0 blank_scene = Some (Some (blank_scene\<lparr>pos := (\<lambda>_. node_of (0, 0))(0 := p)\<rparr>))"
  using locate_returns[of 0 blank_scene] by (simp add: PIC_NUM_def blank_scene_def)

end
