(* ===== verification/Corner_Pick.thy ===== *)
theory Corner_Pick
  imports Raster Geometry Float_Bounds
begin

text \<open>
  Finding the card under the camera, \<^verbatim>\<open>CODE/pic_pick.c\<close>: the edge filter \<open>sobel\<close>, the
  search of the four corner templates (\<open>get_similarity\<close>), the centre of the card from the
  corners that were found (\<open>get_center\<close>) and the whole step \<open>get_pic\<close>. \<open>dialation\<close> and
  \<open>erosion\<close> are modelled too, though nothing calls them. Drawing and timing are left out.

  The template search reads \<open>img\<close> up to ten cells behind the picture, without a check; such
  reads are taken from flat memory (\<open>rd_img\<close>), with the parameter \<open>junk\<close> outside the array.
\<close>

section \<open>The filters\<close>

definition tmpl_UL :: "int list list" where
  "tmpl_UL = [
    [0, 0, 0, 0, 0, 0, 0, 0, 0, 0, 0],
    [0, 0, 0, 0, 0, 0, 0, 0, 0, 0, 0],
    [0, 0, 0, 0, 0, 0, 0, 0, 0, 0, 0],
    [0, 0, 0, 0, 0, 0, 0, 0, 0, 0, 0],
    [0, 0, 0, 0, 0, 0, 0, 0, 0, 0, 0],
    [1, 1, 1, 1, 1, 0, 0, 0, 0, 0, 0],
    [1, 1, 1, 1, 1, 1, 0, 0, 0, 0, 0],
    [0, 0, 0, 0, 1, 1, 0, 0, 0, 0, 0],
    [0, 0, 0, 0, 1, 1, 0, 0, 0, 0, 0],
    [0, 0, 0, 0, 1, 1, 0, 0, 0, 0, 0],
    [0, 0, 0, 0, 1, 1, 0, 0, 0, 0, 0]]"

definition tmpl_UR :: "int list list" where
  "tmpl_UR = [
    [0, 0, 0, 0, 1, 1, 0, 0, 0, 0, 0],
    [0, 0, 0, 0, 1, 1, 0, 0, 0, 0, 0],
    [0, 0, 0, 0, 1, 1, 0, 0, 0, 0, 0],
    [0, 0, 0, 0, 1, 1, 0, 0, 0, 0, 0],
    [1, 1, 1, 1, 1, 1, 0, 0, 0, 0, 0],
    [1, 1, 1, 1, 1, 0, 0, 0, 0, 0, 0],
    [0, 0, 0, 0, 0, 0, 0, 0, 0, 0, 0],
    [0, 0, 0, 0, 0, 0, 0, 0, 0, 0, 0],
    [0, 0, 0, 0, 0, 0, 0, 0, 0, 0, 0],
    [0, 0, 0, 0, 0, 0, 0, 0, 0, 0, 0],
    [0, 0, 0, 0, 0, 0, 0, 0, 0, 0, 0]]"

definition tmpl_DR :: "int list list" where
  "tmpl_DR = [
    [0, 0, 0, 0, 0, 1, 1, 0, 0, 0, 1],
    [0, 0, 0, 0, 0, 1, 1, 0, 0, 0, 0],
    [0, 0, 0, 0, 0, 1, 1, 0, 0, 0, 0],
    [0, 0, 0, 0, 0, 1, 1, 0, 0, 0, 0],
    [0, 0, 0, 0, 0, 1, 1, 1, 1, 1, 1],
    [0, 0, 0, 0, 0, 1, 1, 1, 1, 1, 1],
    [0, 0, 0, 0, 0, 0, 0, 0, 0, 0, 0],
    [0, 0, 0, 0, 0, 0, 0, 0, 0, 0, 0],
    [0, 0, 0, 0, 0, 0, 0, 0, 0, 0, 0],
    [0, 0, 0, 0, 0, 0, 0, 0, 0, 0, 0],
    [0, 0, 0, 0, 0, 0, 0, 0, 0, 0, 0]]"

definition tmpl_DL :: "int list list" where
  "tmpl_DL = [
    [0, 0, 0, 0, 0, 0, 0, 0, 0, 0, 0],
    [0, 0, 0, 0, 0, 0, 0, 0, 0, 0, 0],
    [0, 0, 0, 0, 0, 0, 0, 0, 0, 0, 0],
    [0, 0, 0, 0, 0, 0, 0, 0, 0, 0, 0],
    [0, 0, 0, 0, 0, 0, 0, 0, 0, 0, 0],
    [0, 0, 0, 0, 0, 0, 1, 1, 1, 1, 1],
    [0, 0, 0, 0, 0, 1, 1, 1, 1, 1, 1],
    [0, 0, 0, 0, 0, 1, 1, 1, 0, 0, 0],
    [0, 0, 0, 0, 0, 1, 1, 0, 0, 0, 0],
    [0, 0, 0, 0, 0, 1, 1, 0, 0, 0, 0],
    [0, 0, 0, 0, 0, 1, 1, 0, 0, 0, 0]]"

text \<open>\<open>dialation\<close> writes \<open>img_origin\<close> from \<open>img\<close>, \<open>erosion\<close> the other way round.\<close>

definition for2 :: "int \<Rightarrow> int \<Rightarrow> int \<Rightarrow> int \<Rightarrow> (int \<Rightarrow> int \<Rightarrow> 's \<Rightarrow> 's option) \<Rightarrow> 's \<Rightarrow> 's option" where
  "for2 i0 i1 j0 j1 body = for_up i0 i1 (\<lambda>i. for_up j0 j1 (body i))"

definition dialation :: "int arr2 \<Rightarrow> int arr2 \<Rightarrow> int arr2 option" where
  "dialation im orig =
     for2 0 (img_width - 1) 0 (img_height - 1) (\<lambda>i j o1. do {
       v \<leftarrow> rd2 img_width img_height im i j;
       if v \<noteq> 0 then for2 0 2 0 2 (\<lambda>k ii o1. wr2 img_width img_height o1 (i + k) (j + ii) 1) o1 else Some o1
     }) orig"

definition erosion :: "int arr2 \<Rightarrow> int arr2 \<Rightarrow> int arr2 option" where
  "erosion orig im =
     for2 0 (img_width - 1) 0 (img_height - 1) (\<lambda>i j im. do {
       n \<leftarrow> for2 0 2 0 2 (\<lambda>k ii n. do {
              v \<leftarrow> rd2 img_width img_height orig (i + k) (j + ii);
              Some (if v \<noteq> 0 then n + 1 else n) }) (0 :: int);
       if n = 4 then wr2 img_width img_height im i j 1 else Some im
     }) im"

text \<open>
  \<open>fabs(temp1) + fabs(temp2) > 89\<close>: both are sums of eight bytes, exact in \<open>double\<close>, so the
  comparison is written on integers.
\<close>

definition grad1 :: "int arr2 \<Rightarrow> int \<Rightarrow> int \<Rightarrow> int" where
  "grad1 o1 i j = (o1 (i + 1) (j - 1) + 2 * o1 (i + 1) j + o1 (i + 1) (j + 1))
     - (o1 (i - 1) (j - 1) + 2 * o1 (i - 1) j + o1 (i - 1) (j + 1))"

definition grad2 :: "int arr2 \<Rightarrow> int \<Rightarrow> int \<Rightarrow> int" where
  "grad2 o1 i j = (o1 (i - 1) (j - 1) + 2 * o1 i (j - 1) + o1 (i + 1) (j - 1))
     - (o1 (i - 1) (j + 1) + 2 * o1 i (j + 1) + o1 (i + 1) (j + 1))"

definition sobel :: "int arr2 \<Rightarrow> int arr2 \<Rightarrow> int arr2 option" where
  "sobel orig im =
     for2 1 (img_width - 1) 1 (img_height - 1) (\<lambda>i j im.
       wr2 img_width img_height im i j (if \<bar>grad1 orig i j\<bar> + \<bar>grad2 orig i j\<bar> > 89 then 1 else 0)) im"

section \<open>The template search\<close>

definition plain_cost :: "int \<Rightarrow> int \<Rightarrow> int" where
  "plain_cost p t = \<bar>p - t\<bar>"

text \<open>The box around the edge cells: \<open>(min_i, min_j, max_i, max_j, flag_)\<close>.\<close>

type_synonym box = "int \<times> int \<times> int \<times> int \<times> bool"

definition box_step :: "int arr2 \<Rightarrow> box \<Rightarrow> int \<times> int \<Rightarrow> box" where
  "box_step im b c =
     (let (i, j) = c; (mni, mnj, mxi, mxj, flag) = b in
      if im i j \<noteq> 0 then
        (let (mni, mnj, flag) = (if \<not> flag then (i, j, True) else (mni, mnj, flag))
         in (if mni > i then i else mni, if mnj > j then j else mnj,
             if mxi < i then i else mxi, if mxj < j then j else mxj, flag))
      else b)"

definition edge_box :: "int arr2 \<Rightarrow> box" where
  "edge_box im = foldl (box_step im) (0, 0, 0, 0, False) (List.product [0..img_width - 1] [0..img_height - 1])"

definition widen :: "box \<Rightarrow> int \<times> int \<times> int \<times> int" where
  "widen b = (let (mni, mnj, mxi, mxj, flag) = b in
     (if mni - COR_H > 0 then mni - COR_H else 0,
      if mnj - COR_W > 0 then mnj - COR_W else 0,
      if mxi + COR_H < img_width then mxi + COR_H else img_width - COR_H,
      if mxj + COR_W < img_height then mxj + COR_W else img_height - COR_W))"

text \<open>The four searches run in one pass; they do not share state.\<close>

record found4 =
  fUL :: "int \<times> int \<times> int"
  fUR :: "int \<times> int \<times> int"
  fDL :: "int \<times> int \<times> int"
  fDR :: "int \<times> int \<times> int"

definition match4 :: "(int \<Rightarrow> int \<Rightarrow> int) \<Rightarrow> int \<Rightarrow> int \<Rightarrow> found4 \<Rightarrow> found4" where
  "match4 px i j s =
     (let s = s\<lparr>fUL := corner_at plain_cost 10 px tmpl_UL i j (fUL s)\<rparr>;
          s = s\<lparr>fUR := corner_at plain_cost 10 px tmpl_UR i j (fUR s)\<rparr>;
          s = s\<lparr>fDR := corner_at plain_cost 10 px tmpl_DR i j (fDR s)\<rparr>
      in s\<lparr>fDL := corner_at plain_cost 10 px tmpl_DL i j (fDL s)\<rparr>)"

definition get_similarity :: "int arr2 \<Rightarrow> (int \<Rightarrow> int) \<Rightarrow> corners \<Rightarrow> corners" where
  "get_similarity im junk c =
     (let (i0, j0, i1, j1) = widen (edge_box im);
          s = foldl (\<lambda>s i. foldl (\<lambda>s j. match4 (rd_img im junk) i j s) s [j0..j1 - 1])
                \<lparr>fUL = (100, cUL c), fUR = (100, cUR c), fDL = (100, cDL c), fDR = (100, cDR c)\<rparr> [i0..i1 - 1]
      in \<lparr>cUL = snd (fUL s), cUR = snd (fUR s), cDL = snd (fDL s), cDR = snd (fDR s)\<rparr>)"

section \<open>The centre of the card\<close>

text \<open>Which corners count: upper left, upper right, lower left, lower right.\<close>

type_synonym which = "bool \<times> bool \<times> bool \<times> bool"

definition found :: "int \<times> int \<Rightarrow> bool" where
  "found c = (fst c \<noteq> 0 \<or> snd c \<noteq> 0)"

definition shift_corners :: "corners \<Rightarrow> corners" where
  "shift_corners c = \<lparr>cUL = add2 (cUL c) 5 5, cUR = add2 (cUR c) 9 5, cDL = add2 (cDL c) 5 5, cDR = add2 (cDR c) 9 5\<rparr>"

definition dist_of :: "int \<times> int \<Rightarrow> int \<times> int \<Rightarrow> int option" where
  "dist_of a b = calc_dis (fst a) (snd a) (fst b) (snd b)"

definition side :: "int \<times> int \<Rightarrow> int \<times> int \<Rightarrow> bool option" where
  "side a b = map_option (\<lambda>d. \<not> (d > 53 \<or> d < 44)) (dist_of a b)"

definition diagonal :: "int \<times> int \<Rightarrow> int \<times> int \<Rightarrow> bool option" where
  "diagonal a b = map_option (\<lambda>d. \<not> (d_of_int d > d_of_int 53 * lit 1.414 \<or> d_of_int d < d_of_int 44 * lit 1.414)) (dist_of a b)"

text \<open>
  The \<open>switch\<close>: the corners kept, \<^const>\<open>None\<close> inside for \<open>return 0\<close>. With three corners the
  sides at the middle one are tested; \<open>third\<close> gives the corners kept when only one fits.
\<close>

definition keep_if :: "bool option \<Rightarrow> which \<Rightarrow> which option option" where
  "keep_if b w = map_option (\<lambda>b. if b then Some w else None) b"

definition third :: "bool option \<Rightarrow> bool option \<Rightarrow> which \<Rightarrow> which \<Rightarrow> which \<Rightarrow> which option option" where
  "third b1 b2 w w1 w2 = do {
     s1 \<leftarrow> b1;
     s2 \<leftarrow> b2;
     Some (if s1 \<and> s2 then Some w else if s1 then Some w1 else if s2 then Some w2 else None)
   }"

definition drop_bad :: "bool \<Rightarrow> bool \<Rightarrow> bool \<Rightarrow> bool \<Rightarrow> which" where
  "drop_bad s1 s2 s3 s4 =
     (if \<not> s1 \<and> s2 \<and> s3 \<and> s4 then (False, False, True, True)
      else if s1 \<and> \<not> s2 \<and> s3 \<and> s4 then (True, False, True, False)
      else if s1 \<and> s2 \<and> \<not> s3 \<and> s4 then (True, True, False, False)
      else if s1 \<and> s2 \<and> s3 \<and> \<not> s4 then (False, True, False, True)
      else if \<not> s1 \<and> \<not> s2 \<and> s3 \<and> s4 then (True, False, True, True)
      else if s1 \<and> \<not> s2 \<and> \<not> s3 \<and> s4 then (True, True, True, False)
      else if s1 \<and> s2 \<and> \<not> s3 \<and> \<not> s4 then (True, True, False, True)
      else if \<not> s1 \<and> s2 \<and> s3 \<and> \<not> s4 then (False, True, True, True)
      else if \<not> s1 \<and> \<not> s2 \<and> \<not> s3 \<and> s4 then (True, False, True, False)
      else if s1 \<and> \<not> s2 \<and> \<not> s3 \<and> \<not> s4 then (True, True, False, False)
      else if \<not> s1 \<and> s2 \<and> \<not> s3 \<and> \<not> s4 then (False, True, False, True)
      else if \<not> s1 \<and> \<not> s2 \<and> s3 \<and> \<not> s4 then (False, False, True, True)
      else (True, True, True, True))"

definition select :: "corners \<Rightarrow> which \<Rightarrow> which option option" where
  "select c w =
     (case w of
        (False, False, True, True) \<Rightarrow> keep_if (side (cDL c) (cDR c)) w
      | (False, True, False, True) \<Rightarrow> keep_if (side (cUR c) (cDR c)) w
      | (False, True, True, False) \<Rightarrow> keep_if (diagonal (cUR c) (cDL c)) w
      | (False, True, True, True) \<Rightarrow> third (side (cUR c) (cDR c)) (side (cDL c) (cDR c)) w
          (False, True, False, True) (False, False, True, True)
      | (True, False, False, True) \<Rightarrow> keep_if (diagonal (cUL c) (cDR c)) w
      | (True, False, True, False) \<Rightarrow> keep_if (side (cUL c) (cDL c)) w
      | (True, False, True, True) \<Rightarrow> third (side (cUL c) (cDL c)) (side (cDL c) (cDR c)) w
          (True, False, True, False) (False, False, True, True)
      | (True, True, False, False) \<Rightarrow> keep_if (side (cUL c) (cUR c)) w
      | (True, True, False, True) \<Rightarrow> third (side (cUL c) (cUR c)) (side (cUR c) (cDR c)) w
          (True, True, False, False) (False, True, False, True)
      | (True, True, True, False) \<Rightarrow> third (side (cUL c) (cDL c)) (side (cUL c) (cUR c)) w
          (True, False, True, False) (True, True, False, False)
      | (True, True, True, True) \<Rightarrow> do {
          s1 \<leftarrow> side (cUL c) (cUR c);
          s2 \<leftarrow> side (cUR c) (cDR c);
          s3 \<leftarrow> side (cDL c) (cDR c);
          s4 \<leftarrow> side (cUL c) (cDL c);
          Some (Some (drop_bad s1 s2 s3 s4)) }
      | _ \<Rightarrow> Some (Some w))"

definition mid :: "int \<times> int \<Rightarrow> int \<times> int \<Rightarrow> int \<times> int" where
  "mid a b = (cdiv (fst a + fst b) 2, cdiv (snd a + snd b) 2)"

definition centre :: "corners \<Rightarrow> which \<Rightarrow> (int \<times> int) option" where
  "centre c w =
     (case w of
        (False, False, False, False) \<Rightarrow> None
      | (True, False, False, False) \<Rightarrow> Some (add2 (cUL c) 30 (- 30))
      | (False, True, False, False) \<Rightarrow> Some (add2 (cUR c) (- 30) (- 30))
      | (False, False, True, False) \<Rightarrow> Some (add2 (cDL c) 30 30)
      | (False, False, False, True) \<Rightarrow> Some (add2 (cDR c) (- 30) 30)
      | (True, True, False, False) \<Rightarrow> Some (add2 (mid (cUL c) (cUR c)) 0 (- 30))
      | (True, False, True, False) \<Rightarrow> Some (add2 (mid (cUL c) (cDL c)) 30 0)
      | (False, False, True, True) \<Rightarrow> Some (add2 (mid (cDL c) (cDR c)) 0 30)
      | (False, True, False, True) \<Rightarrow> Some (add2 (mid (cUR c) (cDR c)) (- 30) 0)
      | (True, False, False, True) \<Rightarrow> Some (mid (cUL c) (cDR c))
      | (False, True, True, False) \<Rightarrow> Some (mid (cUR c) (cDL c))
      | (True, True, True, False) \<Rightarrow> Some (mid (cDL c) (cUR c))
      | (True, True, False, True) \<Rightarrow> Some (mid (cUL c) (cDR c))
      | (False, True, True, True) \<Rightarrow> Some (mid (cUR c) (cDL c))
      | (True, False, True, True) \<Rightarrow> Some (mid (cUL c) (cDR c))
      | (True, True, True, True) \<Rightarrow>
          Some (cdiv (fst (cUR c) + fst (cDL c) + fst (cDR c) + fst (cUL c)) 4,
                cdiv (snd (cUL c) + snd (cUR c) + snd (cDL c) + snd (cDR c)) 4))"

text \<open>\<open>pic_i\<close> and \<open>pic_j\<close> are written only when a centre is found; the result says whether.\<close>

definition get_center :: "corners \<Rightarrow> int \<times> int \<Rightarrow> (bool \<times> corners \<times> int \<times> int) option" where
  "get_center c0 pic =
     (let w = (found (cUL c0), found (cUR c0), found (cDL c0), found (cDR c0));
          c = shift_corners c0
      in do {
        r \<leftarrow> select c w;
        Some (case r of None \<Rightarrow> (False, c, pic)
              | Some w' \<Rightarrow> (case centre c w' of None \<Rightarrow> (False, c, pic) | Some p \<Rightarrow> (True, c, p)))
      })"

section \<open>One camera picture\<close>

definition THRE :: int where "THRE = 145"

record shot =
  s_orig :: "int arr2"
  s_img :: "int arr2"
  s_coor :: corners
  s_pic :: "int \<times> int"

definition no_corners :: corners where
  "no_corners = \<lparr>cUL = (0, 0), cUR = (0, 0), cDL = (0, 0), cDR = (0, 0)\<rparr>"

definition blank_shot :: shot where
  "blank_shot = \<lparr>s_orig = \<lambda>_ _. 0, s_img = \<lambda>_ _. 0, s_coor = no_corners, s_pic = (0, 0)\<rparr>"

definition get_pic :: "(int \<Rightarrow> int) \<Rightarrow> int arr2 \<Rightarrow> shot \<Rightarrow> (bool \<times> shot) option" where
  "get_pic junk cam s =
     (let o1 = map_img (\<lambda>i j _. cam (img_height - 1 - j) i) (s_orig s);
          o2 = map_img (\<lambda>i j v. if v < THRE then 0 else 255) o1
      in do {
        im \<leftarrow> sobel o2 (s_img s);
        let c = get_similarity im junk no_corners;
        (flag, c', p) \<leftarrow> get_center c (s_pic s);
        Some (flag, s\<lparr>s_orig := o2, s_img := map_img (\<lambda>i j v. i8 (v * 255)) im, s_coor := c', s_pic := p\<rparr>)
      })"

section \<open>The four searches are independent and exact\<close>

interpretation pick: cell_cost plain_cost 10
  by unfold_locales (simp_all add: plain_cost_def)

lemma tmpl_full [simp]: "full_tmpl tmpl_UL" "full_tmpl tmpl_UR" "full_tmpl tmpl_DR" "full_tmpl tmpl_DL"
  by (simp_all add: full_tmpl_def tmpl_UL_def tmpl_UR_def tmpl_DR_def tmpl_DL_def)

definition search4 :: "(int \<Rightarrow> int \<Rightarrow> int) \<Rightarrow> int list list \<Rightarrow> int list \<Rightarrow> int list \<Rightarrow> int \<times> int \<times> int \<Rightarrow> int \<times> int \<times> int" where
  "search4 px tm us js s = foldl (\<lambda>s i. foldl (\<lambda>s j. corner_at plain_cost 10 px tm i j s) s js) s us"

lemma match4_row:
  "foldl (\<lambda>s j. match4 px i j s) s js =
    \<lparr>fUL = foldl (\<lambda>s j. corner_at plain_cost 10 px tmpl_UL i j s) (fUL s) js,
     fUR = foldl (\<lambda>s j. corner_at plain_cost 10 px tmpl_UR i j s) (fUR s) js,
     fDL = foldl (\<lambda>s j. corner_at plain_cost 10 px tmpl_DL i j s) (fDL s) js,
     fDR = foldl (\<lambda>s j. corner_at plain_cost 10 px tmpl_DR i j s) (fDR s) js\<rparr>"
  by (induction js arbitrary: s) (simp_all add: match4_def)

lemma match4_all:
  "foldl (\<lambda>s i. foldl (\<lambda>s j. match4 px i j s) s js) s us =
    \<lparr>fUL = search4 px tmpl_UL us js (fUL s), fUR = search4 px tmpl_UR us js (fUR s),
     fDL = search4 px tmpl_DL us js (fDL s), fDR = search4 px tmpl_DR us js (fDR s)\<rparr>"
  by (induction us arbitrary: s) (simp_all add: search4_def match4_row)

text \<open>The box holds every edge cell.\<close>

definition in_box :: "int \<times> int \<Rightarrow> box \<Rightarrow> bool" where
  "in_box c b = (case b of (mni, mnj, mxi, mxj, flag) \<Rightarrow>
     flag \<and> mni \<le> fst c \<and> fst c \<le> mxi \<and> mnj \<le> snd c \<and> snd c \<le> mxj)"

lemma box_step_keeps: "in_box c b \<Longrightarrow> in_box c (box_step im b d)"
  by (cases b; cases d) (auto simp: in_box_def box_step_def Let_def)

lemma box_step_takes: "im (fst c) (snd c) \<noteq> 0 \<Longrightarrow> in_box c (box_step im b c)"
  by (cases b; cases c) (auto simp: in_box_def box_step_def Let_def)

lemma box_fold: "(\<exists>d \<in> set cs. d = c \<and> im (fst c) (snd c) \<noteq> 0) \<or> in_box c b \<Longrightarrow> in_box c (foldl (box_step im) b cs)"
proof (induction cs arbitrary: b)
  case (Cons d cs)
  have "in_box c (box_step im b d)" if "d = c \<and> im (fst c) (snd c) \<noteq> 0 \<or> in_box c b"
    using that box_step_keeps[of c b im d] box_step_takes[of im c b] by blast
  then have "(\<exists>d \<in> set cs. d = c \<and> im (fst c) (snd c) \<noteq> 0) \<or> in_box c (box_step im b d)"
    using Cons.prems by (simp only: set_simps) blast
  from Cons.IH[OF this] show ?case by simp
qed simp

lemma edge_box_covers:
  assumes "in_img (i, j)" and "im i j \<noteq> 0"
  shows "in_box (i, j) (edge_box im)"
  unfolding edge_box_def
  by (rule box_fold) (use assms in \<open>auto simp: in_img_def\<close>)

text \<open>
  C21. \<open>get_similarity\<close> is an exact search. For each of the four templates it returns a position
  of the scanned window with the least difference if some position of the window differs in at
  most 10, and leaves the corner at (0, 0) otherwise; and the window reaches, on every side, to
  every edge cell of the picture that is more than a template away from the border.
\<close>

theorem get_similarity_best:
  assumes "(tm, pick_c) \<in> {(tmpl_UL, cUL), (tmpl_UR, cUR), (tmpl_DL, cDL), (tmpl_DR, cDR)}"
  shows "let (i0, j0, i1, j1) = widen (edge_box im); P = {i0..<i1} \<times> {j0..<j1};
      c = pick_c (get_similarity im junk no_corners); f = score_at plain_cost (rd_img im junk) tm
    in (if \<exists>p \<in> P. f p \<le> 10 then c \<in> P \<and> (\<forall>p \<in> P. f c \<le> f p) else c = (0, 0))
      \<and> (\<forall>i j. in_img (i, j) \<and> im i j \<noteq> 0 \<and> i < img_width - COR_H \<and> j < img_height - COR_W \<longrightarrow> (i, j) \<in> P)"
proof -
  obtain mni mnj mxi mxj fl where e: "edge_box im = (mni, mnj, mxi, mxj, fl)" by (cases "edge_box im")
  obtain i0 j0 i1 j1 where w: "widen (edge_box im) = (i0, j0, i1, j1)" by (cases "widen (edge_box im)")
  let ?s = "\<lambda>tm. search4 (rd_img im junk) tm [i0..i1 - 1] [j0..j1 - 1] (100, 0, 0)"
  have sim: "get_similarity im junk no_corners
      = \<lparr>cUL = snd (?s tmpl_UL), cUR = snd (?s tmpl_UR), cDL = snd (?s tmpl_DL), cDR = snd (?s tmpl_DR)\<rparr>"
    by (simp add: get_similarity_def w match4_all no_corners_def)
  have tm: "full_tmpl tm" "pick_c (get_similarity im junk no_corners) = snd (?s tm)"
    using assms by (auto simp: sim)
  have "pick.best_of (0, 0) (score_at plain_cost (rd_img im junk) tm) ({i0..<i1} \<times> {j0..<j1}) (?s tm)"
    unfolding search4_def by (rule pick.best_of_box[OF tm(1)])
  moreover have "i0 \<le> i \<and> i < i1 \<and> j0 \<le> j \<and> j < j1"
    if "in_img (i, j)" "im i j \<noteq> 0" "i < img_width - COR_H" "j < img_height - COR_W" for i j
    using edge_box_covers[of i j im, OF that(1,2)] that w
    by (auto simp: e in_box_def widen_def in_img_def COR_H_def COR_W_def img_width_def img_height_def split: if_splits)
  ultimately show ?thesis
    unfolding w tm(2) Let_def pick.best_of_def by (auto split: if_splits)
qed

lemma get_similarity_best_witness:
  "cUL (get_similarity (\<lambda>_ _. 0) (\<lambda>_. 0) no_corners) \<in> {0..<177} \<times> {0..<109}"
proof -
  have "foldl (box_step (\<lambda>_ _. 0)) b cs = b" for b cs
    by (induction cs arbitrary: b) (auto simp: box_step_def split: prod.split)
  then have w: "widen (edge_box (\<lambda>_ _. 0)) = (0, 0, 11, 11)"
    by (simp add: edge_box_def widen_def COR_H_def COR_W_def img_width_def img_height_def)
  show ?thesis
    using get_similarity_best[of tmpl_UL cUL "\<lambda>_ _. 0" "\<lambda>_. 0"] w by (auto simp: Let_def split: if_splits)
qed

section \<open>The centre of a square card\<close>

lemma dist_axis:
  assumes "0 \<le> d" and "d < 1000"
  shows "dist_of (x, y) (x + d, y) = Some d" "dist_of (x, y) (x, y - d) = Some d"
  using assms isqrt_dist[of x "x + d" y y] isqrt_dist[of x x y "y - d"] by (simp_all add: dist_of_def)

lemma dist_diag:
  assumes "45 \<le> d" and "d \<le> 53" and "\<bar>fst b - fst a\<bar> = d" and "\<bar>snd b - snd a\<bar> = d"
  shows "\<exists>r. dist_of a b = Some r \<and> 63 \<le> r \<and> r \<le> 74"
proof -
  have sq: "(fst a - fst b) * (fst a - fst b) + (snd a - snd b) * (snd a - snd b) = 2 * (d * d)"
    using assms(3,4) abs_mult_self_eq[of "fst b - fst a"] abs_mult_self_eq[of "snd b - snd a"]
    by (simp add: algebra_simps)
  have d: "45 * 45 \<le> d * d" "d * d \<le> 53 * 53" using assms(1,2) by (intro mult_mono; simp)+
  have "dist_of a b = Some (isqrt (2 * (d * d)))"
    using isqrt_dist[of "fst a" "fst b" "snd a" "snd b"] assms by (simp add: dist_of_def sq)
  moreover have "isqrt (63 * 63) \<le> isqrt (2 * (d * d))" "isqrt (2 * (d * d)) \<le> isqrt 5618"
    using d by (intro isqrt_mono; simp)+
  moreover have "isqrt 5618 = 74" by (rule isqrt_unique) simp_all
  ultimately show ?thesis by (simp del: mult_numeral_left_semiring_numeral) (simp add: isqrt_square[of 63, simplified])
qed

lemma diag_limits:
  obtains u v where "d_of_int 53 * lit 1.414 = F64 (Fin u)" "74 \<le> u" "d_of_int 44 * lit 1.414 = F64 (Fin v)" "v \<le> 63"
proof -
  obtain c where c: "fround binary64 (1414 / 1000) = Fin c" "\<bar>c - 1414 / 1000\<bar> \<le> 1 / 4503599627370496"
    by (rule fround64_near[of "1414 / 1000"]) simp_all
  have b: "1413 / 1000 \<le> c" "c \<le> 1415 / 1000" using c(2) unfolding abs_le_iff by linarith+
  have l: "lit 1.414 = F64 (Fin c)" using c(1) by (simp add: lit_def)
  obtain u where u: "fround binary64 (53 * c) = Fin u" "of_int 74 \<le> u" "u \<le> of_int 75"
    by (rule fround64_between[of 74 "53 * c" 75]) (use b in auto)
  obtain v where v: "fround binary64 (44 * c) = Fin v" "of_int 62 \<le> v" "v \<le> of_int 63"
    by (rule fround64_between[of 62 "44 * c" 63]) (use b in auto)
  have d: "d_of_int 53 = F64 (Fin 53)" "d_of_int 44 = F64 (Fin 44)" by simp_all
  show ?thesis
    by (rule that[of u v]) (use u v in \<open>simp_all only: l d F64_arith of_int_numeral\<close>)
qed

text \<open>Corners of a square card with side \<open>d\<close>, as the search reports them; some may be missing.\<close>

definition square_corners :: "which \<Rightarrow> int \<Rightarrow> int \<Rightarrow> int \<Rightarrow> corners" where
  "square_corners w x y d = (case w of (ul, ur, dl, dr) \<Rightarrow>
     \<lparr>cUL = (if ul then (x - 5, y - 5) else (0, 0)), cUR = (if ur then (x + d - 9, y - 5) else (0, 0)),
      cDL = (if dl then (x - 5, y - d - 5) else (0, 0)), cDR = (if dr then (x + d - 9, y - d - 5) else (0, 0))\<rparr>)"

lemma side_ok: "dist_of a b = Some d \<Longrightarrow> 44 \<le> d \<Longrightarrow> d \<le> 53 \<Longrightarrow> side a b = Some True"
  by (simp add: side_def)

lemma diagonal_ok:
  assumes "45 \<le> d" and "d \<le> 53" and "\<bar>fst b - fst a\<bar> = d" and "\<bar>snd b - snd a\<bar> = d"
  shows "diagonal a b = Some True"
proof -
  obtain r where r: "dist_of a b = Some r" "63 \<le> r" "r \<le> 74" using dist_diag[OF assms] by blast
  obtain u v where "d_of_int 53 * lit 1.414 = F64 (Fin u)" "74 \<le> u" "d_of_int 44 * lit 1.414 = F64 (Fin v)" "v \<le> 63"
    by (rule diag_limits)
  moreover have "(of_int r :: rat) \<le> 74" "63 \<le> (of_int r :: rat)" using r(2,3) by linarith+
  moreover have "d_of_int r = F64 (Fin (of_int r))" using r by simp
  ultimately have "d_of_int r \<le> d_of_int 53 * lit 1.414" "\<not> d_of_int r > d_of_int 53 * lit 1.414"
    "\<not> d_of_int r < d_of_int 44 * lit 1.414" by (simp_all only: F_order not_less)
  then show ?thesis using r(1) by (simp only: diagonal_def option.map simp_thms)
qed

lemma centre_of_four:
  assumes "ul \<longrightarrow> cUL c = p1" "ur \<longrightarrow> cUR c = p2" "dl \<longrightarrow> cDL c = p3" "dr \<longrightarrow> cDR c = p4"
    and "ul \<and> dr \<or> ur \<and> dl"
    and "mid p1 p4 = r" and "mid p2 p3 = r" and "mid p3 p2 = r"
    and "(cdiv (fst p2 + fst p3 + fst p4 + fst p1) 4, cdiv (snd p1 + snd p2 + snd p3 + snd p4) 4) = r"
  shows "centre c (ul, ur, dl, dr) = Some r"
  using assms by (cases ul; cases ur; cases dl; cases dr) (simp_all add: centre_def)

lemma select_of_four:
  assumes "ul \<longrightarrow> cUL c = p1" "ur \<longrightarrow> cUR c = p2" "dl \<longrightarrow> cDL c = p3" "dr \<longrightarrow> cDR c = p4"
    and "ul \<and> dr \<or> ur \<and> dl"
    and "side p1 p2 = Some True" "side p2 p4 = Some True" "side p3 p4 = Some True" "side p1 p3 = Some True"
    and "diagonal p1 p4 = Some True" "diagonal p2 p3 = Some True"
  shows "select c (ul, ur, dl, dr) = Some (Some (ul, ur, dl, dr))"
  using assms by (cases ul; cases ur; cases dl; cases dr) (simp_all add: select_def keep_if_def third_def drop_bad_def)

text \<open>
  C22. The centre of a square card. If the corners found are those of an axis-parallel square of
  45 to 53 pixels, inside the picture, and two opposite ones are among them (so also any three,
  or all four), \<open>get_center\<close> reports success and sets \<open>pic_i\<close>, \<open>pic_j\<close> to the centre, rounded
  down.
\<close>

theorem square_centre:
  assumes "w = (ul, ur, dl, dr)" and "ul \<and> dr \<or> ur \<and> dl"
    and "45 \<le> d" and "d \<le> 53" and "6 \<le> x" and "x \<le> 187" and "d + 6 \<le> y" and "y \<le> 187"
  shows "\<exists>c. get_center (square_corners w x y d) pic = Some (True, c, (2 * x + d) div 2, (2 * y - d) div 2)"
proof -
  let ?c = "shift_corners (square_corners w x y d)"
  have fnd: "(found (cUL (square_corners w x y d)), found (cUR (square_corners w x y d)),
      found (cDL (square_corners w x y d)), found (cDR (square_corners w x y d))) = w"
    using assms by (auto simp: square_corners_def found_def)
  have pts: "ul \<longrightarrow> cUL ?c = (x, y)" "ur \<longrightarrow> cUR ?c = (x + d, y)" "dl \<longrightarrow> cDL ?c = (x, y - d)"
    "dr \<longrightarrow> cDR ?c = (x + d, y - d)"
    by (simp_all add: shift_corners_def square_corners_def assms(1) add2_def)
  have s1: "side (x, y) (x + d, y) = Some True" and s2: "side (x + d, y) (x + d, y - d) = Some True"
    and s3: "side (x, y - d) (x + d, y - d) = Some True" and s4: "side (x, y) (x, y - d) = Some True"
    using assms dist_axis[of d x y] dist_axis(2)[of d "x + d" y] dist_axis(1)[of d x "y - d"]
    by (simp_all add: side_ok)
  have g: "diagonal (x, y) (x + d, y - d) = Some True" "diagonal (x + d, y) (x, y - d) = Some True"
    using assms by (intro diagonal_ok[of d]; simp)+
  have sel: "select ?c w = Some (Some w)"
    unfolding assms(1) by (rule select_of_four[OF pts[unfolded assms(1)] assms(2) s1 s2 s3 s4 g])
  have m: "mid (x, y) (x + d, y - d) = ((2 * x + d) div 2, (2 * y - d) div 2)"
    "mid (x + d, y) (x, y - d) = ((2 * x + d) div 2, (2 * y - d) div 2)"
    "mid (x, y - d) (x + d, y) = ((2 * x + d) div 2, (2 * y - d) div 2)"
    using assms by (simp_all add: mid_def c_simps algebra_simps)
  have q: "cdiv (x + d + x + (x + d) + x) 4 = (2 * x + d) div 2" "cdiv (y + y + (y - d) + (y - d)) 4 = (2 * y - d) div 2"
  proof -
    have h: "cdiv (2 * k) 4 = k div 2" if "0 \<le> k" for k using that by (simp add: c_simps)
    have "x + d + x + (x + d) + x = 2 * (2 * x + d)" "y + y + (y - d) + (y - d) = 2 * (2 * y - d)" by simp_all
    then show "cdiv (x + d + x + (x + d) + x) 4 = (2 * x + d) div 2" "cdiv (y + y + (y - d) + (y - d)) 4 = (2 * y - d) div 2"
      using h[of "2 * x + d"] h[of "2 * y - d"] assms by simp_all
  qed
  have "centre ?c w = Some ((2 * x + d) div 2, (2 * y - d) div 2)"
    unfolding assms(1) by (rule centre_of_four[OF pts[unfolded assms(1)] assms(2) m]) (simp only: fst_conv snd_conv q)
  then show ?thesis using sel unfolding get_center_def fnd Let_def by simp
qed

lemma square_centre_witness:
  "\<exists>c. get_center (square_corners (True, True, False, True) 60 90 48) (0, 0) = Some (True, c, 84, 66)"
  using square_centre[of "(True, True, False, True)" True True False True 48 60 90 "(0, 0)"] by simp

end
