(* ===== verification/Pid.thy ===== *)
theory Pid
  imports Float_Bounds
begin

text \<open>
  The speed controllers (\<^verbatim>\<open>CODE/pid.c\<close>) and the encoder readings they use
  (\<^verbatim>\<open>CODE/encoder.c\<close>). The quadrature counters are a parameter: a function from the encoder
  number to the count, which reading clears.
\<close>

record pid =
  gain_p :: f32
  gain_i :: f32
  gain_d :: f32
  sum_i :: f32
  out :: f32
  last_e :: f32
  dt :: f32

record pids =
  pid1 :: pid
  pid2 :: pid
  pid3 :: pid
  pid4 :: pid
  pid_yaw :: pid

text \<open>
  \<open>pid_init\<close> sets every field of the five controllers, first the gains 6 and 8 for all four
  wheels and then 8 and 16 for the first and the last.
\<close>

definition fresh_pid :: "int \<Rightarrow> int \<Rightarrow> int \<Rightarrow> pid" where
  "fresh_pid p i d = \<lparr>gain_p = s_of_int p, gain_i = s_of_int i, gain_d = s_of_int d,
     sum_i = 0, out = 0, last_e = 0, dt = 0\<rparr>"

definition pid_init :: pids where
  "pid_init =
     (let c = \<lparr>pid1 = fresh_pid 6 8 0, pid2 = fresh_pid 6 8 0, pid3 = fresh_pid 6 8 0, pid4 = fresh_pid 6 8 0,
               pid_yaw = fresh_pid 1 0 1\<rparr>
      in c\<lparr>pid1 := fresh_pid 8 16 0, pid4 := fresh_pid 8 16 0\<rparr>)"

text \<open>The sum shrinks by the factor 0.8 once the speed overshoots the target by a tenth.\<close>

definition shrink_sum :: "f32 \<Rightarrow> f32 \<Rightarrow> f32 \<Rightarrow> f32" where
  "shrink_sum tar cur s =
     (let s = (if tar > s_of_int 0 \<and> to_d (cur - tar) - lit 0.1 * to_d tar > d_of_int 0
               then to_s (to_d s * lit 0.8) else s)
      in if tar < s_of_int 0 \<and> to_d (tar - cur) + lit 0.1 * to_d tar > d_of_int 0
         then to_s (to_d s * lit 0.8) else s)"

definition clamp_out :: "f32 \<Rightarrow> f32" where
  "clamp_out v =
     (let v = (if v > s_of_int 10000 then s_of_int 9999 else v)
      in if v < s_of_int (- 10000) then s_of_int (- 9999) else v)"

definition pid_cal :: "f32 \<Rightarrow> f32 \<Rightarrow> pid \<Rightarrow> pid" where
  "pid_cal tar cur m =
     (let e = tar - cur;
          m = m\<lparr>sum_i := sum_i m + e\<rparr>;
          m = m\<lparr>dt := e - last_e m\<rparr>;
          m = m\<lparr>sum_i := shrink_sum tar cur (sum_i m)\<rparr>;
          m = m\<lparr>out := gain_p m * e + gain_i m * sum_i m + gain_d m * dt m\<rparr>;
          m = m\<lparr>last_e := e\<rparr>
      in m\<lparr>out := clamp_out (out m)\<rparr>)"

section \<open>Encoders\<close>

text \<open>The four speeds are \<open>int16\<close>; each reading is followed by clearing the counter.\<close>

record wheels =
  speed_1 :: int
  speed_2 :: int
  speed_3 :: int
  speed_4 :: int

definition read_clear :: "nat \<Rightarrow> (nat \<Rightarrow> int) \<Rightarrow> int \<times> (nat \<Rightarrow> int)" where
  "read_clear k quad = (i16 (quad k), quad(k := 0))"

definition encoder_get :: "(nat \<Rightarrow> int) \<Rightarrow> wheels \<times> (nat \<Rightarrow> int)" where
  "encoder_get quad =
     (let (s1, quad) = read_clear 1 quad;
          (s2, quad) = read_clear 2 quad;
          (s3, quad) = read_clear 3 quad;
          (s4, quad) = read_clear 4 quad
      in (\<lparr>speed_1 = s1, speed_2 = s2, speed_3 = s3, speed_4 = s4\<rparr>, quad))"

lemma encoder_get_range:
  "encoder_get quad = (w, q') \<Longrightarrow> v \<in> {speed_1 w, speed_2 w, speed_3 w, speed_4 w} \<Longrightarrow> - 32768 \<le> v \<and> v < 32768"
  using i16_range by (auto simp: encoder_get_def read_clear_def Let_def)

section \<open>The controller never leaves its range\<close>

text \<open>
  The sum has no limit in the code. It has one in the arithmetic: an error below \<open>2 ^ 17\<close> is
  less than half a unit in the last place of \<open>2 ^ 43\<close>, so adding it to a sum of that size
  changes nothing.
\<close>

lemma absorb: "fround binary32 (2 ^ 43 + 2 ^ 17) = Fin (2 ^ 43)"
proof -
  have l: "ilog2 (2 ^ 43 + 2 ^ 17) = 43" by (rule ilog2_unique) (simp_all add: power_int_def)
  have a: "\<bar>2 ^ 43 + 2 ^ 17\<bar> = (2 ^ 43 + 2 ^ 17 :: rat)" by simp
  have "qexp binary32 (2 ^ 43 + 2 ^ 17) = 20"
    unfolding qexp_def a l by (simp add: binary32_def)
  then have "rnd_fin binary32 (2 ^ 43 + 2 ^ 17) = of_int (rne ((2 ^ 43 + 2 ^ 17) / 2 powi 20)) * 2 powi 20"
    by (simp add: rnd_fin_def)
  moreover have "rne ((2 ^ 43 + 2 ^ 17) / 2 powi 20) = 2 ^ 23"
  proof -
    have "\<lfloor>(67108865 / 8 :: rat)\<rfloor> = 8388608" by (simp add: floor_eq_iff)
    then show ?thesis by (simp add: rne_def power_int_def Let_def)
  qed
  ultimately have r: "rnd_fin binary32 (2 ^ 43 + 2 ^ 17) = 2 ^ 43" by (simp add: power_int_def)
  show ?thesis by (simp only: fround_Fin r) (simp add: binary32_def power_int_def)
qed

lemma mag32_absorb:
  assumes "mag32 43 s" and "mag32 17 e"
  shows "mag32 43 (s + e)"
proof -
  obtain a b where ab: "s = F32 (Fin a)" "\<bar>a\<bar> \<le> 2 ^ 43" "e = F32 (Fin b)" "\<bar>b\<bar> \<le> 2 ^ 17"
    using assms by (auto simp: mag32_def)
  have lo: "- (2 ^ 43 + 2 ^ 17) \<le> a + b" and hi: "a + b \<le> 2 ^ 43 + 2 ^ 17"
    using ab(2,4) unfolding abs_le_iff by linarith+
  have "fle (fround binary32 (a + b)) (Fin (2 ^ 43))" using b32.rnd_mono[OF hi] by (simp only: absorb)
  moreover have "fle (Fin (- (2 ^ 43))) (fround binary32 (a + b))"
    using b32.rnd_mono[OF lo] by (simp only: b32.rnd_neg absorb fneg_simps)
  ultimately obtain y where "fround binary32 (a + b) = Fin y" "y \<le> 2 ^ 43" "- (2 ^ 43) \<le> y"
    by (cases "fround binary32 (a + b)") simp_all
  then show ?thesis using ab by (auto simp: mag32_def F32_arith abs_le_iff)
qed

lemma mag64_lit8: "mag64 0 (lit 0.8)"
proof -
  have b: "of_int 0 \<le> (8 / 10 :: rat)" "(8 / 10 :: rat) \<le> of_int 1" by simp_all
  obtain y where "fround binary64 (8 / 10) = Fin y" "of_int 0 \<le> y" "y \<le> of_int 1"
    by (rule fround64_between[OF b]) simp_all
  then show ?thesis by (simp add: mag64_def lit_def)
qed

lemma mag32_shrink: "mag32 43 s \<Longrightarrow> mag32 43 (shrink_sum tar cur s)"
proof -
  have "mag32 43 (to_s (to_d t * lit 0.8))" if "mag32 43 t" for t
    using mag_to(2)[OF mag64_mult[OF mag_to(1)[OF that] mag64_lit8]] by simp
  then show "mag32 43 s \<Longrightarrow> mag32 43 (shrink_sum tar cur s)" by (simp add: shrink_sum_def Let_def)
qed

definition pwm_range :: "f32 \<Rightarrow> bool" where
  "pwm_range v \<longleftrightarrow> (\<exists>q. v = F32 (Fin q) \<and> \<bar>q\<bar> \<le> 10000)"

lemma clamp_out_range: "mag32 k v \<Longrightarrow> pwm_range (clamp_out v)"
  by (auto simp: mag32_def pwm_range_def clamp_out_def Let_def)

text \<open>Gains of at most 128, a sum of at most \<open>2 ^ 43\<close>, a last error of at most \<open>2 ^ 17\<close>.\<close>

definition pid_ok :: "pid \<Rightarrow> bool" where
  "pid_ok m \<longleftrightarrow> mag32 7 (gain_p m) \<and> mag32 7 (gain_i m) \<and> mag32 7 (gain_d m)
     \<and> mag32 43 (sum_i m) \<and> mag32 17 (last_e m)"

lemma pid_cal_ok:
  assumes "pid_ok m" and "mag32 16 tar" and "mag32 16 cur"
  shows "pid_ok (pid_cal tar cur m) \<and> pwm_range (out (pid_cal tar cur m))"
proof -
  let ?e = "tar - cur" and ?s = "shrink_sum tar cur (sum_i m + (tar - cur))"
  have e: "mag32 17 ?e" using mag32_diff[OF assms(2,3)] by simp
  have s: "mag32 43 ?s" using assms(1) e by (intro mag32_shrink mag32_absorb) (simp_all add: pid_ok_def)
  have "mag32 24 (gain_p m * ?e)" "mag32 50 (gain_i m * ?s)" "mag32 25 (gain_d m * (?e - last_e m))"
    using mag32_mult[of 7 "gain_p m" 17 ?e] mag32_mult[of 7 "gain_i m" 43 ?s]
      mag32_mult[of 7 "gain_d m" 18 "?e - last_e m"] mag32_diff[of 17 ?e "last_e m"] assms(1) e s
    by (simp_all add: pid_ok_def)
  then have "mag32 52 (gain_p m * ?e + gain_i m * ?s + gain_d m * (?e - last_e m))"
    using mag32_add[of 51 "gain_p m * ?e + gain_i m * ?s" "gain_d m * (?e - last_e m)"]
      mag32_add[of 50 "gain_p m * ?e" "gain_i m * ?s"] mag32_mono[of 24 _ 50] mag32_mono[of 25 _ 51] by simp
  then show ?thesis using assms(1) e s by (simp add: pid_cal_def Let_def pid_ok_def clamp_out_range)
qed

lemma pwm_range_int: "pwm_range v \<Longrightarrow> \<exists>n. s_int v = Some n \<and> \<bar>n\<bar> \<le> 10000"
proof -
  assume "pwm_range v"
  then obtain q where q: "v = F32 (Fin q)" "of_int (- 10000) \<le> q" "q \<le> of_int 10000"
    by (auto simp: pwm_range_def abs_le_iff)
  obtain i where "s_int (F32 (Fin q)) = Some i" "- 10000 \<le> i" "i \<le> 10000" by (rule s_int_between[OF q(2,3)]) simp_all
  then show ?thesis using q(1) by (simp add: abs_le_iff)
qed

definition pid_run :: "pid \<Rightarrow> (f32 \<times> f32) list \<Rightarrow> pid" where
  "pid_run m xs = foldl (\<lambda>m x. pid_cal (fst x) (snd x) m) m xs"

lemma pid_run_ok:
  "pid_ok m \<Longrightarrow> \<forall>x \<in> set xs. mag32 16 (fst x) \<and> mag32 16 (snd x) \<Longrightarrow> pid_ok (pid_run m xs)"
proof (induction xs arbitrary: m)
  case (Cons x xs)
  then show ?case using pid_cal_ok[of m "fst x" "snd x"] by (simp add: pid_run_def)
qed (simp add: pid_run_def)

lemma fresh_pid_ok: "\<bar>p\<bar> \<le> 128 \<Longrightarrow> \<bar>i\<bar> \<le> 128 \<Longrightarrow> \<bar>d\<bar> \<le> 128 \<Longrightarrow> pid_ok (fresh_pid p i d)"
  using mag_of_int(1)[of p 7] mag_of_int(1)[of i 7] mag_of_int(1)[of d 7]
  by (simp add: pid_ok_def fresh_pid_def one_F64 mag32_def)

lemma pid_init_ok: "\<forall>m \<in> {pid1 pid_init, pid2 pid_init, pid3 pid_init, pid4 pid_init, pid_yaw pid_init}. pid_ok m"
  by (simp add: pid_init_def Let_def fresh_pid_ok)

text \<open>
  C23. However long a wheel controller of \<open>pid_init\<close> runs, with targets and speeds of at most
  \<open>2 ^ 16\<close> in magnitude (an \<open>int16\<close> speed always is), its output is a number, its conversion
  to \<open>int\<close> is defined and is at most 10000 in magnitude: although the integral sum is never
  limited, it cannot overflow.
\<close>

theorem pid_output_in_range:
  assumes "m \<in> {pid1 pid_init, pid2 pid_init, pid3 pid_init, pid4 pid_init, pid_yaw pid_init}"
    and "\<forall>x \<in> set xs. mag32 16 (fst x) \<and> mag32 16 (snd x)" and "xs \<noteq> []"
  shows "\<exists>n. s_int (out (pid_run m xs)) = Some n \<and> \<bar>n\<bar> \<le> 10000"
proof (cases xs rule: rev_cases)
  case (snoc ys x)
  have "pid_ok (pid_run m ys)" using assms pid_init_ok by (intro pid_run_ok) (auto simp: snoc)
  then have "pwm_range (out (pid_cal (fst x) (snd x) (pid_run m ys)))"
    using pid_cal_ok assms(2) by (simp add: snoc)
  then show ?thesis using pwm_range_int by (simp add: snoc pid_run_def)
qed (use assms in simp)

lemma pid_output_in_range_witness:
  "\<exists>n. s_int (out (pid_run (pid1 pid_init) (replicate 1000 (s_of_int 60, s_of_int (- 30000))))) = Some n \<and> \<bar>n\<bar> \<le> 10000"
  by (rule pid_output_in_range) (auto simp: mag32_def)

end
