(* ===== verification/Car.thy ===== *)
theory Car
  imports C_Prelude
begin

text \<open>
  The flags through which the threads and timers talk, the global \<open>car\<close> of \<^verbatim>\<open>CODE/motor.c\<close>,
  and its start values. The values of \<open>uart\<close> are those of \<^verbatim>\<open>CODE/more_uart.h\<close>.
\<close>

record status =
  motion :: int
  uart :: int
  pic_flag :: int
  send_flag :: int
  twice_flag :: int
  to_pic_cnt :: int
  is_pic :: int
  pic_stop :: int
  send :: int
  bar_flag :: int
  servo_flag :: int
  put_flag :: int
  pick_flag :: int
  uart_flag :: int
  servo_flag_ctrl :: int
  drop_flag :: int
  drop_tail_flag :: int

definition SP_OK :: int where "SP_OK = 1"
definition SP_HEADER_ERR :: int where "SP_HEADER_ERR = - 1"
definition SP_WAIT :: int where "SP_WAIT = 0"

text \<open>\<open>flag_init\<close> leaves \<open>drop_tail_flag\<close> as it is (zero, as a global).\<close>

definition flag_init :: "status \<Rightarrow> status" where
  "flag_init c = c\<lparr>motion := 0, uart := 0, pic_flag := 0, send_flag := 0, twice_flag := 0, to_pic_cnt := 0,
     is_pic := 0, pic_stop := 0, send := 0, bar_flag := 0, servo_flag := 0, put_flag := 1, pick_flag := 0,
     uart_flag := 0, servo_flag_ctrl := 0, drop_flag := 0\<rparr>"

definition zero_status :: status where
  "zero_status = \<lparr>motion = 0, uart = 0, pic_flag = 0, send_flag = 0, twice_flag = 0, to_pic_cnt = 0,
     is_pic = 0, pic_stop = 0, send = 0, bar_flag = 0, servo_flag = 0, put_flag = 0, pick_flag = 0,
     uart_flag = 0, servo_flag_ctrl = 0, drop_flag = 0, drop_tail_flag = 0\<rparr>"

end
