(* ===== verification/Servo.thy ===== *)
theory Servo
  imports C_Prelude
begin

text \<open>
  The arm (\<^verbatim>\<open>CODE/servo.c\<close>): three servos on PWM channels and the magnet on pin C5. A
  function is the list of what it does to the hardware, waits included, and servo functions that
  turn the arm also move \<open>pwm_lst\<close>, the static variable with the last duty of the turning
  servo. The actions of the chassis (\<open>Chassis\<close>) are of the same type.
\<close>

text \<open>\<open>STEER_1\<close> of \<^verbatim>\<open>CODE/motor.h\<close> is the same channel as \<open>SERVO_GET\<close>.\<close>

datatype pwm_ch = PWM_1 | PWM_2 | PWM_3 | PWM_4 | SERVO_ROTE | SERVO_DROP | SERVO_GET

datatype pin = DIR_1 | DIR_2 | DIR_3 | DIR_4 | C4 | C5

datatype act = Duty pwm_ch int | Pin pin int | Delay int | Feed_dog | Tx_1 "int list" | Tx_8 "int list"

definition DROP_LEFT :: int where "DROP_LEFT = 600"
definition DROP_RIGHT :: int where "DROP_RIGHT = 1110"
definition DROP_TAIL :: int where "DROP_TAIL = 850"
definition GET_UP :: int where "GET_UP = 800"
definition GET_PUT :: int where "GET_PUT = 940"
definition GET_DOWN :: int where "GET_DOWN = 1240"

text \<open>\<open>for (int i = 1; i <= n; ++i) { pwm_duty(ch, from + d * i * 10); rt_thread_mdelay(ms); }\<close>\<close>

definition ramp :: "pwm_ch \<Rightarrow> int \<Rightarrow> int \<Rightarrow> int \<Rightarrow> int \<Rightarrow> act list" where
  "ramp ch from d n ms = concat (map (\<lambda>i. [Duty ch (from + d * i * 10), Delay ms]) [1..n])"

definition servo_rote_ctrl :: "int \<Rightarrow> int \<Rightarrow> act list \<times> int" where
  "servo_rote_ctrl tar pwm_lst =
     (let dir = (if tar - pwm_lst > 0 then 1 else - 1);
          n = cdiv \<bar>tar - pwm_lst\<bar> 10
      in (ramp SERVO_ROTE pwm_lst dir n 15 @ [Duty SERVO_ROTE tar], tar))"

definition turn_then :: "int \<Rightarrow> (act list \<Rightarrow> act list) \<Rightarrow> int \<Rightarrow> act list \<times> int" where
  "turn_then tar f l = (let (a, l') = servo_rote_ctrl tar l in (f a, l'))"

definition servo_init :: "act list" where
  "servo_init = [Duty SERVO_ROTE 600, Duty SERVO_DROP 635, Duty SERVO_GET GET_UP]"

definition servo_reset :: "int \<Rightarrow> act list \<times> int" where
  "servo_reset = turn_then 600 (\<lambda>a. a @ [Duty SERVO_DROP 635, Duty SERVO_GET GET_UP])"

definition servo_get :: "int \<Rightarrow> act list \<times> int" where
  "servo_get = turn_then 600 (\<lambda>a.
     (let cnt = cdiv \<bar>GET_UP - GET_DOWN\<bar> 10;
          dir = (if GET_DOWN - GET_UP < 0 then - 1 else 1)
      in [Pin C5 1] @ a @ [Duty SERVO_DROP 635] @ ramp SERVO_GET GET_UP dir cnt 8
           @ [Duty SERVO_GET GET_DOWN, Delay 100]))"

text \<open>The three \<open>servo_put\<close> functions differ in the angle only.\<close>

definition put_down :: "act list \<Rightarrow> act list" where
  "put_down a =
     (let cnt = cdiv \<bar>GET_UP - GET_PUT\<bar> 10;
          dir = (if GET_PUT - GET_UP < 0 then - 1 else 1)
      in a @ [Duty SERVO_DROP 635] @ ramp SERVO_GET GET_UP dir cnt 15 @ [Duty SERVO_GET GET_PUT, Pin C5 0])"

definition servo_put_left :: "int \<Rightarrow> act list \<times> int" where
  "servo_put_left = turn_then 840 put_down"

definition servo_put_right :: "int \<Rightarrow> act list \<times> int" where
  "servo_put_right = turn_then 340 put_down"

definition servo_put_tail :: "int \<Rightarrow> act list \<times> int" where
  "servo_put_tail = turn_then 1110 put_down"

definition tip :: "int \<Rightarrow> act list \<Rightarrow> act list" where
  "tip ms a = [Duty SERVO_GET GET_UP] @ a @ ramp SERVO_DROP 635 (- 1) 27 8 @ [Delay ms, Duty SERVO_DROP 635, Pin C5 0]"

definition servo_drop_left :: "int \<Rightarrow> act list \<times> int" where
  "servo_drop_left = turn_then 600 (tip 200)"

definition servo_drop_right :: "int \<Rightarrow> act list \<times> int" where
  "servo_drop_right = turn_then 1110 (tip 200)"

definition servo_drop_tail :: "int \<Rightarrow> act list \<times> int" where
  "servo_drop_tail = turn_then 850 (tip 300)"

section \<open>The arm turns in small steps\<close>

text \<open>The duties that a list of actions gives to a channel.\<close>

fun duties :: "pwm_ch \<Rightarrow> act list \<Rightarrow> int list" where
  "duties ch [] = []"
| "duties ch (Duty c v # as) = (if c = ch then v # duties ch as else duties ch as)"
| "duties ch (_ # as) = duties ch as"

lemma duties_append [simp]: "duties ch (as @ bs) = duties ch as @ duties ch bs"
  by (induction ch as rule: duties.induct) auto

lemma duties_ramp: "duties ch (ramp c from d n ms) = (if c = ch then map (\<lambda>i. from + d * i * 10) [1..n] else [])"
proof -
  have "duties ch (concat (map (\<lambda>i. [Duty c (from + d * i * 10), Delay ms]) js))
      = (if c = ch then map (\<lambda>i. from + d * i * 10) js else [])" for js
    by (induction js) auto
  then show ?thesis by (simp add: ramp_def)
qed

text \<open>Consecutive values, the first one after \<open>v\<close>, differ by at most 10.\<close>

fun smooth :: "int \<Rightarrow> int list \<Rightarrow> bool" where
  "smooth v [] = True"
| "smooth v (w # ws) = (\<bar>w - v\<bar> \<le> 10 \<and> smooth w ws)"

lemma smooth_append: "smooth v (ws @ us) \<longleftrightarrow> smooth v ws \<and> smooth (last (v # ws)) us"
  by (induction ws arbitrary: v) auto

lemma upto_snoc: "(1 :: int) \<le> n + 1 \<Longrightarrow> [1..n + 1] = [1..n] @ [n + 1]"
  using upto_rec2[of 1 "n + 1"] by simp

lemma ramp_values:
  assumes "\<bar>d\<bar> = 1"
  shows "smooth v (map (\<lambda>i. v + d * i * 10) [1..int k])
    \<and> last (v # map (\<lambda>i. v + d * i * 10) [1..int k]) = v + d * int k * 10"
proof (induction k)
  case (Suc k)
  have "[1..int (Suc k)] = [1..int k] @ [int k + 1]" using upto_snoc[of "int k"] by (simp add: add.commute)
  then show ?case using Suc assms by (auto simp: smooth_append algebra_simps)
qed simp

lemma rote_values:
  shows "smooth l (duties SERVO_ROTE (fst (servo_rote_ctrl tar l)))"
    and "last (l # duties SERVO_ROTE (fst (servo_rote_ctrl tar l))) = tar"
    and "snd (servo_rote_ctrl tar l) = tar"
    and "\<forall>v \<in> set (duties SERVO_ROTE (fst (servo_rote_ctrl tar l))). min l tar \<le> v \<and> v \<le> max l tar"
proof -
  let ?d = "if tar - l > 0 then 1 else - 1 :: int" and ?n = "\<bar>tar - l\<bar> div 10"
  have du: "duties SERVO_ROTE (fst (servo_rote_ctrl tar l)) = map (\<lambda>i. l + ?d * i * 10) [1..?n] @ [tar]"
    by (simp add: servo_rote_ctrl_def duties_ramp c_simps Let_def)
  have n: "int (nat ?n) = ?n" by simp
  have "\<bar>?d\<bar> = 1" by simp
  note r = ramp_values[OF this, of l "nat ?n", unfolded n]
  have "\<bar>tar - (l + ?d * ?n * 10)\<bar> \<le> 10" by auto
  then show "smooth l (duties SERVO_ROTE (fst (servo_rote_ctrl tar l)))"
    unfolding du smooth_append smooth.simps r[THEN conjunct2] using r[THEN conjunct1] by blast
  show "last (l # duties SERVO_ROTE (fst (servo_rote_ctrl tar l))) = tar" unfolding du by simp
  show "snd (servo_rote_ctrl tar l) = tar" by (simp add: servo_rote_ctrl_def Let_def)
  show "\<forall>v \<in> set (duties SERVO_ROTE (fst (servo_rote_ctrl tar l))). min l tar \<le> v \<and> v \<le> max l tar"
    unfolding du by auto
qed

text \<open>The functions of the arm, by name.\<close>

definition servo_functions :: "(int \<Rightarrow> act list \<times> int) list" where
  "servo_functions = [servo_reset, servo_get, servo_put_left, servo_put_right, servo_put_tail,
     servo_drop_left, servo_drop_right, servo_drop_tail, servo_rote_ctrl DROP_TAIL,
     servo_rote_ctrl DROP_LEFT, servo_rote_ctrl DROP_RIGHT]"

definition arm_range :: "int \<Rightarrow> bool" where
  "arm_range v \<longleftrightarrow> 340 \<le> v \<and> v \<le> 1110"

definition arm_safe :: "int \<Rightarrow> act list \<times> int \<Rightarrow> bool" where
  "arm_safe l r \<longleftrightarrow> smooth l (duties SERVO_ROTE (fst r)) \<and> (\<forall>v \<in> set (duties SERVO_ROTE (fst r)). arm_range v)
     \<and> last (l # duties SERVO_ROTE (fst r)) = snd r \<and> arm_range (snd r)"

lemma arm_safe_rote: "arm_range l \<Longrightarrow> arm_range tar \<Longrightarrow> arm_safe l (servo_rote_ctrl tar l)"
  using rote_values[where l = l and tar = tar] unfolding arm_safe_def arm_range_def by fastforce

lemma arm_safe_turn:
  assumes "arm_range l" and "arm_range tar" and "\<And>a. duties SERVO_ROTE (f a) = duties SERVO_ROTE a"
  shows "arm_safe l (turn_then tar f l)"
proof -
  obtain a k where r: "servo_rote_ctrl tar l = (a, k)" by (cases "servo_rote_ctrl tar l")
  show ?thesis using arm_safe_rote[OF assms(1,2)] assms(3) by (simp add: arm_safe_def turn_then_def r)
qed

lemma servo_functions_safe:
  assumes "f \<in> set servo_functions" and "arm_range l"
  shows "arm_safe l (f l)"
proof -
  have t: "arm_range 600" "arm_range 840" "arm_range 340" "arm_range 1110" "arm_range 850"
    by (simp_all add: arm_range_def)
  have p: "duties SERVO_ROTE (put_down a) = duties SERVO_ROTE a" "duties SERVO_ROTE (tip ms a) = duties SERVO_ROTE a" for a ms
    by (simp_all add: put_down_def tip_def duties_ramp Let_def)
  show ?thesis
    using assms arm_safe_turn[OF assms(2)] arm_safe_rote[OF assms(2)] t p
    by (auto simp: servo_functions_def servo_reset_def servo_get_def servo_put_left_def servo_put_right_def
        servo_put_tail_def servo_drop_left_def servo_drop_right_def servo_drop_tail_def duties_ramp Let_def
        DROP_TAIL_def DROP_LEFT_def DROP_RIGHT_def)
qed

text \<open>A sequence of arm functions, each starting where the last one left the arm.\<close>

fun arm_run :: "(int \<Rightarrow> act list \<times> int) list \<Rightarrow> int \<Rightarrow> act list \<times> int" where
  "arm_run [] l = ([], l)"
| "arm_run (f # fs) l = (let (a, l1) = f l; (b, l2) = arm_run fs l1 in (a @ b, l2))"

lemma arm_run_safe:
  "set fs \<subseteq> set servo_functions \<Longrightarrow> arm_range l \<Longrightarrow> arm_safe l (arm_run fs l)"
proof (induction fs arbitrary: l)
  case (Cons f fs)
  obtain a l1 where f: "f l = (a, l1)" by (cases "f l")
  obtain b l2 where r: "arm_run fs l1 = (b, l2)" by (cases "arm_run fs l1")
  have s: "arm_safe l (a, l1)" using servo_functions_safe[of f l] Cons.prems f by simp
  then have "arm_safe l1 (b, l2)" using Cons.IH[of l1] Cons.prems r by (simp add: arm_safe_def)
  with s show ?case by (auto simp: f r arm_safe_def smooth_append Let_def)
qed (simp add: arm_safe_def)

text \<open>
  C24. Whatever sequence of arm functions runs, from the position 600 of \<open>servo_init\<close> on, the
  turning servo is only ever moved in steps of at most 10, stays between 340 and 1110, and ends
  where \<open>pwm_lst\<close> says.
\<close>

theorem arm_turns_smoothly:
  assumes "set fs \<subseteq> set servo_functions"
  shows "smooth 600 (duties SERVO_ROTE (fst (arm_run fs 600)))
    \<and> (\<forall>v \<in> set (duties SERVO_ROTE (fst (arm_run fs 600))). 340 \<le> v \<and> v \<le> 1110)
    \<and> last (600 # duties SERVO_ROTE (fst (arm_run fs 600))) = snd (arm_run fs 600)"
  using arm_run_safe[OF assms, of 600] by (simp add: arm_safe_def arm_range_def)

lemma arm_turns_smoothly_witness:
  "smooth 600 (duties SERVO_ROTE (fst (arm_run [servo_get, servo_reset, servo_put_right, servo_reset] 600)))"
  using arm_turns_smoothly[of "[servo_get, servo_reset, servo_put_right, servo_reset]"] by (simp add: servo_functions_def)

end
