(* ===== verification/Attitude.thy ===== *)
theory Attitude
  imports Float_Bounds Float_Sqrt Car
begin

text \<open>
  The heading of the robot, \<^verbatim>\<open>CODE/icm.c\<close>: the calibration of the gyroscope in \<open>ICM_INIT\<close>,
  the 10 ms timer \<open>icm_read_timer3\<close> that integrates its \<open>z\<close> rate into \<open>theta\<close>, and the filter
  functions that nothing calls (\<open>sgn\<close>, \<open>fsg\<close>, \<open>fhan\<close>, \<open>fhan1\<close>, \<open>adrc_filter\<close>). The raw
  readings \<open>icm_gyro_x\<close>, \<open>icm_gyro_y\<close>, \<open>icm_gyro_z\<close> (\<open>int16\<close>) are inputs.
\<close>

record imu =
  theta :: f32
  bias :: f32
  realGryo_x :: f32
  realGryo_y :: f32
  realGryo_z :: f32
  last_gryo_z :: f32
  hold_cnt :: int
  motion_flag :: int

definition k2 :: f32 where "k2 = to_s (lit 0.6)"

definition rate_of :: "int \<Rightarrow> f32" where
  "rate_of g = to_s (to_d (s_of_int g) / lit 16.4)"

text \<open>The bias is the mean of 200 readings.\<close>

definition add_reading :: "imu \<Rightarrow> int \<Rightarrow> imu" where
  "add_reading s g = (let s = s\<lparr>realGryo_z := rate_of g\<rparr> in s\<lparr>bias := bias s + realGryo_z s\<rparr>)"

definition icm_calibrate :: "int list \<Rightarrow> imu \<Rightarrow> imu" where
  "icm_calibrate gs s = (let s = foldl add_reading s (take 200 gs) in s\<lparr>bias := bias s / s_of_int 200\<rparr>)"

definition wrap_theta :: "f32 \<Rightarrow> f32" where
  "wrap_theta t = (if t < s_of_int 0 then t + s_of_int 360 else if t > s_of_int 360 then t - s_of_int 360 else t)"

definition icm_step :: "int \<times> int \<times> int \<Rightarrow> imu \<Rightarrow> imu" where
  "icm_step g s =
     (let (gx, gy, gz) = g;
          s = s\<lparr>realGryo_x := rate_of gx, realGryo_y := rate_of gy, realGryo_z := rate_of gz\<rparr>;
          s = s\<lparr>realGryo_z := realGryo_z s - bias s\<rparr>;
          s = s\<lparr>realGryo_z := to_s (to_d (realGryo_z s) * (- lit 1))\<rparr>;
          s = s\<lparr>last_gryo_z := last_gryo_z s * (s_of_int 1 - k2) + k2 * realGryo_z s\<rparr>;
          s = s\<lparr>theta := to_s (to_d (theta s) + to_d (last_gryo_z s) * lit 0.01)\<rparr>;
          s = s\<lparr>theta := wrap_theta (theta s)\<rparr>
      in if motion_flag s = 3 then
           (let s = s\<lparr>hold_cnt := hold_cnt s + 1\<rparr>
            in if hold_cnt s > 150 then s\<lparr>motion_flag := 1, hold_cnt := 0\<rparr> else s)
         else s)"

text \<open>The timer also takes back the \<open>SP_OK\<close> of the serial line.\<close>

definition icm_read_timer3 :: "int \<times> int \<times> int \<Rightarrow> imu \<times> status \<Rightarrow> imu \<times> status" where
  "icm_read_timer3 g st =
     (let (s, c) = st; s = icm_step g s
      in (s, if uart c = SP_OK then c\<lparr>uart := SP_WAIT\<rparr> else c))"

section \<open>The filter functions\<close>

definition f_sgn :: "f32 \<Rightarrow> f32" where
  "f_sgn x = (if d_abs (to_d x) < lit (1 / 10000000) then 0 else if x < s_of_int 0 then - 1 else 1)"

definition fsg :: "f32 \<Rightarrow> f32 \<Rightarrow> f32" where
  "fsg x d = (f_sgn (x + d) - f_sgn (x - d)) / s_of_int 2"

text \<open>\<open>sqrt\<close> is the \<open>double\<close> square root; \<open>* .5\<close> makes the sum for \<open>a2\<close> a \<open>double\<close>.\<close>

definition fhan :: "f32 \<Rightarrow> f32 \<Rightarrow> f32 \<Rightarrow> f32 \<Rightarrow> f32" where
  "fhan x1 x2 r0 h0 =
     (let d = r0 * h0 * h0; a0 = x2 * h0;
          y = x1 + a0;
          a1 = to_s (d_sqrt (to_d d * (to_d d + d_of_int 8 * d_abs (to_d y))));
          a2 = to_s (to_d a0 + to_d (f_sgn y * (a1 - d)) * lit 0.5);
          a = (a0 + y) * fsg y d + a2 * (s_of_int 1 - fsg y d)
      in - r0 * (a / d) * fsg y d - r0 * f_sgn a * (s_of_int 1 - fsg a d))"

text \<open>\<open>fhan1\<close> reads its local \<open>sy\<close>, which nothing writes: the parameter \<open>sy\<close>.\<close>

definition fhan1 :: "(f32 \<Rightarrow> f32) \<Rightarrow> f32 \<Rightarrow> f32 \<Rightarrow> f32 \<Rightarrow> f32 \<Rightarrow> f32 \<Rightarrow> f32" where
  "fhan1 arm_sqrt sy x1 x2 r0 h0 =
     (let h0Square = h0 * h0; d = r0 * h0Square; a0 = x2 * h0;
          y = x1 + a0;
          temp = to_s (to_d d * (to_d d + d_of_int 8 * d_abs (to_d y)));
          a1 = arm_sqrt temp;
          a2 = to_s (to_d a0 + to_d (f_sgn y * (a1 - d)) * lit 0.5);
          a = (a0 + y - a2) * sy + a2;
          sa = (f_sgn (a + d) - f_sgn (a - d)) / s_of_int 2
      in - r0 * (a / d - f_sgn a) * sa - r0 * f_sgn a)"

record adrc =
  ad_r :: f32
  ad_h0 :: f32
  ad_last :: f32
  ad_last1 :: f32
  ad_fh :: f32

definition adrc_filter :: "adrc \<Rightarrow> adrc" where
  "adrc_filter f =
     (let f = f\<lparr>ad_last := ad_last f + ad_h0 f * ad_last1 f\<rparr>
      in f\<lparr>ad_last1 := ad_last1 f + ad_h0 f * ad_fh f\<rparr>)"

definition adrc_init :: "adrc \<Rightarrow> adrc" where
  "adrc_init f = f\<lparr>ad_r := s_of_int 30000, ad_h0 := to_s (lit 0.02), ad_last := s_of_int 0, ad_last1 := s_of_int 0\<rparr>"

section \<open>The heading stays in its circle\<close>

text \<open>Values between two integers.\<close>

definition btw :: "int \<Rightarrow> int \<Rightarrow> f32 \<Rightarrow> bool" where
  "btw a b x \<longleftrightarrow> (\<exists>q. x = F32 (Fin q) \<and> of_int a \<le> q \<and> q \<le> of_int b)"

definition heading_ok :: "imu \<Rightarrow> bool" where
  "heading_ok s \<longleftrightarrow> btw 0 360 (theta s) \<and> btw (- 2048) 2048 (bias s) \<and> btw (- 4200) 4200 (last_gryo_z s)"

lemma lit_near:
  assumes "\<bar>q\<bar> < 4"
  obtains c where "lit q = F64 (Fin c)" "\<bar>c - q\<bar> \<le> 1 / 1000000"
proof -
  obtain c where c: "fround binary64 q = Fin c" "\<bar>c - q\<bar> \<le> 1 / 4503599627370496" by (rule fround64_near[OF assms])
  then have "\<bar>c - q\<bar> \<le> 1 / 1000000" by linarith
  then show ?thesis using that[of c] c(1) by (simp add: lit_def)
qed

lemma k2_near:
  obtains c where "k2 = F32 (Fin c)" "5999 / 10000 \<le> c" "c \<le> 6001 / 10000"
proof -
  obtain a where a: "lit 0.6 = F64 (Fin a)" "\<bar>a - 0.6\<bar> \<le> 1 / 1000000" by (rule lit_near[of "0.6"]) simp_all
  have "\<bar>a\<bar> < 4" using a(2) unfolding abs_le_iff abs_less_iff by linarith
  then obtain c where c: "fround binary32 a = Fin c" "\<bar>c - a\<bar> \<le> 1 / 8388608" by (rule fround32_near)
  have "5999 / 10000 \<le> c" "c \<le> 6001 / 10000" using a(2) c(2) unfolding abs_le_iff by linarith+
  then show ?thesis using that[of c] a(1) c(1) by (simp add: k2_def)
qed

lemma rate_of_range:
  assumes "- 32768 \<le> g" and "g < 32768"
  shows "btw (- 2000) 2000 (rate_of g)"
proof -
  have g: "fround binary64 (82 / 5) = Fin (rnd_fin binary64 (82 / 5))" "\<bar>rnd_fin binary64 (82 / 5) - 82 / 5\<bar> \<le> 1 / 1000000"
  proof -
    have p: "(2 :: rat) powi (4 - prec binary64) = 1 / 562949953421312" by (simp add: binary64_def power_int_def power_one_over)
    have "emin binary64 \<le> 4" by (simp add: binary64_def)
    then have c: "\<bar>rnd_fin binary64 (82 / 5) - 82 / 5\<bar> \<le> 1 / 562949953421312"
      using rnd_fin_close[of "82 / 5" 4 binary64] by (simp add: p)
    then show "\<bar>rnd_fin binary64 (82 / 5) - 82 / 5\<bar> \<le> 1 / 1000000" by linarith
    from this have "\<bar>rnd_fin binary64 (82 / 5)\<bar> < 32" unfolding abs_le_iff abs_less_iff by linarith
    also have "32 \<le> (2 powi (emax binary64 + 1) :: rat)" by (simp add: binary64_def power_int_def)
    finally show "fround binary64 (82 / 5) = Fin (rnd_fin binary64 (82 / 5))" by (simp add: fround_Fin)
  qed
  define d where "d = rnd_fin binary64 (82 / 5)"
  have d: "lit 16.4 = F64 (Fin d)" "163999 / 10000 \<le> d" using g unfolding d_def[symmetric] abs_le_iff by (simp_all add: lit_def)
  have gb: "- 32768 \<le> (of_int g :: rat)" "of_int g \<le> (32768 :: rat)" using assms by linarith+
  have q: "of_int (- 2000) \<le> of_int g / d" "of_int g / d \<le> of_int 2000"
    using d(2) gb by (simp_all add: divide_simps; linarith)+
  obtain u where u: "fround binary64 (of_int g / d) = Fin u" "of_int (- 2000) \<le> u" "u \<le> of_int 2000"
    by (rule fround64_between[OF q]) simp_all
  obtain v where v: "fround binary32 u = Fin v" "of_int (- 2000) \<le> v" "v \<le> of_int 2000"
    by (rule fround32_between[OF u(2,3)]) simp_all
  have "\<bar>g\<bar> < 2 ^ 24" using assms by simp
  then show ?thesis using d u v unfolding rate_of_def btw_def d(1) by (auto simp: F64_arith)
qed

lemma btw_round:
  assumes "of_int a \<le> q" and "q \<le> of_int b" and "\<bar>a\<bar> < 2 ^ 24" and "\<bar>b\<bar> < 2 ^ 24"
  shows "btw a b (F32 (fround binary32 q))" "btw a b (to_s (F64 (fround binary64 q)))"
proof -
  show "btw a b (F32 (fround binary32 q))" using fround32_between[OF assms] by (metis btw_def)
  obtain u where u: "fround binary64 q = Fin u" "of_int a \<le> u" "u \<le> of_int b"
    by (rule fround64_between[OF assms(1,2)]) (use assms(3,4) in auto)
  show "btw a b (to_s (F64 (fround binary64 q)))"
    using fround32_between[OF u(2,3) assms(3,4)] u(1) by (metis btw_def to_Fin(2))
qed

lemma gyro_z_range:
  assumes "- 32768 \<le> g" and "g < 32768" and "btw (- 2048) 2048 b"
  shows "btw (- 4048) 4048 (to_s (to_d (rate_of g - b) * (- lit 1)))"
proof -
  obtain r where r: "rate_of g = F32 (Fin r)" "- 2000 \<le> r" "r \<le> 2000"
    using rate_of_range[OF assms(1,2)] by (auto simp: btw_def)
  obtain c where c: "b = F32 (Fin c)" "- 2048 \<le> c" "c \<le> 2048" using assms(3) by (auto simp: btw_def)
  have "btw (- 4048) 4048 (F32 (fround binary32 (r - c)))" by (rule btw_round) (use r c in auto)
  then obtain u where u: "rate_of g - b = F32 (Fin u)" "- 4048 \<le> u" "u \<le> 4048"
    using r(1) c(1) by (auto simp: btw_def F32_arith)
  have "- lit 1 = F64 (Fin (- 1))" using fround_int64[of 1] by (simp add: lit_def f64_defs)
  moreover have "btw (- 4048) 4048 (to_s (F64 (fround binary64 (u * - 1))))" by (rule btw_round) (use u in auto)
  ultimately show ?thesis using u(1) by (simp add: F64_arith)
qed

lemma smoothed_range:
  assumes "btw (- 4200) 4200 l" and "btw (- 4048) 4048 r"
  shows "btw (- 4200) 4200 (l * (s_of_int 1 - k2) + k2 * r)"
proof -
  obtain c where c: "k2 = F32 (Fin c)" "5999 / 10000 \<le> c" "c \<le> 6001 / 10000" by (rule k2_near)
  obtain d where d: "fround binary32 (1 - c) = Fin d" "\<bar>d - (1 - c)\<bar> \<le> 1 / 8388608"
    by (rule fround32_near[of "1 - c"]) (use c in auto)
  have db: "3998 / 10000 \<le> d" "d \<le> 4002 / 10000" using d(2) c(2,3) unfolding abs_le_iff by linarith+
  obtain a where a: "l = F32 (Fin a)" "- 4200 \<le> a" "a \<le> 4200" using assms(1) by (auto simp: btw_def)
  obtain b where b: "r = F32 (Fin b)" "- 4048 \<le> b" "b \<le> 4048" using assms(2) by (auto simp: btw_def)
  have ad: "\<bar>a * d\<bar> \<le> 4200 * (4002 / 10000)" unfolding abs_mult by (rule mult_mono) (use a db in auto)
  have cb: "\<bar>c * b\<bar> \<le> 6001 / 10000 * 4048" unfolding abs_mult by (rule mult_mono) (use b c in auto)
  have "btw (- 1681) 1681 (F32 (fround binary32 (a * d)))" "btw (- 2430) 2430 (F32 (fround binary32 (c * b)))"
    using ad cb by (intro btw_round; simp add: abs_le_iff)+
  then obtain u v where u: "fround binary32 (a * d) = Fin u" "- 1681 \<le> u" "u \<le> 1681"
    and v: "fround binary32 (c * b) = Fin v" "- 2430 \<le> v" "v \<le> 2430" by (auto simp: btw_def)
  have "btw (- 4200) 4200 (F32 (fround binary32 (u + v)))" by (rule btw_round) (use u v in auto)
  moreover have "l * (s_of_int 1 - k2) + k2 * r = F32 (fround binary32 (u + v))"
    unfolding a(1) b(1) c(1) using d(1) u(1) v(1) by (simp add: F32_arith)
  ultimately show ?thesis by simp
qed

lemma theta_range:
  assumes "btw 0 360 t" and "btw (- 4200) 4200 l"
  shows "btw 0 360 (wrap_theta (to_s (to_d t + to_d l * lit 0.01)))"
proof -
  obtain a where a: "t = F32 (Fin a)" "0 \<le> a" "a \<le> 360" using assms(1) by (auto simp: btw_def)
  obtain b where b: "l = F32 (Fin b)" "- 4200 \<le> b" "b \<le> 4200" using assms(2) by (auto simp: btw_def)
  obtain c where c: "lit 0.01 = F64 (Fin c)" "\<bar>c - 0.01\<bar> \<le> 1 / 1000000" by (rule lit_near[of "0.01"]) simp_all
  have "\<bar>c - 1 / 100\<bar> \<le> 1 / 1000000" using c(2) by simp
  then have "99 / 10000 \<le> c" "c \<le> 101 / 10000" unfolding abs_le_iff by linarith+
  then have bc: "\<bar>b * c\<bar> \<le> 4200 * (101 / 10000)" unfolding abs_mult by (intro mult_mono) (use b in auto)
  obtain u where u: "fround binary64 (b * c) = Fin u" "of_int (- 43) \<le> u" "u \<le> of_int 43"
    by (rule fround64_between[of "- 43" "b * c" 43]) (use bc in \<open>auto simp: abs_le_iff\<close>)
  have "btw (- 43) 403 (to_s (F64 (fround binary64 (a + u))))" by (rule btw_round) (use a u in auto)
  then obtain v where v: "to_s (to_d t + to_d l * lit 0.01) = F32 (Fin v)" "- 43 \<le> v" "v \<le> 403"
    unfolding a(1) b(1) c(1) to_Fin F64_arith u(1) by (auto simp: btw_def)
  show ?thesis
  proof -
    consider "v < 0" | "360 < v" | "0 \<le> v" "v \<le> 360" by linarith
    then show ?thesis
    proof cases
      case 1
      then show ?thesis using v btw_round(1)[of 0 "v + 360" 360] by (simp add: wrap_theta_def F32_arith)
    next
      case 2
      then show ?thesis using v btw_round(1)[of 0 "v - 360" 360] by (simp add: wrap_theta_def F32_arith)
    next
      case 3
      then show ?thesis using v by (simp add: wrap_theta_def btw_def)
    qed
  qed
qed

definition int16_rates :: "int \<times> int \<times> int \<Rightarrow> bool" where
  "int16_rates g \<longleftrightarrow> - 32768 \<le> snd (snd g) \<and> snd (snd g) < 32768"

lemma icm_step_ok:
  assumes "heading_ok s" and "int16_rates g"
  shows "heading_ok (icm_step g s)"
proof -
  obtain gx gy gz where g: "g = (gx, gy, gz)" by (cases g)
  let ?r = "to_s (to_d (rate_of gz - bias s) * (- lit 1))"
  let ?l = "last_gryo_z s * (s_of_int 1 - k2) + k2 * ?r"
  have r: "btw (- 4048) 4048 ?r" using assms by (intro gyro_z_range) (simp_all add: heading_ok_def int16_rates_def g)
  have l: "btw (- 4200) 4200 ?l" using assms(1) r by (intro smoothed_range) (simp_all add: heading_ok_def)
  have "btw 0 360 (wrap_theta (to_s (to_d (theta s) + to_d ?l * lit 0.01)))"
    using assms(1) l by (intro theta_range) (simp_all add: heading_ok_def)
  then show ?thesis using assms(1) l by (simp add: icm_step_def g heading_ok_def Let_def)
qed

definition still_imu :: imu where
  "still_imu = \<lparr>theta = 0, bias = 0, realGryo_x = 0, realGryo_y = 0, realGryo_z = 0, last_gryo_z = 0, hold_cnt = 0, motion_flag = 0\<rparr>"

lemma calibrate_sum:
  assumes "\<forall>g \<in> set gs. - 32768 \<le> g \<and> g < 32768" and "btw (- 2000 * int n) (2000 * int n) (bias s)"
    and "n + length gs \<le> 200"
  shows "btw (- 2000 * int (n + length gs)) (2000 * int (n + length gs)) (bias (foldl add_reading s gs))
    \<and> theta (foldl add_reading s gs) = theta s \<and> last_gryo_z (foldl add_reading s gs) = last_gryo_z s"
  using assms
proof (induction gs arbitrary: s n)
  case (Cons g gs)
  obtain b where b: "bias s = F32 (Fin b)" "of_int (- 2000 * int n) \<le> b" "b \<le> of_int (2000 * int n)"
    using Cons.prems(2) by (auto simp: btw_def)
  have "btw (- 2000) 2000 (rate_of g)" by (rule rate_of_range) (use Cons.prems(1) in auto)
  then obtain r where r: "rate_of g = F32 (Fin r)" "- 2000 \<le> r" "r \<le> 2000" by (auto simp: btw_def)
  have n: "n + 1 \<le> 200" using Cons.prems(3) by simp
  have "btw (- 2000 * int (n + 1)) (2000 * int (n + 1)) (F32 (fround binary32 (b + r)))"
    by (rule btw_round) (use b r n in auto)
  then have "btw (- 2000 * int (n + 1)) (2000 * int (n + 1)) (bias (add_reading s g))"
    by (simp add: add_reading_def b(1) r(1) F32_arith)
  from Cons.IH[OF _ this] Cons.prems(1,3)
  show ?case by (simp add: add_reading_def)
qed simp

lemma calibrate_ok:
  assumes "\<forall>g \<in> set gs. - 32768 \<le> g \<and> g < 32768"
  shows "heading_ok (icm_calibrate gs still_imu)"
proof -
  define s where "s = foldl add_reading still_imu (take 200 gs)"
  have gs: "\<forall>g \<in> set (take 200 gs). - 32768 \<le> g \<and> g < 32768" using assms by (meson in_set_takeD)
  have "btw (- 2000 * int 0) (2000 * int 0) (bias still_imu)" by (simp add: still_imu_def btw_def one_F64)
  note c = calibrate_sum[OF gs this, folded s_def]
  have "btw (- 400000) 400000 (bias s)" using c unfolding btw_def by fastforce
  then obtain b where b: "bias s = F32 (Fin b)" "- 400000 \<le> b" "b \<le> 400000" by (auto simp: btw_def)
  have "btw (- 2048) 2048 (F32 (fround binary32 (b / 200)))" by (rule btw_round) (use b in auto)
  then have 1: "btw (- 2048) 2048 (bias s / s_of_int 200)" by (simp add: b(1) F32_arith)
  have z: "btw m n 0" if "m \<le> 0" "0 \<le> n" for m n using that by (simp add: btw_def one_F64)
  have "theta s = 0" "last_gryo_z s = 0" using c by (simp_all add: still_imu_def)
  then have "heading_ok (s\<lparr>bias := bias s / s_of_int 200\<rparr>)" using 1 by (simp add: heading_ok_def z)
  then show ?thesis by (simp add: icm_calibrate_def Let_def s_def)
qed

text \<open>
  C25. After the calibration, the heading \<open>theta\<close> is a number between 0 and 360 after every
  10 ms step, for all \<open>int16\<close> readings and runs of any length: the single correction by 360 is
  always enough, and rounding never leaves the circle.
\<close>

theorem heading_in_circle:
  assumes "\<forall>g \<in> set cs. - 32768 \<le> g \<and> g < 32768" and "\<forall>g \<in> set gs. int16_rates g"
  shows "\<exists>q. theta (fst (foldl (\<lambda>s g. icm_read_timer3 g s) (icm_calibrate cs still_imu, c) gs)) = F32 (Fin q)
    \<and> 0 \<le> q \<and> q \<le> 360"
proof -
  have "heading_ok (fst (foldl (\<lambda>s g. icm_read_timer3 g s) (icm_calibrate cs still_imu, c) gs))"
    using calibrate_ok[OF assms(1)] assms(2)
    by (induction gs arbitrary: c rule: rev_induct)
      (simp_all add: icm_step_ok icm_read_timer3_def case_prod_unfold Let_def)
  then show ?thesis by (auto simp: heading_ok_def btw_def)
qed

lemma heading_in_circle_witness:
  "\<exists>q. theta (fst (foldl (\<lambda>s g. icm_read_timer3 g s)
       (icm_calibrate (replicate 200 17) still_imu, zero_status) (replicate 500 (0, 0, - 32768))))
     = F32 (Fin q) \<and> 0 \<le> q \<and> q \<le> 360"
  by (rule heading_in_circle) (auto simp: int16_rates_def)

end
