(* ===== verification/Robot.thy ===== *)
theory Robot
  imports Route_Plan Attitude Pid Servo
begin

text \<open>
  The globals that the control timer of \<^verbatim>\<open>CODE/motor.c\<close> reads and writes, and the driving along
  a route (\<^verbatim>\<open>CODE/motionPlanning.c\<close>). The trigonometric functions of CMSIS and of the C library
  are parameters, the fields of \<open>mlib\<close>. \<open>cmd_x\<close>, \<open>cmd_y\<close>, \<open>cmd_z\<close> are the globals \<open>x\<close>, \<open>y\<close>,
  \<open>z\<close>; \<open>pic_cnt\<close> is \<open>pic_num\<close>, \<open>spots\<close> is \<open>pos_int\<close>, \<open>pic_ij\<close> is \<open>pic_i\<close>, \<open>pic_j\<close> and
  \<open>to_go\<close> is \<open>temp_\<close>. The last fields are the \<open>static\<close> variables of functions. What is done to
  the hardware is appended to \<open>acts\<close>.
\<close>

record mlib =
  msin :: "f32 \<Rightarrow> f32"
  mcos :: "f32 \<Rightarrow> f32"
  matan :: "f64 \<Rightarrow> f64"

record robot =
  car :: status
  heading :: imu
  ctl :: pids
  whl :: wheels
  route :: plan
  cmd_x :: f32
  cmd_y :: f32
  cmd_z :: f32
  target_1 :: f32
  target_2 :: f32
  target_3 :: f32
  target_4 :: f32
  speed_x :: f32
  speed_y :: f32
  x_position :: f32
  y_position :: f32
  x_pos1 :: f32
  y_pos1 :: f32
  target_cnt :: int
  index_cur :: int
  index_tar :: int
  tar_cnt :: int
  pic_cnt :: int
  spots :: "(int \<times> int) arr"
  pic_ij :: "int \<times> int"
  to_go :: f32
  target_v :: f32
  bar_x :: f32
  last_x :: f32
  last_y :: f32
  to_pic2_cnt :: int
  pic_mag_cnt :: int
  drop_it_cnt :: int
  back_pos :: "f32 \<times> f32"
  back_flag :: int
  bar_pos :: "f32 \<times> f32"
  edge_pos :: "f32 \<times> f32"
  pwm_lst :: int
  acts :: "act list"

definition emit :: "act list \<Rightarrow> robot \<Rightarrow> robot" where
  "emit as r = r\<lparr>acts := acts r @ as\<rparr>"

definition set_motion :: "int \<Rightarrow> robot \<Rightarrow> robot" where
  "set_motion k r = r\<lparr>car := (car r)\<lparr>motion := k\<rparr>\<rparr>"

definition drive :: "f32 \<Rightarrow> f32 \<Rightarrow> f32 \<Rightarrow> robot \<Rightarrow> robot" where
  "drive vx vy vz r = r\<lparr>cmd_x := vx, cmd_y := vy, cmd_z := vz\<rparr>"

abbreviation stop :: "robot \<Rightarrow> robot" where "stop \<equiv> drive 0 0 0"

section \<open>Odometry\<close>

text \<open>The displacement in 10 ms from the wheel speeds and the heading.\<close>

definition yaw_rad :: "robot \<Rightarrow> f32" where
  "yaw_rad r = to_s (to_d (theta (heading r)) * lit 3.1416 / lit 180)"

definition moved_by :: "(f32 \<Rightarrow> f32) \<Rightarrow> robot \<Rightarrow> f64" where
  "moved_by f r = to_d (speed_x r * f (yaw_rad r) + speed_y r * f (to_s (to_d (yaw_rad r) + lit 1.5708))) * lit 0.01"

definition add_d :: "f32 \<Rightarrow> f64 \<Rightarrow> f32" where
  "add_d p d = to_s (to_d p + d)"

definition odo :: "mlib \<Rightarrow> robot \<Rightarrow> f32 \<times> f32 \<Rightarrow> f32 \<times> f32" where
  "odo m r p = (add_d (fst p) (moved_by (msin m) r), add_d (snd p) (moved_by (mcos m) r))"

definition odo_position :: "mlib \<Rightarrow> robot \<Rightarrow> robot" where
  "odo_position m r = (let p = odo m r (x_position r, y_position r) in r\<lparr>x_position := fst p, y_position := snd p\<rparr>)"

definition odo_pos1 :: "mlib \<Rightarrow> robot \<Rightarrow> robot" where
  "odo_pos1 m r = (let p = odo m r (x_pos1 r, y_pos1 r) in r\<lparr>x_pos1 := fst p, y_pos1 := snd p\<rparr>)"

section \<open>Distances and angles\<close>

definition arm_sqrt_f32 :: "f32 \<Rightarrow> f32" where
  "arm_sqrt_f32 v = (if s_of_int 0 \<le> v then F32 (fsqrt binary32 (v32 v)) else 0)"

definition calc_dist :: "f32 \<Rightarrow> f32 \<Rightarrow> f32 \<Rightarrow> f32 \<Rightarrow> f32" where
  "calc_dist x0 x1 y0 y1 = arm_sqrt_f32 ((x0 - x1) * (x0 - x1) + (y0 - y1) * (y0 - y1))"

definition get_tar :: "f32 \<Rightarrow> f32 \<Rightarrow> robot \<Rightarrow> int option" where
  "get_tar ix iy r = do {
     let s = lg (route r);
     t \<leftarrow> rd 60 (path_tot s) (target_cnt r);
     res \<leftarrow> for_brk (index_cur r) (t + 1) (\<lambda>i _. do {
         a \<leftarrow> rd_xy (path_x s) (target_cnt r) i;
         b \<leftarrow> rd_xy (path_y s) (target_cnt r) i;
         Some (if calc_dist ix a iy b > s_of_int 8 then Break (Some i) else Next None) }) None;
     Some (u16 (case res of Some i \<Rightarrow> i | None \<Rightarrow> t))
   }"

definition restrict_theta :: "f32 \<Rightarrow> f32" where
  "restrict_theta a = (if a > s_of_int 360 then a - s_of_int 360 else a)"

definition get_Theta :: "f32 \<Rightarrow> f32 \<Rightarrow> f32 \<Rightarrow> f32" where
  "get_Theta th tar cur =
     (let theta1 = to_s (d_abs (to_d (tar - cur)));
          theta2 = to_s (d_of_int 360 - d_abs (to_d (tar - cur)));
          ans = (if theta1 < theta2 then theta1 else theta2)
      in if d_abs (to_d (restrict_theta (tar + ans) - th)) < lit (1 / 10000) then ans
         else to_s (- lit 1 * to_d ans))"

text \<open>\<open>get_Theta(0, theta)\<close>, the command that turns the robot back to the heading 0.\<close>

definition hold_heading :: "robot \<Rightarrow> f32" where
  "hold_heading r = get_Theta (theta (heading r)) (s_of_int 0) (theta (heading r))"

text \<open>The direction of a target in degrees, clockwise from the \<open>y\<close> axis.\<close>

definition course :: "mlib \<Rightarrow> f32 \<Rightarrow> f32 \<Rightarrow> f32" where
  "course m dx dy =
     (let yaw = to_s (if feq (v32 dy) (Fin 0) then (if dx > s_of_int 0 then d_of_int 90 else d_of_int 270)
                      else matan m (to_d (dx / dy)) * lit 180 / lit 3.14159);
          yaw = (if dx < s_of_int 0 \<and> dy > s_of_int 0 then to_s (to_d yaw + lit 360) else yaw);
          yaw = (if dx > s_of_int 0 \<and> dy < s_of_int 0 then to_s (to_d yaw + lit 180) else yaw)
      in if dx \<le> s_of_int 0 \<and> dy < s_of_int 0 then to_s (to_d yaw + lit 180) else yaw)"

text \<open>The components of a speed in a direction given in degrees.\<close>

definition along :: "(f32 \<Rightarrow> f32) \<Rightarrow> f32 \<Rightarrow> f32 \<Rightarrow> f32" where
  "along f v a = v * f (to_s (to_d a / lit 180 * lit 3.14159))"

section \<open>Driving to a point\<close>

text \<open>
  \<open>x0\<close> and \<open>y0\<close> are not used, and \<open>dist_\<close> is computed for nothing; its array accesses are
  kept.
\<close>

definition smooth_to :: "f32 \<Rightarrow> f32 \<Rightarrow> f32" where
  "smooth_to l v = to_s (to_d l * lit 0.6 + to_d v * lit 0.4)"

definition steer_to :: "mlib \<Rightarrow> f32 \<Rightarrow> robot \<Rightarrow> robot" where
  "steer_to m yaw r =
     (let r = r\<lparr>ctl := (ctl r)\<lparr>pid_yaw := pid_cal yaw (s_of_int 0) (pid_yaw (ctl r))\<rparr>\<rparr>;
          x_temp = along (mcos m) (target_v r) (out (pid_yaw (ctl r)));
          y_temp = along (msin m) (target_v r) (out (pid_yaw (ctl r)));
          r = r\<lparr>last_x := smooth_to (last_x r) x_temp\<rparr>;
          r = r\<lparr>last_y := smooth_to (last_y r) y_temp\<rparr>
      in drive (to_s (to_d (last_x r) / lit 1.688)) (to_s (to_d (last_y r) / lit 1.6)) (hold_heading r) r)"

definition go_point :: "mlib \<Rightarrow> f32 \<Rightarrow> f32 \<Rightarrow> f32 \<Rightarrow> f32 \<Rightarrow> robot \<Rightarrow> (bool \<times> robot) option" where
  "go_point m x0 y0 x1 y1 r = do {
     let s = lg (route r);
     t \<leftarrow> rd 60 (path_tot s) (tar_cnt r);
     a \<leftarrow> rd_xy (path_x s) (tar_cnt r) 0;
     b \<leftarrow> rd_xy (path_x s) (tar_cnt r) t;
     c \<leftarrow> rd_xy (path_y s) (tar_cnt r) 0;
     d \<leftarrow> rd_xy (path_y s) (tar_cnt r) t;
     let r = r\<lparr>to_go := calc_dist (x_position r) x1 (y_position r) y1\<rparr>;
     let r = r\<lparr>target_v := s_of_int 60\<rparr>;
     let r = steer_to m (course m (x1 - x_position r) (y1 - y_position r)) r;
     Some (to_go r < s_of_int 4, r)
   }"

definition motionControl :: "mlib \<Rightarrow> robot \<Rightarrow> robot option" where
  "motionControl m r = do {
     let r = odo_position m r;
     let s = lg (route r);
     ix \<leftarrow> rd_xy (path_x s) (target_cnt r) (index_cur r);
     iy \<leftarrow> rd_xy (path_y s) (target_cnt r) (index_cur r);
     (there, r) \<leftarrow> go_point m (s_of_int 0) (s_of_int 0) (s_of_int 200) (s_of_int 0) r;
     Some (if there then set_motion 4 r else r)
   }"

section \<open>The command that holds the heading\<close>

text \<open>Rounding moves a value below 512 by at most \<open>2 ^ - 16\<close>.\<close>

lemma near512:
  assumes "\<bar>q\<bar> < 512"
  obtains y z where "fround binary32 q = Fin y" "\<bar>y - q\<bar> \<le> 1 / 65536" "fround binary64 q = Fin z" "\<bar>z - q\<bar> \<le> 1 / 65536"
proof -
  have p: "(2 :: rat) powi (8 - prec binary32) = 1 / 65536" "(2 :: rat) powi (8 - prec binary64) = 1 / 35184372088832"
    by (simp_all add: binary32_def binary64_def power_int_def power_one_over)
  have e: "emin binary32 \<le> 8" "emin binary64 \<le> 8" by (simp_all add: binary32_def binary64_def)
  have c: "\<bar>rnd_fin binary32 q - q\<bar> \<le> 1 / 65536" "\<bar>rnd_fin binary64 q - q\<bar> \<le> 1 / 35184372088832"
    using rnd_fin_close[OF _ e(1), of q] rnd_fin_close[OF _ e(2), of q] assms by (simp_all add: p)
  have "\<bar>rnd_fin binary32 q\<bar> < 1024" "\<bar>rnd_fin binary64 q\<bar> < 1024"
    using c assms unfolding abs_le_iff abs_less_iff by linarith+
  then have "fround binary32 q = Fin (rnd_fin binary32 q)" "fround binary64 q = Fin (rnd_fin binary64 q)"
    by (simp_all add: fround_Fin) (simp_all add: binary32_def binary64_def power_int_def)
  moreover have "\<bar>rnd_fin binary64 q - q\<bar> \<le> 1 / 65536" using c(2) by linarith
  ultimately show ?thesis using that c(1) by blast
qed

lemma minus_lit1: "- lit 1 = F64 (Fin (- 1))"
  using fround_int64[of 1] by (simp add: lit_def f64_defs)

text \<open>\<open>360 - t\<close> through \<open>double\<close> and back.\<close>

lemma other_way:
  assumes "0 \<le> q" and "q \<le> 360"
  obtains v where "to_s (d_of_int 360 - F64 (Fin q)) = F32 (Fin v)" "0 \<le> v" "v \<le> 360"
    "\<bar>v - (360 - q)\<bar> \<le> 1 / 32768" "q \<le> 180 \<Longrightarrow> 180 \<le> v" "180 \<le> q \<Longrightarrow> v \<le> 180" "fround binary32 v = Fin v"
proof -
  have "\<bar>360 - q\<bar> < 512" using assms by (simp add: abs_less_iff)
  then obtain u where u: "fround binary64 (360 - q) = Fin u" "\<bar>u - (360 - q)\<bar> \<le> 1 / 65536" by (rule near512)
  have ub: "0 \<le> u" "u \<le> 360" "q \<le> 180 \<Longrightarrow> 180 \<le> u" "180 \<le> q \<Longrightarrow> u \<le> 180"
    using fround64_between[of 0 "360 - q" 360] fround64_between[of 180 "360 - q" 360]
      fround64_between[of 0 "360 - q" 180] assms u(1) by (auto simp: algebra_simps)
  have "\<bar>u\<bar> < 512" using ub by (simp add: abs_less_iff)
  then obtain v where v: "fround binary32 u = Fin v" "\<bar>v - u\<bar> \<le> 1 / 65536" by (rule near512)
  have vb: "0 \<le> v" "v \<le> 360" "q \<le> 180 \<Longrightarrow> 180 \<le> v" "180 \<le> q \<Longrightarrow> v \<le> 180"
    using fround32_between[of 0 u 360] fround32_between[of 180 u 360] fround32_between[of 0 u 180] ub v(1)
    by (auto simp: algebra_simps)
  have "\<bar>v - (360 - q)\<bar> \<le> 1 / 32768" using u(2) v(2) unfolding abs_le_iff by linarith
  then show ?thesis using that[of v] vb v(1) u(1) b32.rnd_idem[OF v(1)] by (simp add: F64_arith)
qed

text \<open>
  C26. For a heading in the circle, the turning command is at most 180 degrees in magnitude and
  is, up to a fifth of a thousandth of a degree, the heading itself or the heading less 360:
  the signed shortest way back to zero.
\<close>

theorem get_Theta_shortest:
  assumes "fround binary32 q = Fin q" and "0 \<le> q" and "q \<le> 360"
  shows "\<exists>d. get_Theta (F32 (Fin q)) (s_of_int 0) (F32 (Fin q)) = F32 (Fin d) \<and> \<bar>d\<bar> \<le> 180
    \<and> (\<bar>d - q\<bar> \<le> 1 / 5000 \<or> \<bar>d - (q - 360)\<bar> \<le> 1 / 5000)"
proof -
  let ?h = "F32 (Fin q)"
  have z: "s_of_int 0 - ?h = F32 (Fin (- q))" using assms(1) b32.rnd_neg[of q] by (simp add: F32_arith)
  have ab: "d_abs (to_d (s_of_int 0 - ?h)) = F64 (Fin q)" using assms(2) unfolding z by (simp add: d_abs_def fabs_def)
  obtain v where v: "to_s (d_of_int 360 - F64 (Fin q)) = F32 (Fin v)" "0 \<le> v" "v \<le> 360"
    "\<bar>v - (360 - q)\<bar> \<le> 1 / 32768" "q \<le> 180 \<Longrightarrow> 180 \<le> v" "180 \<le> q \<Longrightarrow> v \<le> 180" "fround binary32 v = Fin v"
    by (rule other_way[OF assms(2,3)]) blast
  obtain c where c: "lit (1 / 10000) = F64 (Fin c)" "\<bar>c - 1 / 10000\<bar> \<le> 1 / 1000000" by (rule lit_near[of "1 / 10000"]) simp_all
  have cb: "0 < c" "c \<le> 11 / 100000" using c(2) unfolding abs_le_iff by linarith+
  define a where "a = (if q < v then q else v)"
  have a: "fround binary32 a = Fin a" "0 \<le> a" "a \<le> 360" using assms v(2,3,7) by (simp_all add: a_def)
  have r: "restrict_theta (s_of_int 0 + F32 (Fin a)) = F32 (Fin a)" using a by (simp add: restrict_theta_def F32_arith)
  have "\<bar>a - q\<bar> < 512" using a(2,3) assms(2,3) by (simp add: abs_less_iff)
  then obtain w where w: "fround binary32 (a - q) = Fin w" "\<bar>w - (a - q)\<bar> \<le> 1 / 65536" by (rule near512)
  have G: "get_Theta ?h (s_of_int 0) ?h = (if \<bar>w\<bar> < c then F32 (Fin a) else to_s (- lit 1 * F64 (Fin a)))"
  proof -
    have A: "(if q < v then F32 (Fin q) else F32 (Fin v)) = F32 (Fin a)" by (simp add: a_def)
    have D: "d_abs (to_d (F32 (Fin a) - F32 (Fin q))) = F64 (Fin \<bar>w\<bar>)" using w(1) by (simp add: F32_arith d_abs_def fabs_def)
    show ?thesis unfolding get_Theta_def Let_def ab v(1) to_Fin(2) assms(1) F_order A r D c(1) to_Fin(1) by (rule refl)
  qed
  show ?thesis
  proof (cases "q \<le> 180")
    case True
    then have "a = q" using v(5) by (auto simp: a_def)
    moreover have "w = 0" using w(1) \<open>a = q\<close> b32.rnd_zero by simp
    ultimately show ?thesis using cb(1) assms(2) True unfolding G by simp
  next
    case False
    then have av: "a = v" "v \<le> 180" using v(6) by (auto simp: a_def)
    show ?thesis
    proof (cases "\<bar>w\<bar> < c")
      case True
      have "\<bar>v - q\<bar> \<le> 1 / 5000" using True w(2) cb(2) av unfolding abs_le_iff abs_less_iff by linarith
      then show ?thesis using True av v(2) unfolding G by simp
    next
      case False
      have m: "- lit 1 * F64 (Fin a) = F64 (fround binary64 (- v))" by (simp add: minus_lit1 F64_arith av)
      have "\<bar>- v\<bar> < 512" using v(2,3) by (simp add: abs_less_iff)
      then obtain e where e: "fround binary64 (- v) = Fin e" "\<bar>e - (- v)\<bar> \<le> 1 / 65536" by (rule near512)
      have eb: "- 180 \<le> e" "e \<le> 0"
        using fround64_between[of "- 180" "- v" 0] v(2) av(2) e(1) by auto
      have "\<bar>e\<bar> < 512" using eb by (simp add: abs_less_iff)
      then obtain d where d: "fround binary32 e = Fin d" "\<bar>d - e\<bar> \<le> 1 / 65536" by (rule near512)
      have db: "- 180 \<le> d" "d \<le> 0" using fround32_between[of "- 180" e 0] eb d(1) by auto
      have "\<bar>d - (q - 360)\<bar> \<le> 1 / 5000" using d(2) e(2) v(4) unfolding abs_le_iff by linarith
      then show ?thesis using False d(1) e(1) db unfolding G m by (simp add: abs_le_iff)
    qed
  qed
qed

lemma get_Theta_shortest_witness:
  "\<exists>d. get_Theta (F32 (Fin 350)) (s_of_int 0) (F32 (Fin 350)) = F32 (Fin d) \<and> \<bar>d - (- 10)\<bar> \<le> 1 / 5000"
proof -
  have "fround binary32 350 = Fin 350" using fround_int32[of 350] by simp
  from get_Theta_shortest[OF this] obtain d where "get_Theta (F32 (Fin 350)) (s_of_int 0) (F32 (Fin 350)) = F32 (Fin d)"
    "\<bar>d\<bar> \<le> 180" "\<bar>d - 350\<bar> \<le> 1 / 5000 \<or> \<bar>d - (350 - 360)\<bar> \<le> 1 / 5000" by auto
  moreover from this(2) have "\<not> \<bar>d - 350\<bar> \<le> 1 / 5000" unfolding abs_le_iff by linarith
  ultimately show ?thesis by simp
qed

section \<open>A start state\<close>

definition start_robot :: robot where
  "start_robot = \<lparr>car = flag_init zero_status, heading = still_imu, ctl = pid_init,
     whl = \<lparr>speed_1 = 0, speed_2 = 0, speed_3 = 0, speed_4 = 0\<rparr>, route = small_plan,
     cmd_x = 0, cmd_y = 0, cmd_z = 0, target_1 = 0, target_2 = 0, target_3 = 0, target_4 = 0,
     speed_x = 0, speed_y = 0, x_position = 0, y_position = 0, x_pos1 = 0, y_pos1 = 0,
     target_cnt = 0, index_cur = 0, index_tar = 0, tar_cnt = 0, pic_cnt = 13, spots = \<lambda>_. (0, 0), pic_ij = (0, 0),
     to_go = 0, target_v = 0, bar_x = 0, last_x = 0, last_y = 0, to_pic2_cnt = 0, pic_mag_cnt = 0, drop_it_cnt = 1,
     back_pos = (0, 0), back_flag = 0, bar_pos = (0, 0), edge_pos = (0, 0), pwm_lst = 600, acts = []\<rparr>"

end
