(* ===== verification/Chassis.thy ===== *)
theory Chassis
  imports Robot
begin

text \<open>
  \<^verbatim>\<open>CODE/motor.c\<close>: the 10 ms timer \<open>motorControl_timer1\<close> with the driving modes it
  dispatches to, the task \<open>servo_ctrl\<close> that moves the arm, and the message of the task
  \<open>uart_trans\<close>. The locals \<open>dir_x\<close>, \<open>dir_y\<close>, \<open>flag\<close> of \<open>to_pic\<close> and the course that
  \<open>uart_trans\<close> computes have no effect and are left out, as are debug prints.
\<close>

definition std_speed :: f32 where "std_speed = s_of_int 30"

section \<open>The driving modes\<close>

text \<open>Towards a point given relative to \<open>x_pos1\<close>, \<open>y_pos1\<close>.\<close>

definition approach :: "mlib \<Rightarrow> f32 \<Rightarrow> f32 \<Rightarrow> robot \<Rightarrow> robot" where
  "approach m qx qy r =
     (let yaw = course m (qx - x_pos1 r) (qy - y_pos1 r);
          x_temp = along (mcos m) std_speed yaw;
          y_temp = along (msin m) std_speed yaw
      in drive (to_s (to_d x_temp / lit 1.688)) (to_s (to_d y_temp / lit 1.6)) (hold_heading r) r)"

definition pic_offset :: "rat \<Rightarrow> int \<Rightarrow> f64 \<Rightarrow> f32" where
  "pic_offset k d b = to_s (d_of_int d * lit k + b)"

definition to_pic :: "mlib \<Rightarrow> robot \<Rightarrow> robot option" where
  "to_pic m r =
     (let r = odo_pos1 m r;
          qx = pic_offset 0.2585 (fst (pic_ij r) - 94) (d_of_int 1);
          qy = pic_offset 0.254 (snd (pic_ij r) - 60) (lit 10)
      in if calc_dist qx (x_pos1 r) qy (y_pos1 r) > s_of_int 1 then Some (approach m qx qy r)
         else do {
           vx \<leftarrow> rd NP (px_std (route r)) (lsttt (route r));
           vy \<leftarrow> rd NP (py_std (route r)) (lsttt (route r));
           let r = r\<lparr>x_position := to_s (lit 1 * d_of_int vx), y_position := to_s (lit 1 * d_of_int vy)\<rparr>;
           let r = stop r;
           let r = emit [Tx_8 [51]] r;
           Some (r\<lparr>car := (car r)\<lparr>send_flag := 1, motion := 13\<rparr>\<rparr>)
         })"

text \<open>\<open>to_pic2\<close> scales without an offset and takes the next stop of the second tour.\<close>

definition pic_scaled :: "rat \<Rightarrow> int \<Rightarrow> f32" where
  "pic_scaled k d = to_s (d_of_int d * lit k)"

definition to_pic2 :: "mlib \<Rightarrow> robot \<Rightarrow> robot option" where
  "to_pic2 m r =
     (let r = odo_pos1 m r;
          qx = pic_scaled 0.19302 (fst (pic_ij r) - 94);
          qy = pic_scaled 0.19 (snd (pic_ij r) - 60)
      in if calc_dist qx (x_pos1 r) qy (y_pos1 r) > s_of_int 1 then Some (approach m qx qy r)
         else do {
           (vx, vy) \<leftarrow> stop_xy (route r) 1 (to_pic2_cnt r);
           let r = r\<lparr>x_position := to_s (lit 1 * d_of_int vx), y_position := to_s (lit 1 * d_of_int vy),
                     to_pic2_cnt := to_pic2_cnt r + 1\<rparr>;
           Some (set_motion 7 (stop r))
         })"

definition pic_mag :: "robot \<Rightarrow> robot" where
  "pic_mag r =
     (let r = r\<lparr>car := (car r)\<lparr>send := 1\<rparr>\<rparr>;
          r = stop r
      in if pic_mag_cnt r < 26 then
           (emit [Duty SERVO_GET 2400, Pin C5 1] r)\<lparr>pic_mag_cnt := pic_mag_cnt r + 1\<rparr>
         else
           (let r = emit [Duty SERVO_GET 3500] r;
                r = r\<lparr>pic_mag_cnt := 0\<rparr>
            in r\<lparr>car := (car r)\<lparr>send := 0, motion := 1\<rparr>\<rparr>))"

definition drop_it :: "robot \<Rightarrow> robot" where
  "drop_it r =
     (let r = set_motion 1 (emit [Pin C5 0, Duty SERVO_GET 6400] (stop r));
          r = r\<lparr>drop_it_cnt := 0\<rparr>
      in r\<lparr>drop_it_cnt := drop_it_cnt r + 1\<rparr>)"

definition go_out :: "mlib \<Rightarrow> robot \<Rightarrow> robot" where
  "go_out m r =
     (let r = odo_position m (drive (s_of_int 60) (s_of_int 0) (hold_heading r) r)
      in if y_position r > s_of_int (- 10) then set_motion 1 (stop r) else r)"

definition go_in :: "mlib \<Rightarrow> robot \<Rightarrow> robot" where
  "go_in m r =
     (let r = odo_position m (drive (s_of_int (- 60)) (s_of_int 0) (hold_heading r) r)
      in if y_position r < s_of_int (- 60) then set_motion 4 (stop r) else r)"

definition protect_back :: "mlib \<Rightarrow> robot \<Rightarrow> robot" where
  "protect_back m r =
     (let r = r\<lparr>back_pos := odo m r (back_pos r)\<rparr>;
          r = (if back_flag r = 0 then
                 (if snd (back_pos r) > s_of_int (- 30) then r\<lparr>cmd_x := - std_speed\<rparr> else r\<lparr>back_flag := 1\<rparr>)
               else if back_flag r = 1 then
                 (if snd (back_pos r) < s_of_int 30 then r\<lparr>cmd_x := std_speed\<rparr> else r\<lparr>back_flag := 0\<rparr>)
               else r);
          r = r\<lparr>cmd_y := s_of_int 0\<rparr>;
          r = r\<lparr>cmd_z := hold_heading r\<rparr>
      in if is_pic (car r) \<noteq> 0 then
           r\<lparr>cmd_x := 0, cmd_y := 0, car := (car r)\<lparr>pic_stop := 1\<rparr>, back_pos := (0, 0), back_flag := 0\<rparr>
         else r)"

text \<open>Sideways to the bar; \<open>to_bar\<close> and \<open>to_edge\<close> have a position of their own each.\<close>

definition sideways :: "robot \<Rightarrow> robot" where
  "sideways r = drive (s_of_int 0) (if bar_x r > s_of_int 0 then s_of_int 15 else s_of_int (- 15)) (hold_heading r) r"

definition at_bar :: "robot \<Rightarrow> f32 \<Rightarrow> bool" where
  "at_bar r p \<longleftrightarrow> d_abs (to_d (p - bar_x r)) < d_of_int 1"

definition to_bar :: "mlib \<Rightarrow> robot \<Rightarrow> robot" where
  "to_bar m r =
     (let r = (if bar_flag (car r) = 0 then drive (s_of_int 10) (s_of_int 0) (hold_heading r) r else r);
          r = (if bar_flag (car r) = 1 then stop r else r)
      in if bar_flag (car r) = 2 then
           (let r = sideways (r\<lparr>bar_pos := odo m r (bar_pos r)\<rparr>)
            in if at_bar r (fst (bar_pos r)) then set_motion 4 (stop r) else r)
         else r)"

definition to_edge :: "mlib \<Rightarrow> robot \<Rightarrow> robot" where
  "to_edge m r =
     (let r = (if bar_flag (car r) = 0 then drive (s_of_int 0) (s_of_int 0) (hold_heading r) r else r)
      in if bar_flag (car r) = 1 then
           (let r = sideways (r\<lparr>edge_pos := odo m r (edge_pos r)\<rparr>)
            in if at_bar r (fst (edge_pos r)) then set_motion 10 r else r)
         else r)"

definition wait_get :: "robot \<Rightarrow> robot" where
  "wait_get r =
     (if uart_flag (car r) \<noteq> 0 \<and> put_flag (car r) \<noteq> 0 then
        (let r = r\<lparr>car := (car r)\<lparr>servo_flag_ctrl := 1\<rparr>\<rparr>
         in if pick_flag (car r) \<noteq> 0 then
              (let r = r\<lparr>car := (car r)\<lparr>motion := 1, pick_flag := 0, uart_flag := 0, put_flag := 0\<rparr>\<rparr>
               in if target_cnt r = pic_cnt r then r\<lparr>car := (car r)\<lparr>drop_tail_flag := 1\<rparr>\<rparr> else r)
            else r)
      else r)"

definition wait_drop :: "robot \<Rightarrow> robot" where
  "wait_drop r =
     (let r = r\<lparr>cmd_x := 0, cmd_y := 0\<rparr>
      in if put_flag (car r) \<noteq> 0 then
           (let r = r\<lparr>car := (car r)\<lparr>servo_flag_ctrl := 1\<rparr>\<rparr>
            in if drop_flag (car r) \<noteq> 0 then r\<lparr>car := (car r)\<lparr>motion := 1, drop_flag := 0\<rparr>\<rparr> else r)
         else r)"

section \<open>The control timer\<close>

definition wheel_speed :: "rat \<Rightarrow> int \<Rightarrow> int \<Rightarrow> f32" where
  "wheel_speed k a b = to_s (to_d (s_of_int a) * lit 0.5 - to_d (s_of_int b) * lit 0.5) * to_s (lit k)"

definition read_speeds :: "wheels \<Rightarrow> robot \<Rightarrow> robot" where
  "read_speeds w r =
     r\<lparr>whl := w, speed_x := wheel_speed 1.63 (speed_2 w) (speed_3 w), speed_y := wheel_speed 1.55 (speed_1 w) (speed_2 w)\<rparr>"

definition run_mode :: "mlib \<Rightarrow> robot \<Rightarrow> robot option" where
  "run_mode m r =
     (let k = motion (car r) in
      if k = 1 \<or> k = 2 then motionControl m r
      else if k = 4 then Some (stop r)
      else if k = 5 then to_pic m r
      else if k = 6 then to_pic2 m r
      else if k = 7 then Some (pic_mag r)
      else if k = 8 then Some (drop_it r)
      else if k = 9 then Some (go_out m r)
      else if k = 10 then Some (go_in m r)
      else if k = 11 then Some (protect_back m r)
      else if k = 12 then Some (to_bar m r)
      else if k = 13 then Some (wait_get r)
      else if k = 14 then Some (wait_drop r)
      else if k = 15 then Some (to_edge m r)
      else Some r)"

definition set_targets :: "robot \<Rightarrow> robot" where
  "set_targets r =
     r\<lparr>target_1 := cmd_x r + cmd_y r + cmd_z r, target_2 := cmd_x r - cmd_y r + cmd_z r,
       target_3 := cmd_x r + cmd_y r - cmd_z r, target_4 := cmd_x r - cmd_y r - cmd_z r\<rparr>"

definition run_pids :: "robot \<Rightarrow> robot" where
  "run_pids r =
     (let c = ctl r; w = whl r;
          c = c\<lparr>pid1 := pid_cal (target_1 r) (s_of_int (speed_1 w)) (pid1 c)\<rparr>;
          c = c\<lparr>pid2 := pid_cal (target_2 r) (s_of_int (speed_2 w)) (pid2 c)\<rparr>;
          c = c\<lparr>pid3 := pid_cal (- target_3 r) (s_of_int (speed_3 w)) (pid3 c)\<rparr>;
          c = c\<lparr>pid4 := pid_cal (- target_4 r) (s_of_int (speed_4 w)) (pid4 c)\<rparr>
      in r\<lparr>ctl := c\<rparr>)"

definition dir_pin :: "pin \<Rightarrow> f32 \<Rightarrow> act list" where
  "dir_pin d v = (if v < s_of_int 0 then [Pin d 0] else if v > s_of_int 0 then [Pin d 1] else [])"

definition drive_wheels :: "pids \<Rightarrow> act list option" where
  "drive_wheels c = do {
     a \<leftarrow> s_int (out (pid1 c)); b \<leftarrow> s_int (out (pid2 c)); e \<leftarrow> s_int (out (pid3 c)); f \<leftarrow> s_int (out (pid4 c));
     Some (dir_pin DIR_1 (out (pid1 c)) @ dir_pin DIR_2 (out (pid2 c)) @ dir_pin DIR_3 (out (pid3 c))
       @ dir_pin DIR_4 (out (pid4 c)) @ [Duty PWM_1 \<bar>a\<bar>, Duty PWM_2 \<bar>b\<bar>, Duty PWM_3 \<bar>e\<bar>, Duty PWM_4 \<bar>f\<bar>]
       @ (if \<bar>a\<bar> < 9900 \<and> \<bar>b\<bar> < 9900 \<and> \<bar>e\<bar> < 9900 \<and> \<bar>f\<bar> < 9900 then [Feed_dog] else []))
   }"

definition motorControl_timer1 :: "mlib \<Rightarrow> (nat \<Rightarrow> int) \<Rightarrow> robot \<Rightarrow> (robot \<times> (nat \<Rightarrow> int)) option" where
  "motorControl_timer1 m quad r = do {
     let (w, quad) = encoder_get quad;
     r \<leftarrow> run_mode m (read_speeds w r);
     let r = run_pids (set_targets r);
     as \<leftarrow> drive_wheels (ctl r);
     Some (emit as r, quad)
   }"

section \<open>The arm task\<close>

text \<open>
  A turn of the loop of \<open>servo_ctrl\<close> as a small program, so that the timers can run between
  its steps: \<open>Step\<close> does something to the globals, \<open>Test\<close> branches on them.
\<close>

datatype prog = Halt | Step "robot \<Rightarrow> robot" prog | Test "robot \<Rightarrow> bool" prog prog

definition arm :: "(int \<Rightarrow> act list \<times> int) \<Rightarrow> robot \<Rightarrow> robot" where
  "arm f r = (let (as, l) = f (pwm_lst r) in emit as (r\<lparr>pwm_lst := l\<rparr>))"

definition flags :: "(status \<Rightarrow> status) \<Rightarrow> robot \<Rightarrow> robot" where
  "flags f r = r\<lparr>car := f (car r)\<rparr>"

definition pick_job :: "(int \<Rightarrow> act list \<times> int) \<Rightarrow> prog \<Rightarrow> prog" where
  "pick_job put k =
     Step (arm servo_get) (Step (flags (pick_flag_update (\<lambda>_. 1))) (Step (arm servo_reset) (Step (emit [Delay 250])
       (Step (arm put)
         (Test (\<lambda>r. target_cnt r < pic_cnt r)
           (Step (arm servo_reset) (Step (flags (put_flag_update (\<lambda>_. 1))) k))
           (Step (emit [Delay 15])
             (Test (\<lambda>r. drop_tail_flag (car r) \<noteq> 0)
               (Step (arm (servo_rote_ctrl DROP_TAIL)) (Step (flags (drop_tail_flag_update (\<lambda>_. 0)))
                 (Step (flags (put_flag_update (\<lambda>_. 1))) k)))
               (Step (flags (put_flag_update (\<lambda>_. 1))) k))))))))"

definition servo_job :: "int \<Rightarrow> prog \<Rightarrow> prog" where
  "servo_job flag k =
     (if flag = 0 then Step (arm servo_reset) k
      else if flag = 1 then pick_job servo_put_left k
      else if flag = 2 then pick_job servo_put_tail k
      else if flag = 3 then pick_job servo_put_right k
      else if flag = 4 then Step (arm servo_drop_right) (Step (flags (drop_flag_update (\<lambda>_. 1)))
        (Step (arm (servo_rote_ctrl DROP_LEFT)) k))
      else if flag = 5 then Step (arm servo_drop_tail) (Step (flags (drop_flag_update (\<lambda>_. 1)))
        (Step (arm (servo_rote_ctrl DROP_RIGHT)) k))
      else if flag = 6 then Step (arm servo_drop_left) (Step (flags (drop_flag_update (\<lambda>_. 1))) k)
      else k)"

definition servo_ctrl :: "robot \<Rightarrow> prog" where
  "servo_ctrl r =
     (if servo_flag_ctrl (car r) \<noteq> 0
      then servo_job (servo_flag (car r)) (Step (flags (servo_flag_ctrl_update (\<lambda>_. 0))) (Step (emit [Delay 5]) Halt))
      else Step (emit [Delay 5]) Halt)"

section \<open>The message of a recognised card\<close>

definition digit :: "int \<Rightarrow> int" where
  "digit v = u8 (v + 48)"

text \<open>\<open>ms\<close> is the tick count; the first digit is computed in floating point.\<close>

definition hundreds :: "f32 \<Rightarrow> int option" where
  "hundreds t = do { c \<leftarrow> s_int (t / s_of_int 100 + s_of_int 48); if 0 \<le> c \<and> c < 256 then Some c else None }"

definition card_message :: "int \<Rightarrow> robot \<Rightarrow> int list option" where
  "card_message ms r = do {
     let time = s_of_int (ms div 1000);
     let l = lstttt (route r);
     h \<leftarrow> hundreds time;
     t \<leftarrow> s_int time;
     p \<leftarrow> rd 25 (spots r) l;
     c \<leftarrow> rd NP (card_class (route r)) l;
     Some [h, digit (cdiv (crem t 100) 10), digit (crem t 10), 46, 48, 48, 48,
           32, digit (cdiv (fst p) 10), digit (crem (fst p) 10),
           32, digit (cdiv (snd p) 10), digit (crem (snd p) 10),
           32, u8 (cdiv (c - 1) 5 + 1 + 48), 32, u8 (crem (c - 1) 5 + 1 + 48), 10]
   }"

definition uart_trans :: "int \<Rightarrow> robot \<Rightarrow> robot option" where
  "uart_trans ms r = do {
     let s = lg (route r);
     a \<leftarrow> rd_xy (path_x s) (target_cnt r) (index_tar r);
     t \<leftarrow> rd 60 (path_tot s) (tar_cnt r);
     b \<leftarrow> rd_xy (path_x s) (tar_cnt r) t;
     x \<leftarrow> get_x (route r) (lsttt (route r));
     y \<leftarrow> get_y (route r) (lsttt (route r));
     msg \<leftarrow> card_message ms r;
     Some (emit ((if send (car r) \<noteq> 0 then [Tx_1 msg] else []) @ [Delay 100]) r)
   }"

end
