(* ===== verification/Chassis_Safe.thy ===== *)
theory Chassis_Safe
  imports Chassis
begin

text \<open>
  The control timer never runs into undefined behaviour and never gives a wheel a duty outside
  its range. The trigonometric functions are assumed to be finite and bounded on finite
  arguments (\<open>mlib_ok\<close>); everything else is an invariant of the globals (\<open>robot_ok\<close>), which
  every mode keeps. The positions are sums that the code never limits: as for the speed
  controllers, the rounding of \<open>float\<close> limits them.
\<close>

definition mlib_ok :: "mlib \<Rightarrow> bool" where
  "mlib_ok m \<longleftrightarrow>
     (\<forall>q. \<exists>c. msin m (F32 (Fin q)) = F32 (Fin c) \<and> \<bar>c\<bar> \<le> 1)
   \<and> (\<forall>q. \<exists>c. mcos m (F32 (Fin q)) = F32 (Fin c) \<and> \<bar>c\<bar> \<le> 1)
   \<and> (\<forall>v. v \<noteq> NaN \<longrightarrow> (\<exists>a. matan m (F64 v) = F64 (Fin a) \<and> \<bar>a\<bar> \<le> 2))"

definition int16_wheels :: "wheels \<Rightarrow> bool" where
  "int16_wheels w \<longleftrightarrow> \<bar>speed_1 w\<bar> \<le> 2 ^ 15 \<and> \<bar>speed_2 w\<bar> \<le> 2 ^ 15 \<and> \<bar>speed_3 w\<bar> \<le> 2 ^ 15 \<and> \<bar>speed_4 w\<bar> \<le> 2 ^ 15"

definition robot_ok :: "robot \<Rightarrow> bool" where
  "robot_ok r \<longleftrightarrow>
     btw 0 360 (theta (heading r)) \<and> int16_wheels (whl r)
   \<and> pid_ok (pid1 (ctl r)) \<and> pid_ok (pid2 (ctl r)) \<and> pid_ok (pid3 (ctl r)) \<and> pid_ok (pid4 (ctl r)) \<and> pid_ok (pid_yaw (ctl r))
   \<and> mag32 12 (cmd_x r) \<and> mag32 12 (cmd_y r) \<and> mag32 9 (cmd_z r)
   \<and> mag32 17 (speed_x r) \<and> mag32 17 (speed_y r)
   \<and> mag32 44 (x_position r) \<and> mag32 44 (y_position r) \<and> mag32 44 (x_pos1 r) \<and> mag32 44 (y_pos1 r)
   \<and> btw (- 64) 64 (last_x r) \<and> btw (- 64) 64 (last_y r)
   \<and> \<bar>fst (pic_ij r)\<bar> \<le> 1000 \<and> \<bar>snd (pic_ij r)\<bar> \<le> 1000
   \<and> motion (car r) \<noteq> 6
   \<and> 0 \<le> target_cnt r \<and> target_cnt r < 63 \<and> 0 \<le> index_cur r \<and> index_cur r < NUM
   \<and> 0 \<le> tar_cnt r \<and> tar_cnt r < 60 \<and> 0 \<le> path_tot (lg (route r)) (tar_cnt r) \<and> path_tot (lg (route r)) (tar_cnt r) < NUM
   \<and> 0 \<le> lsttt (route r) \<and> lsttt (route r) < NP
   \<and> \<bar>px_std (route r) (lsttt (route r))\<bar> \<le> 2 ^ 20 \<and> \<bar>py_std (route r) (lsttt (route r))\<bar> \<le> 2 ^ 20"

section \<open>Magnitudes\<close>

lemma mag64_diff: "mag64 k x \<Longrightarrow> mag64 k y \<Longrightarrow> k < 99 \<Longrightarrow> mag64 (k + 1) (x - y)"
proof -
  assume "mag64 k x" "mag64 k y" "k < 99"
  then obtain a b where ab: "x = F64 (Fin a)" "\<bar>a\<bar> \<le> 2 ^ k" "y = F64 (Fin b)" "\<bar>b\<bar> \<le> 2 ^ k"
    by (auto simp: mag64_def)
  have "\<bar>a - b\<bar> \<le> 2 ^ (k + 1)" using ab(2,4) by simp
  then obtain z where "fround binary64 (a - b) = Fin z" "\<bar>z\<bar> \<le> 2 ^ (k + 1)"
    by (rule fround64_pow) (use \<open>k < 99\<close> in simp)
  then show ?thesis using ab by (auto simp: mag64_def F64_arith)
qed

lemma mag64_div:
  assumes "mag64 k x" and "1 \<le> c" and "k < 100"
  shows "mag64 k (x / F64 (Fin c))"
proof -
  obtain a where a: "x = F64 (Fin a)" "\<bar>a\<bar> \<le> 2 ^ k" using assms(1) by (auto simp: mag64_def)
  have "\<bar>a / c\<bar> \<le> \<bar>a\<bar>" using assms(2) mult_left_mono[of 1 c "\<bar>a\<bar>"] by (simp add: abs_div_pos[symmetric] field_simps)
  then have "\<bar>a / c\<bar> \<le> 2 ^ k" using a(2) by linarith
  then obtain z where "fround binary64 (a / c) = Fin z" "\<bar>z\<bar> \<le> 2 ^ k" by (rule fround64_pow[OF _ assms(3)])
  then show ?thesis using a(1) assms(2) by (simp add: mag64_def F64_arith)
qed

lemma mag64_lit:
  assumes "\<bar>q\<bar> \<le> 2 ^ k" and "k < 100"
  shows "mag64 k (lit q)"
  using fround64_pow[OF assms] by (auto simp: mag64_def lit_def)

text \<open>Literals that are divided by are at least 1.\<close>

lemma lit_ge1:
  assumes "1 \<le> q" and "q \<le> 2 ^ 10"
  obtains c where "lit q = F64 (Fin c)" "1 \<le> c"
  using fround64_between[of 1 q 1024] assms by (auto simp: lit_def)

lemma mag64_div_lit: "mag64 k x \<Longrightarrow> 1 \<le> q \<Longrightarrow> q \<le> 2 ^ 10 \<Longrightarrow> k < 100 \<Longrightarrow> mag64 k (x / lit q)"
  using mag64_div lit_ge1 by metis

lemma mag32_btw: "mag32 k x \<longleftrightarrow> btw (- (2 ^ k)) (2 ^ k) x"
  by (auto simp: mag32_def btw_def abs_le_iff)

lemma btw_weak: "btw a b x \<Longrightarrow> c \<le> a \<Longrightarrow> b \<le> d \<Longrightarrow> btw c d x"
  unfolding btw_def by (metis of_int_le_iff order_trans)

lemma btw_mag: "btw a b x \<Longrightarrow> - (2 ^ k) \<le> a \<Longrightarrow> b \<le> 2 ^ k \<Longrightarrow> mag32 k x"
  unfolding mag32_btw by (rule btw_weak)

lemma mag32_minus: "mag32 k x \<Longrightarrow> mag32 k (- x)"
  by (auto simp: mag32_def f32_defs)

lemma mag32_fin: "mag32 k x \<Longrightarrow> \<exists>q. x = F32 (Fin q)"
  by (auto simp: mag32_def)

section \<open>Positions\<close>

text \<open>A step below \<open>2 ^ 18\<close> does not move a position of \<open>2 ^ 44\<close>.\<close>

lemma absorb44: "fround binary32 (2 ^ 44 + 2 ^ 18) = Fin (2 ^ 44)"
proof -
  have l: "ilog2 (2 ^ 44 + 2 ^ 18) = 44" by (rule ilog2_unique) (simp_all add: power_int_def)
  have a: "\<bar>2 ^ 44 + 2 ^ 18\<bar> = (2 ^ 44 + 2 ^ 18 :: rat)" by simp
  have "qexp binary32 (2 ^ 44 + 2 ^ 18) = 21" unfolding qexp_def a l by (simp add: binary32_def)
  then have "rnd_fin binary32 (2 ^ 44 + 2 ^ 18) = of_int (rne ((2 ^ 44 + 2 ^ 18) / 2 powi 21)) * 2 powi 21"
    by (simp add: rnd_fin_def)
  moreover have "rne ((2 ^ 44 + 2 ^ 18) / 2 powi 21) = 2 ^ 23"
  proof -
    have "\<lfloor>(67108865 / 8 :: rat)\<rfloor> = 8388608" by (simp add: floor_eq_iff)
    then show ?thesis by (simp add: rne_def power_int_def Let_def)
  qed
  ultimately have r: "rnd_fin binary32 (2 ^ 44 + 2 ^ 18) = 2 ^ 44" by (simp add: power_int_def)
  show ?thesis by (simp only: fround_Fin r) (simp add: binary32_def power_int_def)
qed

lemma add_d_mag:
  assumes "mag32 44 p" and "mag64 18 d"
  shows "mag32 44 (add_d p d)"
proof -
  let ?M = "2 ^ 44 + 2 ^ 18 :: rat"
  obtain a where a: "p = F32 (Fin a)" "\<bar>a\<bar> \<le> 2 ^ 44" using assms(1) by (auto simp: mag32_def)
  obtain b where b: "d = F64 (Fin b)" "\<bar>b\<bar> \<le> 2 ^ 18" using assms(2) by (auto simp: mag64_def)
  have "of_int (- (2 ^ 44 + 2 ^ 18)) \<le> a + b" "a + b \<le> of_int (2 ^ 44 + 2 ^ 18)"
    using a(2) b(2) unfolding abs_le_iff by simp_all
  then obtain u where u: "fround binary64 (a + b) = Fin u" "of_int (- (2 ^ 44 + 2 ^ 18)) \<le> u" "u \<le> of_int (2 ^ 44 + 2 ^ 18)"
    by (rule fround64_between) simp_all
  have lo: "- ?M \<le> u" and hi: "u \<le> ?M" using u(2,3) by simp_all
  have "fle (fround binary32 u) (Fin (2 ^ 44))" using b32.rnd_mono[OF hi] by (simp only: absorb44)
  moreover have "fle (Fin (- (2 ^ 44))) (fround binary32 u)"
    using b32.rnd_mono[OF lo] by (simp only: b32.rnd_neg absorb44 fneg_simps)
  ultimately obtain y where "fround binary32 u = Fin y" "y \<le> 2 ^ 44" "- (2 ^ 44) \<le> y"
    by (cases "fround binary32 u") simp_all
  then show ?thesis using a b u by (auto simp: mag32_def add_d_def F64_arith abs_le_iff)
qed

text \<open>A function that is bounded by 1 on finite arguments.\<close>

definition unit_fun :: "(f32 \<Rightarrow> f32) \<Rightarrow> bool" where
  "unit_fun f \<longleftrightarrow> (\<forall>q. \<exists>c. f (F32 (Fin q)) = F32 (Fin c) \<and> \<bar>c\<bar> \<le> 1)"

lemma mlib_unit: "mlib_ok m \<Longrightarrow> unit_fun (msin m) \<and> unit_fun (mcos m)"
  by (simp add: mlib_ok_def unit_fun_def)

lemma unit_fun_mag: "unit_fun f \<Longrightarrow> mag32 k v \<Longrightarrow> mag32 0 (f v)"
  unfolding unit_fun_def mag32_def by (metis power_0)

lemma moved_by_mag:
  assumes "unit_fun f" and "robot_ok r"
  shows "mag64 18 (moved_by f r)"
proof -
  have t: "mag32 9 (theta (heading r))" using assms(2) by (intro btw_mag[of 0 360]) (simp_all add: robot_ok_def)
  have "mag64 (9 + 2) (to_d (theta (heading r)) * lit 3.1416)" by (rule mag64_mult[OF mag_to(1)[OF t] mag64_lit]) simp_all
  then have y: "mag32 11 (yaw_rad r)" unfolding yaw_rad_def by (intro mag_to(2) mag64_div_lit) simp_all
  have "mag64 (11 + 1) (to_d (yaw_rad r) + lit 1.5708)"
    by (rule mag64_add[OF mag_to(1)[OF y] mag64_mono[OF mag64_lit[of _ 1]]]) simp_all
  then have z: "mag32 12 (to_s (to_d (yaw_rad r) + lit 1.5708))" using mag_to(2) by simp
  have s: "mag32 17 (speed_x r)" "mag32 17 (speed_y r)" using assms(2) by (simp_all add: robot_ok_def)
  have "mag32 (17 + 1) (speed_x r * f (yaw_rad r) + speed_y r * f (to_s (to_d (yaw_rad r) + lit 1.5708)))"
    using mag32_mult[OF s(1) unit_fun_mag[OF assms(1) y]] mag32_mult[OF s(2) unit_fun_mag[OF assms(1) z]]
    by (intro mag32_add) simp_all
  note mag64_mult[OF mag_to(1)[OF this] mag64_lit[of "0.01" 0]]
  then show ?thesis unfolding moved_by_def by simp
qed

lemma odo_mag:
  assumes "mlib_ok m" and "robot_ok r" and "mag32 44 (fst p)" and "mag32 44 (snd p)"
  shows "mag32 44 (fst (odo m r p))" "mag32 44 (snd (odo m r p))"
  using assms mlib_unit moved_by_mag by (simp_all add: odo_def add_d_mag)

lemma odo_ok:
  assumes "mlib_ok m" and "robot_ok r"
  shows "robot_ok (odo_position m r)" "robot_ok (odo_pos1 m r)"
  using assms odo_mag[OF assms, of "(x_position r, y_position r)"] odo_mag[OF assms, of "(x_pos1 r, y_pos1 r)"]
  by (simp_all add: robot_ok_def odo_position_def odo_pos1_def Let_def)

section \<open>Directions and commands\<close>

lemma quotient_not_nan:
  assumes "\<not> feq (v32 (F32 (Fin b))) (Fin 0)"
  shows "v64 (to_d (F32 (Fin a) / F32 (Fin b))) \<noteq> NaN"
proof -
  have "b \<noteq> 0" using assms by (auto simp: feq_def)
  then show ?thesis using b32.not_nan by (simp add: F32_arith(4) to_d_def)
qed

lemma course_mag:
  assumes "mlib_ok m" and "mag32 j dx" and "mag32 k dy"
  shows "mag32 12 (course m dx dy)"
proof -
  obtain a b where ab: "dx = F32 (Fin a)" "dy = F32 (Fin b)" using assms(2,3) mag32_fin by metis
  have add: "mag32 (n + 1) (to_s (to_d y + lit q))" if "mag32 n y" "\<bar>q\<bar> \<le> 2 ^ 9" "9 \<le> n" "n < 20" for n y q
    using mag64_add[OF mag_to(1)[OF that(1)] mag64_mono[OF mag64_lit[OF that(2)] that(3)]] that(4) mag_to(2) by simp
  define y0 where "y0 = to_s (if feq (v32 dy) (Fin 0) then (if dx > s_of_int 0 then d_of_int 90 else d_of_int 270)
      else matan m (to_d (dx / dy)) * lit 180 / lit 3.14159)"
  have y0: "mag32 9 y0"
  proof (cases "feq (v32 dy) (Fin 0)")
    case True
    then show ?thesis by (auto simp: y0_def fround_int32[of 90, simplified] fround_int32[of 270, simplified] mag32_def)
  next
    case False
    then have "v64 (to_d (dx / dy)) \<noteq> NaN" unfolding ab by (rule quotient_not_nan)
    then obtain c where "matan m (to_d (dx / dy)) = F64 (Fin c)" "\<bar>c\<bar> \<le> 2"
      using assms(1) unfolding mlib_ok_def by (metis f64.collapse)
    then have t: "mag64 1 (matan m (to_d (dx / dy)))" by (simp add: mag64_def)
    have "mag64 (1 + 8) (matan m (to_d (dx / dy)) * lit 180)" by (rule mag64_mult[OF t mag64_lit]) simp_all
    then have "mag64 9 (matan m (to_d (dx / dy)) * lit 180 / lit 3.14159)" by (intro mag64_div_lit) simp_all
    then show ?thesis using False mag_to(2) by (simp add: y0_def)
  qed
  define y1 where "y1 = (if dx < s_of_int 0 \<and> dy > s_of_int 0 then to_s (to_d y0 + lit 360) else y0)"
  define y2 where "y2 = (if dx > s_of_int 0 \<and> dy < s_of_int 0 then to_s (to_d y1 + lit 180) else y1)"
  have y1: "mag32 10 y1" using add[OF y0, of 360] mag32_mono[OF y0] by (simp add: y1_def)
  have y2: "mag32 11 y2" using add[OF y1, of 180] mag32_mono[OF y1] by (simp add: y2_def)
  have "course m dx dy = (if dx \<le> s_of_int 0 \<and> dy < s_of_int 0 then to_s (to_d y2 + lit 180) else y2)"
    by (simp only: course_def y0_def y1_def y2_def Let_def)
  then show ?thesis using add[OF y2, of 180] mag32_mono[OF y2] by simp
qed

lemma along_range:
  assumes "unit_fun f" and "mag32 14 a" and "0 \<le> n" and "n < 1000"
  shows "btw (- n) n (along f (s_of_int n) a)"
proof -
  have d: "mag64 14 (to_d a / lit 180)" using mag_to(1)[OF assms(2)] by (intro mag64_div_lit) simp_all
  have "mag64 (14 + 2) (to_d a / lit 180 * lit 3.14159)" by (rule mag64_mult[OF d mag64_lit]) simp_all
  from mag_to(2)[OF this] have "mag32 16 (to_s (to_d a / lit 180 * lit 3.14159))" by simp
  then have "mag32 0 (f (to_s (to_d a / lit 180 * lit 3.14159)))" by (rule unit_fun_mag[OF assms(1)])
  then obtain c where c: "f (to_s (to_d a / lit 180 * lit 3.14159)) = F32 (Fin c)" "\<bar>c\<bar> \<le> 1" by (auto simp: mag32_def)
  have "\<bar>of_int n * c\<bar> \<le> of_int n * 1" unfolding abs_mult using c(2) assms(3) by (intro mult_mono) simp_all
  then have "btw (- n) n (F32 (fround binary32 (of_int n * c)))"
    by (intro btw_round) (use assms(3,4) in \<open>auto simp: abs_le_iff\<close>)
  then show ?thesis using c(1) assms(3,4) by (simp add: along_def F32_arith)
qed

lemma smooth_to_range:
  assumes "btw (- 64) 64 l" and "btw (- 60) 60 v"
  shows "btw (- 64) 64 (smooth_to l v)"
proof -
  obtain c where c: "lit 0.6 = F64 (Fin c)" "\<bar>c - 0.6\<bar> \<le> 1 / 1000000" by (rule lit_near[of "0.6"]) simp_all
  obtain e where e: "lit 0.4 = F64 (Fin e)" "\<bar>e - 0.4\<bar> \<le> 1 / 1000000" by (rule lit_near[of "0.4"]) simp_all
  have cb: "\<bar>c\<bar> \<le> 601 / 1000" "\<bar>e\<bar> \<le> 401 / 1000" using c(2) e(2) unfolding abs_le_iff by simp_all
  obtain a where a: "l = F32 (Fin a)" "\<bar>a\<bar> \<le> 64" using assms(1) by (auto simp: btw_def abs_le_iff)
  obtain b where b: "v = F32 (Fin b)" "\<bar>b\<bar> \<le> 60" using assms(2) by (auto simp: btw_def abs_le_iff)
  have ac: "\<bar>a * c\<bar> \<le> 64 * (601 / 1000)" and be: "\<bar>b * e\<bar> \<le> 60 * (401 / 1000)"
    unfolding abs_mult using a b cb by (intro mult_mono; simp)+
  obtain u where u: "fround binary64 (a * c) = Fin u" "of_int (- 39) \<le> u" "u \<le> of_int 39"
    by (rule fround64_between[of "- 39" "a * c" 39]) (use ac in \<open>simp_all add: abs_le_iff\<close>)
  obtain w where w: "fround binary64 (b * e) = Fin w" "of_int (- 25) \<le> w" "w \<le> of_int 25"
    by (rule fround64_between[of "- 25" "b * e" 25]) (use be in \<open>simp_all add: abs_le_iff\<close>)
  have "btw (- 64) 64 (to_s (F64 (fround binary64 (u + w))))" by (rule btw_round) (use u w in auto)
  then show ?thesis unfolding smooth_to_def a(1) b(1) to_Fin c(1) e(1) F64_arith u(1) w(1) .
qed

lemma scaled_mag: "btw a b v \<Longrightarrow> - 64 \<le> a \<Longrightarrow> b \<le> 64 \<Longrightarrow> 1 \<le> q \<Longrightarrow> q \<le> 2 ^ 10 \<Longrightarrow> mag32 12 (to_s (to_d v / lit q))"
  using mag_to(2)[OF mag64_div_lit[OF mag_to(1)[OF btw_mag[of a b v 6]]], of q] mag32_mono[of 6 _ 12] by simp

lemma hold_mag:
  assumes "robot_ok r"
  shows "mag32 9 (hold_heading r)"
proof -
  obtain q where q: "theta (heading r) = F32 (Fin q)" "0 \<le> q" "q \<le> 360" using assms by (auto simp: robot_ok_def btw_def)
  obtain x where x: "fround binary32 (- q) = Fin x" "- 360 \<le> x" "x \<le> 0"
    using fround32_between[of "- 360" "- q" 0] q(2,3) by auto
  define p where "p = - x"
  have p: "fround binary32 (- q) = Fin (- p)" "0 \<le> p" "p \<le> 360" using x by (simp_all add: p_def)
  have pp: "fround binary32 p = Fin p" using b32.rnd_idem[OF p(1)] b32.rnd_neg[of "- p"] by simp
  obtain v where v: "to_s (d_of_int 360 - F64 (Fin p)) = F32 (Fin v)" "0 \<le> v" "v \<le> 360"
    by (rule other_way[OF p(2,3)]) blast
  define a where "a = (if p < v then p else v)"
  have A: "(if F32 (Fin p) < F32 (Fin v) then F32 (Fin p) else F32 (Fin v)) = F32 (Fin a)" by (simp add: a_def)
  have z: "s_of_int 0 - theta (heading r) = F32 (Fin (- p))" using p(1) by (simp add: q(1) F32_arith)
  have ab: "d_abs (to_d (s_of_int 0 - theta (heading r))) = F64 (Fin p)" using p(2) unfolding z by (simp add: d_abs_def fabs_def)
  have m: "- lit 1 * F64 (Fin a) = F64 (fround binary64 (- a))" by (simp add: minus_lit1 F64_arith)
  have aR: "0 \<le> a" "a \<le> 360" using p v by (simp_all add: a_def)
  have "btw (- 360) 360 (to_s (- lit 1 * F64 (Fin a)))" unfolding m by (rule btw_round) (use aR in auto)
  moreover have "btw (- 360) 360 (F32 (Fin a))" using aR by (auto simp: btw_def)
  moreover have "hold_heading r = F32 (Fin a) \<or> hold_heading r = to_s (- lit 1 * F64 (Fin a))"
    unfolding hold_heading_def get_Theta_def Let_def ab v(1) to_Fin(2) pp A to_Fin(1) by (metis (full_types))
  ultimately have "btw (- 360) 360 (hold_heading r)" by auto
  then show ?thesis by (rule btw_mag) simp_all
qed

section \<open>Every mode keeps the invariant\<close>

text \<open>What a mode does to the hardware never concerns a wheel or the watchdog.\<close>

definition quiet :: "robot \<Rightarrow> robot \<Rightarrow> bool" where
  "quiet r r' \<longleftrightarrow> (\<exists>as. acts r' = acts r @ as \<and> (\<forall>ch \<in> {PWM_1, PWM_2, PWM_3, PWM_4}. duties ch as = []) \<and> Feed_dog \<notin> set as)"

definition mode_ok :: "robot \<Rightarrow> robot option \<Rightarrow> bool" where
  "mode_ok r res \<longleftrightarrow> (\<exists>r'. res = Some r' \<and> robot_ok r' \<and> quiet r r')"

lemma quiet_same: "acts r' = acts r \<Longrightarrow> quiet r r'"
  by (simp add: quiet_def)

lemma mag32_const: "mag32 k 0" "\<bar>n\<bar> \<le> 256 \<Longrightarrow> mag32 12 (s_of_int n)"
  using mag32_mono[OF mag_of_int(1)[of n 8], of 12] by (simp_all add: one_F64 mag32_def)

lemma hold_heading_same: "heading r' = heading r \<Longrightarrow> hold_heading r' = hold_heading r"
  by (simp add: hold_heading_def)

lemma drive_ok:
  assumes "robot_ok r" and "mag32 12 a" and "mag32 12 b" and "mag32 9 c"
  shows "robot_ok (drive a b c r)"
  using assms by (simp add: robot_ok_def drive_def)

lemma stop_ok: "robot_ok r \<Longrightarrow> robot_ok (stop r)"
  by (simp add: drive_ok mag32_const)

lemma set_motion_ok: "robot_ok r \<Longrightarrow> k \<noteq> 6 \<Longrightarrow> robot_ok (set_motion k r)"
  by (simp add: robot_ok_def set_motion_def)

lemma emit_ok [simp]: "robot_ok (emit as r) = robot_ok r"
  by (simp add: robot_ok_def emit_def)

lemma acts_simps [simp]:
  "acts (drive a b c r) = acts r" "acts (set_motion k r) = acts r" "acts (emit as r) = acts r @ as"
  "acts (odo_position m r) = acts r" "acts (odo_pos1 m r) = acts r"
  by (simp_all add: drive_def set_motion_def emit_def odo_position_def odo_pos1_def Let_def)

lemma mag32_far: "mag32 12 v \<Longrightarrow> mag32 44 p \<Longrightarrow> mag32 45 (v - p)"
  using mag32_diff[of 44 v p] mag32_mono[of 12 v 44] by simp

lemma steer_to_ok:
  assumes m: "mlib_ok m" and r: "robot_ok r" and v: "target_v r = s_of_int 60" and y: "mag32 12 yaw"
  shows "robot_ok (steer_to m yaw r)" "acts (steer_to m yaw r) = acts r"
proof -
  let ?p = "pid_cal yaw (s_of_int 0) (pid_yaw (ctl r))"
  have "mag32 16 (s_of_int 0)" by (simp add: mag32_def)
  then have p: "pid_ok ?p" "pwm_range (out ?p)"
    using pid_cal_ok[of "pid_yaw (ctl r)" yaw "s_of_int 0"] r mag32_mono[OF y, of 16] by (simp_all add: robot_ok_def)
  have o: "mag32 14 (out ?p)" using p(2) by (auto simp: pwm_range_def mag32_def intro: order_trans)
  have a: "btw (- 60) 60 (along (mcos m) (s_of_int 60) (out ?p))" "btw (- 60) 60 (along (msin m) (s_of_int 60) (out ?p))"
    using along_range[of "mcos m", OF _ o, of 60] along_range[of "msin m", OF _ o, of 60] mlib_unit[OF m] by simp_all
  have l: "btw (- 64) 64 (smooth_to (last_x r) (along (mcos m) (s_of_int 60) (out ?p)))"
    "btw (- 64) 64 (smooth_to (last_y r) (along (msin m) (s_of_int 60) (out ?p)))"
    using r a by (auto intro!: smooth_to_range simp: robot_ok_def)
  let ?r = "r\<lparr>ctl := (ctl r)\<lparr>pid_yaw := ?p\<rparr>, last_x := smooth_to (last_x r) (along (mcos m) (s_of_int 60) (out ?p)),
      last_y := smooth_to (last_y r) (along (msin m) (s_of_int 60) (out ?p))\<rparr>"
  have ok: "robot_ok ?r" using r p l by (simp add: robot_ok_def)
  have "steer_to m yaw r = drive (to_s (to_d (last_x ?r) / lit 1.688)) (to_s (to_d (last_y ?r) / lit 1.6)) (hold_heading ?r) ?r"
    unfolding steer_to_def Let_def by (simp add: v)
  moreover have "robot_ok (drive (to_s (to_d (last_x ?r) / lit 1.688)) (to_s (to_d (last_y ?r) / lit 1.6)) (hold_heading ?r) ?r)"
    by (rule drive_ok[OF ok scaled_mag[of "- 64" 64] scaled_mag[of "- 64" 64] hold_mag[OF ok]]) (use l in simp_all)
  ultimately show "robot_ok (steer_to m yaw r)" by simp
  show "acts (steer_to m yaw r) = acts r" by (simp add: steer_to_def Let_def)
qed

lemma go_point_ok:
  assumes m: "mlib_ok m" and r: "robot_ok r" and xy: "mag32 12 x1" "mag32 12 y1"
  shows "\<exists>b r'. go_point m x0 y0 x1 y1 r = Some (b, r') \<and> robot_ok r' \<and> acts r' = acts r"
proof -
  let ?r = "r\<lparr>to_go := calc_dist (x_position r) x1 (y_position r) y1, target_v := s_of_int 60\<rparr>"
  have "mag32 45 (x1 - x_position r)" "mag32 45 (y1 - y_position r)"
    using r xy mag32_far by (simp_all add: robot_ok_def)
  then have c: "mag32 12 (course m (x1 - x_position ?r) (y1 - y_position ?r))" using course_mag[OF m] by simp
  have ok: "robot_ok ?r" using r by (simp add: robot_ok_def)
  have v: "target_v ?r = s_of_int 60" by simp
  note s = steer_to_ok[OF m ok v c]
  show ?thesis using r s unfolding go_point_def rd_xy_def robot_ok_def Let_def by (simp add: c_simps NUM_def)
qed

lemma motionControl_ok: "mlib_ok m \<Longrightarrow> robot_ok r \<Longrightarrow> mode_ok r (motionControl m r)"
proof -
  assume m: "mlib_ok m" and r: "robot_ok r"
  note o = odo_ok(1)[OF m r]
  have "mag32 12 (s_of_int 200)" "mag32 12 (s_of_int 0)" by (rule mag32_const; simp)+
  from go_point_ok[OF m o this, of "s_of_int 0" "s_of_int 0"] obtain b r' where
    g: "go_point m (s_of_int 0) (s_of_int 0) (s_of_int 200) (s_of_int 0) (odo_position m r) = Some (b, r')" "robot_ok r'" "acts r' = acts r"
    by auto
  have "motionControl m r = Some (if b then set_motion 4 r' else r')"
    using o g(1) unfolding motionControl_def rd_xy_def Let_def by (simp add: c_simps robot_ok_def)
  then show ?thesis using g set_motion_ok[OF g(2), of 4] by (simp add: mode_ok_def quiet_same)
qed

lemma pic_offset_mag: "\<bar>q\<bar> \<le> 1 \<Longrightarrow> \<bar>d\<bar> \<le> 2000 \<Longrightarrow> mag64 11 b \<Longrightarrow> mag32 12 (pic_offset q d b)"
  using mag64_add[OF mag64_mult[OF mag_of_int(2)[of d 11] mag64_lit[of q 0]], of b] mag_to(2)
  by (simp add: pic_offset_def)

lemma approach_ok:
  assumes m: "mlib_ok m" and r: "robot_ok r" and q: "mag32 12 qx" "mag32 12 qy"
  shows "robot_ok (approach m qx qy r)" "acts (approach m qx qy r) = acts r"
proof -
  let ?y = "course m (qx - x_pos1 r) (qy - y_pos1 r)"
  have "mag32 45 (qx - x_pos1 r)" "mag32 45 (qy - y_pos1 r)"
    using r q mag32_far by (simp_all add: robot_ok_def)
  then have "mag32 14 ?y" using course_mag[OF m] mag32_mono[of 12 _ 14] by simp
  then have "btw (- 30) 30 (along (mcos m) std_speed ?y)" "btw (- 30) 30 (along (msin m) std_speed ?y)"
    using along_range[of "mcos m" _ 30] along_range[of "msin m" _ 30] mlib_unit[OF m] unfolding std_speed_def by simp_all
  then have "mag32 12 (to_s (to_d (along (mcos m) std_speed ?y) / lit 1.688))" "mag32 12 (to_s (to_d (along (msin m) std_speed ?y) / lit 1.6))"
    using scaled_mag[of "- 30" 30 "along (mcos m) std_speed ?y" "1.688"] scaled_mag[of "- 30" 30 "along (msin m) std_speed ?y" "1.6"] by simp_all
  then show "robot_ok (approach m qx qy r)" using drive_ok[OF r] hold_mag[OF r] by (simp add: approach_def Let_def)
  show "acts (approach m qx qy r) = acts r" by (simp add: approach_def Let_def)
qed

lemma mag64_int: "\<bar>n\<bar> \<le> 2 ^ 20 \<Longrightarrow> mag32 44 (to_s (lit 1 * d_of_int n))"
proof -
  assume n: "\<bar>n\<bar> \<le> 2 ^ 20"
  have "mag64 (0 + 20) (lit 1 * d_of_int n)" by (rule mag64_mult[OF mag64_lit mag_of_int(2)[OF n]]) simp_all
  from mag_to(2)[OF this] show ?thesis using mag32_mono[of 20 _ 44] by simp
qed

lemma to_pic_ok:
  assumes m: "mlib_ok m" and r: "robot_ok r"
  shows "mode_ok r (to_pic m r)"
proof -
  let ?r = "odo_pos1 m r" and ?i = "fst (pic_ij r)" and ?j = "snd (pic_ij r)"
  let ?qx = "pic_offset 0.2585 (?i - 94) (d_of_int 1)" and ?qy = "pic_offset 0.254 (?j - 60) (lit 10)"
  note o = odo_ok(2)[OF m r]
  have ij: "\<bar>?i - 94\<bar> \<le> 2000" "\<bar>?j - 60\<bar> \<le> 2000" using r by (simp_all add: robot_ok_def abs_le_iff)
  have q: "mag32 12 ?qx" "mag32 12 ?qy"
    by (rule pic_offset_mag[OF _ ij(1) mag_of_int(2)] pic_offset_mag[OF _ ij(2) mag64_lit]; simp)+
  have same: "pic_ij ?r = pic_ij r" by (simp add: odo_pos1_def Let_def)
  show ?thesis
  proof (cases "calc_dist ?qx (x_pos1 ?r) ?qy (y_pos1 ?r) > s_of_int 1")
    case True
    then have "to_pic m r = Some (approach m ?qx ?qy ?r)" by (simp add: to_pic_def Let_def same)
    then show ?thesis using approach_ok[OF m o q] by (simp add: mode_ok_def quiet_same)
  next
    case False
    let ?l = "lsttt (route ?r)"
    let ?s = "emit [Tx_8 [51]] (stop (?r\<lparr>x_position := to_s (lit 1 * d_of_int (px_std (route ?r) ?l)),
        y_position := to_s (lit 1 * d_of_int (py_std (route ?r) ?l))\<rparr>))"
    have l: "0 \<le> ?l" "?l < NP" using o by (simp_all add: robot_ok_def)
    have "robot_ok (?r\<lparr>x_position := to_s (lit 1 * d_of_int (px_std (route ?r) ?l)), y_position := to_s (lit 1 * d_of_int (py_std (route ?r) ?l))\<rparr>)"
      using o by (simp add: robot_ok_def mag64_int del: d_of_int_small)
    then have "robot_ok ?s" by (simp add: stop_ok)
    then have "robot_ok (?s\<lparr>car := (car ?s)\<lparr>send_flag := 1, motion := 13\<rparr>\<rparr>)" by (simp add: robot_ok_def)
    moreover have "to_pic m r = Some (?s\<lparr>car := (car ?s)\<lparr>send_flag := 1, motion := 13\<rparr>\<rparr>)"
      using False l unfolding to_pic_def Let_def same by (simp add: c_simps)
    moreover have "quiet r (?s\<lparr>car := (car ?s)\<lparr>send_flag := 1, motion := 13\<rparr>\<rparr>)" by (simp add: quiet_def)
    ultimately show ?thesis unfolding mode_ok_def by blast
  qed
qed

lemma go_ok:
  assumes m: "mlib_ok m" and r: "robot_ok r" and n: "\<bar>n\<bar> \<le> 256"
  shows "robot_ok (odo_position m (drive (s_of_int n) (s_of_int 0) (hold_heading r) r))"
  by (intro odo_ok(1)[OF m] drive_ok[OF r] hold_mag[OF r] mag32_const(2)) (use n in simp_all)

lemma sideways_ok: "robot_ok r \<Longrightarrow> robot_ok (sideways r)"
  unfolding sideways_def by (rule drive_ok) (auto intro: mag32_const hold_mag simp del: s_of_int_small)

lemma mode_simple:
  "robot_ok r' \<Longrightarrow> acts r' = acts r \<Longrightarrow> mode_ok r (Some r')"
  by (simp add: mode_ok_def quiet_same)

lemma pic_mag_ok: "robot_ok r \<Longrightarrow> mode_ok r (Some (pic_mag r))"
proof -
  assume r: "robot_ok r"
  have "robot_ok (pic_mag r)"
    using stop_ok[of "r\<lparr>car := (car r)\<lparr>send := 1\<rparr>\<rparr>"] r by (simp add: pic_mag_def robot_ok_def emit_def drive_def Let_def)
  moreover have "quiet r (pic_mag r)" by (simp add: pic_mag_def quiet_def Let_def)
  ultimately show ?thesis by (simp add: mode_ok_def)
qed

lemma drop_it_ok: "robot_ok r \<Longrightarrow> mode_ok r (Some (drop_it r))"
proof -
  assume r: "robot_ok r"
  have "robot_ok (set_motion 1 (emit [Pin C5 0, Duty SERVO_GET 6400] (stop r)))" using r by (intro set_motion_ok) (simp_all add: stop_ok)
  then have "robot_ok (drop_it r)" by (simp add: drop_it_def robot_ok_def Let_def)
  moreover have "quiet r (drop_it r)" by (simp add: drop_it_def quiet_def Let_def)
  ultimately show ?thesis by (simp add: mode_ok_def)
qed

lemma go_out_ok: "mlib_ok m \<Longrightarrow> robot_ok r \<Longrightarrow> mode_ok r (Some (go_out m r))"
  using go_ok[of m r 60] by (intro mode_simple) (simp_all add: go_out_def Let_def set_motion_ok stop_ok del: s_of_int_small)

lemma go_in_ok: "mlib_ok m \<Longrightarrow> robot_ok r \<Longrightarrow> mode_ok r (Some (go_in m r))"
  using go_ok[of m r "- 60"] by (intro mode_simple) (simp_all add: go_in_def Let_def set_motion_ok stop_ok del: s_of_int_small)

lemma protect_back_ok: "robot_ok r \<Longrightarrow> mode_ok r (Some (protect_back m r))"
proof (rule mode_simple)
  assume r: "robot_ok r"
  have std: "mag32 12 std_speed" "mag32 12 (- std_speed)" "mag32 12 (s_of_int 0)" "mag32 12 0" "mag32 9 (hold_heading r)"
    unfolding std_speed_def by (intro mag32_minus mag32_const hold_mag[OF r]; simp)+
  show "robot_ok (protect_back m r)"
    using r std by (simp add: protect_back_def robot_ok_def Let_def hold_heading_def del: s_of_int_small)
  show "acts (protect_back m r) = acts r" by (simp add: protect_back_def Let_def)
qed

lemma to_bar_ok: "robot_ok r \<Longrightarrow> mode_ok r (Some (to_bar m r))"
proof (rule mode_simple)
  assume r: "robot_ok r"
  define r1 where "r1 = (if bar_flag (car r) = 0 then drive (s_of_int 10) (s_of_int 0) (hold_heading r) r else r)"
  have 1: "robot_ok r1" unfolding r1_def using r hold_mag[OF r] by (auto intro!: drive_ok mag32_const(2) simp del: s_of_int_small)
  define r2 where "r2 = (if bar_flag (car r1) = 1 then stop r1 else r1)"
  have 2: "robot_ok r2" using 1 by (simp add: r2_def stop_ok)
  then have 3: "robot_ok (sideways (r2\<lparr>bar_pos := p\<rparr>))" for p by (intro sideways_ok) (simp add: robot_ok_def)
  have def: "to_bar m r = (if bar_flag (car r2) = 2 then
       (let r = sideways (r2\<lparr>bar_pos := odo m r2 (bar_pos r2)\<rparr>)
        in if at_bar r (fst (bar_pos r)) then set_motion 4 (stop r) else r) else r2)"
    unfolding to_bar_def Let_def r1_def r2_def by simp
  show "robot_ok (to_bar m r)" using 2 3 unfolding def Let_def by (simp add: set_motion_ok stop_ok)
  show "acts (to_bar m r) = acts r" unfolding def Let_def by (simp add: r1_def r2_def sideways_def)
qed

lemma to_edge_ok: "robot_ok r \<Longrightarrow> mode_ok r (Some (to_edge m r))"
proof (rule mode_simple)
  assume r: "robot_ok r"
  define r1 where "r1 = (if bar_flag (car r) = 0 then drive (s_of_int 0) (s_of_int 0) (hold_heading r) r else r)"
  have 1: "robot_ok r1" unfolding r1_def using r hold_mag[OF r] by (auto intro!: drive_ok mag32_const(2) simp del: s_of_int_small)
  then have 3: "robot_ok (sideways (r1\<lparr>edge_pos := p\<rparr>))" for p by (intro sideways_ok) (simp add: robot_ok_def)
  have def: "to_edge m r = (if bar_flag (car r1) = 1 then
       (let r = sideways (r1\<lparr>edge_pos := odo m r1 (edge_pos r1)\<rparr>)
        in if at_bar r (fst (edge_pos r)) then set_motion 10 r else r) else r1)"
    unfolding to_edge_def Let_def r1_def by simp
  show "robot_ok (to_edge m r)" using 1 3 unfolding def Let_def by (simp add: set_motion_ok)
  show "acts (to_edge m r) = acts r" unfolding def Let_def by (simp add: r1_def sideways_def)
qed

lemma wait_ok: "robot_ok r \<Longrightarrow> mode_ok r (Some (wait_get r))" "robot_ok r \<Longrightarrow> mode_ok r (Some (wait_drop r))"
  by (intro mode_simple; simp add: wait_get_def wait_drop_def robot_ok_def Let_def mag32_const)+

lemma run_mode_ok:
  assumes "mlib_ok m" and "robot_ok r"
  shows "mode_ok r (run_mode m r)"
proof -
  have "motion (car r) \<noteq> 6" using assms(2) by (simp add: robot_ok_def)
  then show ?thesis
    using motionControl_ok[OF assms] to_pic_ok[OF assms] pic_mag_ok[OF assms(2)] drop_it_ok[OF assms(2)] go_out_ok[OF assms]
      go_in_ok[OF assms] protect_back_ok[OF assms(2)] to_bar_ok[OF assms(2)] wait_ok[OF assms(2)] to_edge_ok[OF assms(2)]
      mode_simple[OF stop_ok[OF assms(2)]] mode_simple[OF assms(2)]
    by (simp add: run_mode_def Let_def)
qed

section \<open>A tick of the control timer\<close>

lemma wheel_speed_mag:
  assumes "\<bar>a\<bar> \<le> 2 ^ 15" and "\<bar>b\<bar> \<le> 2 ^ 15" and "\<bar>q\<bar> \<le> 2"
  shows "mag32 17 (wheel_speed q a b)"
proof -
  have h: "mag64 (15 + 0) (to_d (s_of_int n) * lit 0.5)" if "\<bar>n\<bar> \<le> 2 ^ 15" for n
    by (rule mag64_mult[OF mag_to(1)[OF mag_of_int(1)[OF that]] mag64_lit]) simp_all
  have "mag32 16 (to_s (to_d (s_of_int a) * lit 0.5 - to_d (s_of_int b) * lit 0.5))"
    using mag_to(2)[OF mag64_diff[OF h[OF assms(1)] h[OF assms(2)]]] by simp
  moreover have "mag32 1 (to_s (lit q))" using mag_to(2)[OF mag64_lit[of q 1]] assms(3) by simp
  ultimately show ?thesis unfolding wheel_speed_def using mag32_mult[of 16 _ 1] by fastforce
qed

lemma read_speeds_ok:
  assumes "robot_ok r" and "encoder_get quad = (w, q)"
  shows "robot_ok (read_speeds w r)"
proof -
  have w: "int16_wheels w" using encoder_get_range[OF assms(2)] unfolding int16_wheels_def abs_le_iff by fastforce
  then have "\<bar>speed_1 w\<bar> \<le> 2 ^ 15" "\<bar>speed_2 w\<bar> \<le> 2 ^ 15" "\<bar>speed_3 w\<bar> \<le> 2 ^ 15"
    unfolding int16_wheels_def by blast+
  then show ?thesis using assms(1) w by (simp add: read_speeds_def robot_ok_def wheel_speed_mag)
qed

lemma sum3_mag:
  assumes "mag32 12 a" and "mag32 12 b" and "mag32 9 c"
  shows "mag32 16 (a + b + c)" "mag32 16 (a - b + c)" "mag32 16 (a + b - c)" "mag32 16 (a - b - c)"
proof -
  have c: "mag32 13 c" using mag32_mono[OF assms(3)] by simp
  have s: "mag32 13 (a + b)" "mag32 13 (a - b)" using mag32_add[OF assms(1,2)] mag32_diff[OF assms(1,2)] by simp_all
  have "mag32 14 (a + b + c)" "mag32 14 (a - b + c)" "mag32 14 (a + b - c)" "mag32 14 (a - b - c)"
    using mag32_add[OF s(1) c] mag32_add[OF s(2) c] mag32_diff[OF s(1) c] mag32_diff[OF s(2) c] by simp_all
  then show "mag32 16 (a + b + c)" "mag32 16 (a - b + c)" "mag32 16 (a + b - c)" "mag32 16 (a - b - c)"
    by (auto intro: mag32_mono)
qed

definition wheels_ok :: "pids \<Rightarrow> bool" where
  "wheels_ok c \<longleftrightarrow> pwm_range (out (pid1 c)) \<and> pwm_range (out (pid2 c)) \<and> pwm_range (out (pid3 c)) \<and> pwm_range (out (pid4 c))"

lemma run_pids_ok:
  assumes r: "robot_ok r"
  shows "robot_ok (run_pids (set_targets r)) \<and> wheels_ok (ctl (run_pids (set_targets r)))
    \<and> acts (run_pids (set_targets r)) = acts r"
proof -
  have s: "mag32 16 (s_of_int n)" if "\<bar>n\<bar> \<le> 2 ^ 15" for n using mag32_mono[OF mag_of_int(1)[OF that]] by simp
  have c: "mag32 12 (cmd_x r)" "mag32 12 (cmd_y r)" "mag32 9 (cmd_z r)" using r by (simp_all add: robot_ok_def)
  have p: "pid_ok (pid1 (ctl r))" "pid_ok (pid2 (ctl r))" "pid_ok (pid3 (ctl r))" "pid_ok (pid4 (ctl r))" using r by (simp_all add: robot_ok_def)
  have w4: "\<bar>speed_1 (whl r)\<bar> \<le> 2 ^ 15" "\<bar>speed_2 (whl r)\<bar> \<le> 2 ^ 15" "\<bar>speed_3 (whl r)\<bar> \<le> 2 ^ 15" "\<bar>speed_4 (whl r)\<bar> \<le> 2 ^ 15"
    using r unfolding robot_ok_def int16_wheels_def by blast+
  note t = sum3_mag[OF c]
  note k = pid_cal_ok[OF p(1) t(1) s[OF w4(1)]] pid_cal_ok[OF p(2) t(2) s[OF w4(2)]]
    pid_cal_ok[OF p(3) mag32_minus[OF t(3)] s[OF w4(3)]] pid_cal_ok[OF p(4) mag32_minus[OF t(4)] s[OF w4(4)]]
  show ?thesis
    using r k unfolding robot_ok_def wheels_ok_def run_pids_def set_targets_def Let_def by simp
qed

text \<open>The duty of a wheel is the magnitude of its controller's output.\<close>

definition duty_of :: "pid \<Rightarrow> int" where
  "duty_of p = \<bar>the (s_int (out p))\<bar>"

definition wheel_duties :: "pids \<Rightarrow> (pwm_ch \<times> int) list" where
  "wheel_duties c = [(PWM_1, duty_of (pid1 c)), (PWM_2, duty_of (pid2 c)), (PWM_3, duty_of (pid3 c)), (PWM_4, duty_of (pid4 c))]"

lemma duties_dir [simp]: "duties ch (dir_pin d v) = []" "Feed_dog \<notin> set (dir_pin d v)"
  by (simp_all add: dir_pin_def)

lemma drive_wheels_ok:
  assumes "wheels_ok c"
  shows "\<exists>as. drive_wheels c = Some as \<and> (\<forall>(ch, v) \<in> set (wheel_duties c). duties ch as = [v] \<and> 0 \<le> v \<and> v \<le> 10000)
    \<and> (Feed_dog \<in> set as \<longleftrightarrow> (\<forall>(ch, v) \<in> set (wheel_duties c). v < 9900))"
proof -
  obtain a b e f where s: "s_int (out (pid1 c)) = Some a" "s_int (out (pid2 c)) = Some b" "s_int (out (pid3 c)) = Some e"
    "s_int (out (pid4 c)) = Some f" and r: "\<bar>a\<bar> \<le> 10000" "\<bar>b\<bar> \<le> 10000" "\<bar>e\<bar> \<le> 10000" "\<bar>f\<bar> \<le> 10000"
    using assms pwm_range_int unfolding wheels_ok_def by metis
  show ?thesis using r by (simp add: drive_wheels_def s wheel_duties_def duty_of_def)
qed

lemma motor_tick_ok:
  assumes "mlib_ok m" and "robot_ok r"
  shows "\<exists>r' q as. motorControl_timer1 m quad r = Some (r', q) \<and> robot_ok r' \<and> acts r' = acts r @ as
    \<and> (\<forall>(ch, v) \<in> set (wheel_duties (ctl r')). duties ch as = [v] \<and> 0 \<le> v \<and> v \<le> 10000)
    \<and> (Feed_dog \<in> set as \<longleftrightarrow> (\<forall>(ch, v) \<in> set (wheel_duties (ctl r')). v < 9900))"
proof -
  obtain w q where e: "encoder_get quad = (w, q)" by (cases "encoder_get quad")
  note s = read_speeds_ok[OF assms(2) e]
  obtain r1 where r1: "run_mode m (read_speeds w r) = Some r1" "robot_ok r1" "quiet (read_speeds w r) r1"
    using run_mode_ok[OF assms(1) s] by (auto simp: mode_ok_def)
  obtain bs where bs: "acts r1 = acts r @ bs" "\<forall>ch \<in> {PWM_1, PWM_2, PWM_3, PWM_4}. duties ch bs = []" "Feed_dog \<notin> set bs"
    using r1(3) by (auto simp: quiet_def read_speeds_def)
  let ?r = "run_pids (set_targets r1)"
  have p: "robot_ok ?r" "wheels_ok (ctl ?r)" "acts ?r = acts r1" using run_pids_ok[OF r1(2)] by blast+
  obtain as where as: "drive_wheels (ctl ?r) = Some as"
    "\<forall>(ch, v) \<in> set (wheel_duties (ctl ?r)). duties ch as = [v] \<and> 0 \<le> v \<and> v \<le> 10000"
    "Feed_dog \<in> set as \<longleftrightarrow> (\<forall>(ch, v) \<in> set (wheel_duties (ctl ?r)). v < 9900)"
    using drive_wheels_ok[OF p(2)] by blast
  have tick: "motorControl_timer1 m quad r = Some (emit as ?r, q)"
    using r1(1) as(1) by (simp add: motorControl_timer1_def e Let_def)
  have acts: "acts (emit as ?r) = acts r @ bs @ as" using p(3) bs(1) by simp
  have ctl: "ctl (emit as ?r) = ctl ?r" by (simp add: emit_def)
  have "\<forall>(ch, v) \<in> set (wheel_duties (ctl ?r)). ch \<in> {PWM_1, PWM_2, PWM_3, PWM_4}" by (simp add: wheel_duties_def)
  then have "\<forall>(ch, v) \<in> set (wheel_duties (ctl ?r)). duties ch (bs @ as) = [v] \<and> 0 \<le> v \<and> v \<le> 10000"
    using as(2) bs(2) by (simp add: wheel_duties_def)
  moreover have "Feed_dog \<in> set (bs @ as) \<longleftrightarrow> (\<forall>(ch, v) \<in> set (wheel_duties (ctl ?r)). v < 9900)"
    using as(3) bs(3) by simp
  ultimately show ?thesis using tick p(1) acts
    by (intro exI[of _ "emit as ?r"] exI[of _ q] exI[of _ "bs @ as"] conjI) (simp_all only: ctl emit_ok)
qed


text \<open>The globals at the start, on a small plan, and simple bounded trigonometric functions.\<close>

definition flat_mlib :: mlib where
  "flat_mlib = \<lparr>msin = \<lambda>_. 0, mcos = \<lambda>_. 1, matan = \<lambda>_. 0\<rparr>"

lemma flat_mlib_ok: "mlib_ok flat_mlib"
  by (simp add: mlib_ok_def flat_mlib_def one_F64)

lemma start_robot_ok: "robot_ok start_robot"
proof -
  have z: "mag32 k 0" "a \<le> 0 \<Longrightarrow> 0 \<le> b \<Longrightarrow> btw a b 0" for k a b by (simp_all add: mag32_def btw_def one_F64)
  show ?thesis
    using pid_init_ok by (simp add: robot_ok_def start_robot_def z still_imu_def int16_wheels_def flag_init_def zero_status_def
        small_plan_def blank_legs_def NUM_def NP_def)
qed


end
