(* ===== verification/Report.thy ===== *)
theory Report
  imports Chassis
begin

text \<open>
  The 18-byte message that \<open>uart_trans\<close> sends to the host for a recognised card, and a reader for
  it: the message carries the time in seconds, the grid position and the class of the card.
\<close>

lemma hundreds_of:
  assumes "0 \<le> t" and "t < 1000"
  shows "hundreds (s_of_int t) = Some (t div 100 + 48)"
proof -
  define k where "k = t div 100"
  have k: "100 * k \<le> t" "t \<le> 100 * k + 99" "0 \<le> k" "k \<le> 9" using assms by (auto simp: k_def)
  define q :: rat where "q = of_int t / 100"
  have tb: "100 * of_int k \<le> (of_int t :: rat)" "(of_int t :: rat) \<le> 100 * of_int k + 99" using k(1,2) by linarith+
  have q: "of_int k \<le> q" "q \<le> of_int k + 99 / 100" using tb by (simp_all add: q_def)
  have k9: "0 \<le> (of_int k :: rat)" "(of_int k :: rat) \<le> 9" using k(3,4) by simp_all
  have "\<bar>q\<bar> < 512" using q k9 unfolding abs_less_iff by linarith
  then obtain y where y: "fround binary32 q = Fin y" "\<bar>y - q\<bar> \<le> 1 / 65536" by (rule near512)
  have y1: "of_int k \<le> y" using fround32_between[of k q "k + 1"] q y(1) k by auto
  have y2: "y \<le> of_int k + 99 / 100 + 1 / 65536" using y(2) q(2) unfolding abs_le_iff by linarith
  have "\<bar>y + 48\<bar> < 512" using y1 y2 k9 unfolding abs_less_iff by linarith
  then obtain z where z: "fround binary32 (y + 48) = Fin z" "\<bar>z - (y + 48)\<bar> \<le> 1 / 65536" by (rule near512)
  have z1: "of_int (k + 48) \<le> z" using fround32_between[of "k + 48" "y + 48" "k + 50"] y1 y2 z(1) k by auto
  have z2: "z < of_int (k + 48) + 1" using z(2) y2 unfolding abs_le_iff by simp
  have "\<lfloor>z\<rfloor> = k + 48" "0 \<le> z" using z1 z2 k9 by (simp_all add: floor_eq_iff)
  then have "fint (Fin z) = Some (k + 48)" using k by (simp add: fint_def ftrunc_def)
  moreover have "s_of_int t / s_of_int 100 + s_of_int 48 = F32 (Fin z)"
    using assms y(1) z(1) by (simp add: F32_arith q_def)
  ultimately show ?thesis using k by (simp add: hundreds_def s_int_def k_def)
qed

text \<open>The reader checks the separators and takes the digits at their places.\<close>

definition digits_at :: "int list \<Rightarrow> nat list \<Rightarrow> int" where
  "digits_at m is = foldl (\<lambda>v i. 10 * v + (m ! i - 48)) 0 is"

definition read_message :: "int list \<Rightarrow> (int \<times> (int \<times> int) \<times> int) option" where
  "read_message m =
     (if length m = 18 \<and> map ((!) m) [3, 4, 5, 6, 7, 10, 13, 15, 17] = [46, 48, 48, 48, 32, 32, 32, 32, 10]
      then Some (digits_at m [0, 1, 2], (digits_at m [8, 9], digits_at m [11, 12]), 5 * (digits_at m [14] - 1) + digits_at m [16])
      else None)"

lemma digit_val: "0 \<le> v \<Longrightarrow> v < 200 \<Longrightarrow> digit v = v + 48"
  by (simp add: digit_def u8_id)

text \<open>
  C28. The message of a card is read back as what it was made from: the time in seconds, for
  a run of less than 1000 s, the position and the class of the card, although the first digit
  is computed by a division in \<open>float\<close>.
\<close>

theorem card_message_roundtrip:
  assumes "0 \<le> ms" and "ms < 1000000" and "0 \<le> lstttt (route r)" and "lstttt (route r) < 25"
    and "spots r (lstttt (route r)) = (x, y)" and "0 \<le> x" and "x < 100" and "0 \<le> y" and "y < 100"
    and "card_class (route r) (lstttt (route r)) = c" and "1 \<le> c" and "c \<le> 45"
  shows "\<exists>m. card_message ms r = Some m \<and> read_message m = Some (ms div 1000, (x, y), c)"
proof -
  define t where "t = ms div 1000"
  have t: "0 \<le> t" "t < 1000" using assms(1,2) by (auto simp: t_def)
  have ti: "s_int (s_of_int t) = Some t" using t by (simp add: s_int_def fint_def ftrunc_def)
  let ?m = "[t div 100 + 48, t mod 100 div 10 + 48, t mod 10 + 48, 46, 48, 48, 48, 32, x div 10 + 48, x mod 10 + 48,
    32, y div 10 + 48, y mod 10 + 48, 32, (c - 1) div 5 + 49, 32, (c - 1) mod 5 + 49, 10]"
  have two: "digit (cdiv v 10) = v div 10 + 48" "digit (crem v 10) = v mod 10 + 48" if "0 \<le> v" "v < 1000" for v
    using that by (simp_all add: c_simps digit_val)
  have d: "digit (cdiv (crem t 100) 10) = t mod 100 div 10 + 48" "digit (crem t 10) = t mod 10 + 48"
    using two[of "t mod 100"] two(2)[of t] t by (simp_all add: c_simps)
  have cl: "u8 (49 + cdiv (c - 1) 5) = (c - 1) div 5 + 49" "u8 (49 + crem (c - 1) 5) = (c - 1) mod 5 + 49"
    using assms(11,12) by (simp_all add: c_simps u8_def)
  have rd: "rd 25 (spots r) (lstttt (route r)) = Some (x, y)" "rd NP (card_class (route r)) (lstttt (route r)) = Some c"
    using assms(3-5,10) by (simp_all add: rd_def NP_def)
  have "card_message ms r = Some ?m"
    unfolding card_message_def t_def[symmetric] Let_def rd hundreds_of[OF t] ti
    using two[of x] two[of y] assms(6-9) by (simp add: d cl)
  moreover have "t = 10 * (10 * (t div 100) + t mod 100 div 10) + t mod 10"
  proof -
    have "v = 10 * (10 * a + b) + e" if "100 * a + d = v" "10 * b + e = d" for a b d e v :: int using that by simp
    from this[OF mult_div_mod_eq[of 100 t] mult_div_mod_eq[of 10 "t mod 100"]] show ?thesis
      unfolding mod_mod_cancel[of 10 100 t, simplified] .
  qed
  moreover have "x = 10 * (x div 10) + x mod 10" "y = 10 * (y div 10) + y mod 10" "c = 5 * ((c - 1) div 5) + ((c - 1) mod 5 + 1)"
    using mult_div_mod_eq[of 5 "c - 1"] by simp_all
  ultimately show ?thesis by (simp add: read_message_def digits_at_def t_def[symmetric])
qed

lemma card_message_roundtrip_witness:
  "\<exists>r m. card_message 299500 r = Some m \<and> read_message m = Some (299, (16, 4), 12)"
proof -
  define r where "r = start_robot\<lparr>route := small_plan\<lparr>lstttt := 3, card_class := \<lambda>_. 12\<rparr>, spots := \<lambda>_. (16, 4)\<rparr>"
  have "\<exists>m. card_message 299500 r = Some m \<and> read_message m = Some (299500 div 1000, (16, 4), 12)"
    by (rule card_message_roundtrip) (simp_all add: r_def)
  then show ?thesis by auto
qed

end
