(* ===== verification/Uart_Protocol.thy ===== *)
theory Uart_Protocol
  imports Robot
begin

text \<open>
  The serial line from the camera module (\<^verbatim>\<open>CODE/more_uart.c\<close>): the task \<open>uart8_mb_recv\<close> that
  finds a packet in a buffer of twice its length, and the task \<open>data_analysis\<close> that carries it
  out. A buffer is a function of the index, 0 to 41, to a byte. The local \<open>n\<close> of
  \<open>data_analysis\<close> is read without a value when byte 14 is not \<open>N\<close>: the parameter \<open>left_n\<close>.
\<close>

definition PACK_LEN :: int where "PACK_LEN = 21"

record link =
  bot :: robot
  uart_buff :: "int arr"
  data_mb :: "int option"
  pos_cnt :: int
  bar_seen :: int
  pic_x :: f32
  pic_y :: f32
  pic_yaw :: f32

definition with_car :: "(status \<Rightarrow> status) \<Rightarrow> link \<Rightarrow> link" where
  "with_car f s = s\<lparr>bot := (bot s)\<lparr>car := f (car (bot s))\<rparr>\<rparr>"

definition with_route :: "(plan \<Rightarrow> plan option) \<Rightarrow> link \<Rightarrow> link option" where
  "with_route f s = map_option (\<lambda>p. s\<lparr>bot := (bot s)\<lparr>route := p\<rparr>\<rparr>) (f (route (bot s)))"

section \<open>Finding the packet\<close>

function sync :: "int arr \<Rightarrow> int \<Rightarrow> int" where
  "sync data i =
     (if i \<le> PACK_LEN then
        (if data i = 36 \<and> data (i + PACK_LEN - 1) = 10 then i else sync data (i + 1))
      else i)"
  by pat_completeness auto
termination by (relation "measure (\<lambda>(d, i). nat (PACK_LEN + 1 - i))") auto

declare sync.simps [simp del]

text \<open>A mailbox holds one mail; sending to a full one fails.\<close>

definition uart8_mb_recv :: "int arr \<Rightarrow> link \<Rightarrow> link" where
  "uart8_mb_recv data s =
     (let i = sync data 0 in
      if i \<le> PACK_LEN then
        (let s = s\<lparr>uart_buff := \<lambda>cnt. if 0 \<le> cnt \<and> cnt < PACK_LEN then data (cnt + i) else uart_buff s cnt\<rparr>;
             s = with_car (uart_update (\<lambda>_. SP_OK)) s
         in if data_mb s = None then s\<lparr>data_mb := Some (uart (car (bot s)))\<rparr> else s)
      else with_car (uart_update (\<lambda>_. SP_HEADER_ERR)) s)"

section \<open>Carrying it out\<close>

definition num3 :: "int arr \<Rightarrow> int \<Rightarrow> int" where
  "num3 b i = (b i - 48) * 100 + (b (i + 1) - 48) * 10 + (b (i + 2) - 48)"

text \<open>Three digits, a point and a fourth digit.\<close>

definition num31 :: "int arr \<Rightarrow> int \<Rightarrow> f64" where
  "num31 b i = d_of_int (num3 b i) + d_of_int (b (i + 4) - 48) * lit 0.1"

definition on_positions :: "int \<Rightarrow> link \<Rightarrow> link option" where
  "on_positions left_n s =
     (let b = uart_buff s; n = (if b 14 = 78 then u8 ((b 16 - 48) * 10 + b 17 - 48) else left_n) in
      if n = pos_cnt s then do {
        s \<leftarrow> (if b 2 = 88 then with_route (put_x (pos_cnt s) (num3 b 3)) s else Some s);
        s \<leftarrow> (if b 8 = 89 then with_route (put_y (pos_cnt s) (num3 b 9)) s else Some s);
        Some (s\<lparr>pos_cnt := u8 (pos_cnt s + 1)\<rparr>)
      } else Some s)"

definition on_picture :: "link \<Rightarrow> link" where
  "on_picture s =
     (let b = uart_buff s in
      if pic_flag (car (bot s)) = 0 then
        (let s = (if b 2 = 88 then s\<lparr>pic_x := to_s (num31 b 3)\<rparr> else s);
             s = (if b 8 = 89 then s\<lparr>pic_y := to_s (num31 b 9)\<rparr> else s);
             s = (if b 14 = 76 then s\<lparr>pic_yaw := to_s (num31 b 15)\<rparr> else s)
         in if b 14 = 82 then s\<lparr>pic_yaw := to_s (- num31 b 15)\<rparr> else s)
      else s)"

definition set_class :: "int \<Rightarrow> plan \<Rightarrow> plan option" where
  "set_class v p = do {
     a \<leftarrow> wr NP (card_class p) (lsttt p) v;
     k \<leftarrow> wr NP (clas (col p)) (lsttt p) (clas_of v);
     Some (p\<lparr>card_class := a, col := (col p)\<lparr>clas := k\<rparr>\<rparr>)
   }"

definition arm_side :: "int \<Rightarrow> status \<Rightarrow> status" where
  "arm_side k c =
     (if k = 0 then c\<lparr>servo_flag := 1\<rparr>
      else if k = 1 then c\<lparr>servo_flag := 3\<rparr>
      else if k = 2 then c\<lparr>servo_flag := 2\<rparr> else c)"

definition on_class :: "mlib \<Rightarrow> link \<Rightarrow> link option" where
  "on_class m s = do {
     let b = uart_buff s;
     s \<leftarrow> (if b 2 = 65 then with_route (set_class (num3 b 3)) s else Some s);
     s \<leftarrow> (if target_cnt (bot s) < pic_cnt (bot s) then with_route (ACO_to_next (matan m)) s else Some s);
     s \<leftarrow> (if target_cnt (bot s) = pic_cnt (bot s) then with_route (ACO_to_R (matan m)) s else Some s);
     k \<leftarrow> rd NP (clas (col (route (bot s)))) (lstttt (route (bot s)));
     let s = with_car (arm_side k) s;
     let s = s\<lparr>bot := (bot s)\<lparr>cmd_y := s_of_int 0\<rparr>\<rparr>;
     let s = with_car (to_pic_cnt_update (\<lambda>_. 0)) s;
     Some (with_car (uart_flag_update (\<lambda>_. 1)) s)
   }"

definition on_bar :: "link \<Rightarrow> link" where
  "on_bar s =
     (let b = uart_buff s;
          s = (if b 2 = 65 then s\<lparr>bot := (bot s)\<lparr>bar_x := to_s (num31 b 3)\<rparr>\<rparr> else s);
          s = (if b 2 = 66 then s\<lparr>bot := (bot s)\<lparr>bar_x := to_s (- num31 b 3)\<rparr>\<rparr> else s);
          s = (if bar_seen s = 1 then with_car (bar_flag_update (\<lambda>_. 2)) s else s)
      in if bar_seen s = 0 then (with_car (bar_flag_update (\<lambda>_. 1)) s)\<lparr>bar_seen := bar_seen s + 1\<rparr> else s)"

definition data_analysis :: "mlib \<Rightarrow> int \<Rightarrow> link \<Rightarrow> link option" where
  "data_analysis m left_n s =
     (case data_mb s of None \<Rightarrow> Some s
      | Some get \<Rightarrow>
          (let s = s\<lparr>data_mb := None\<rparr>; k = uart_buff s 1 in
           if u8 get \<noteq> 0 then do {
             s \<leftarrow> (if k = 38 then on_positions left_n s
                   else if k = 64 then Some (on_picture s)
                   else if k = 35 then on_class m s
                   else if k = 37 then Some (on_bar s)
                   else Some s);
             Some (with_car (uart_update (\<lambda>_. SP_WAIT)) s)
           } else Some s))"

text \<open>A buffer arrives and both tasks run.\<close>

definition on_line :: "mlib \<Rightarrow> int \<Rightarrow> int arr \<Rightarrow> link \<Rightarrow> link option" where
  "on_line m left_n data s = data_analysis m left_n (uart8_mb_recv data s)"

section \<open>A packet is found wherever the buffer starts\<close>

text \<open>
  The module repeats its packet, so the buffer is a window of the periodic stream. A packet can
  be found at the wrong place only if a newline is followed by the header byte inside it.
\<close>

definition window :: "int list \<Rightarrow> nat \<Rightarrow> int arr" where
  "window fr k i = fr ! ((nat i + k) mod 21)"

definition packet :: "int list \<Rightarrow> bool" where
  "packet fr \<longleftrightarrow> length fr = 21 \<and> fr ! 0 = 36 \<and> fr ! 20 = 10 \<and> (\<forall>j < 20. \<not> (fr ! j = 10 \<and> fr ! (j + 1) = 36))"

lemma sync_finds:
  assumes "0 \<le> i" and "i + int k \<le> PACK_LEN" and "data (i + int k) = 36" and "data (i + int k + PACK_LEN - 1) = 10"
    and "\<And>j. i \<le> j \<Longrightarrow> j < i + int k \<Longrightarrow> \<not> (data j = 36 \<and> data (j + PACK_LEN - 1) = 10)"
  shows "sync data i = i + int k"
  using assms
proof (induction k arbitrary: i)
  case 0
  then show ?case by (simp add: sync.simps[of data i])
next
  case (Suc k)
  have "sync data (i + 1) = i + 1 + int k"
    by (rule Suc.IH) (use Suc.prems in \<open>auto simp: algebra_simps\<close>)
  moreover have "\<not> (data i = 36 \<and> data (i + PACK_LEN - 1) = 10)" using Suc.prems(5)[of i] by simp
  ultimately show ?case using Suc.prems(2) by (simp add: sync.simps[of data i])
qed

lemma window_mod: "window fr k i = fr ! ((nat i + k mod 21) mod 21)"
  by (simp add: window_def mod_add_right_eq)

lemma sync_window:
  assumes "packet fr"
  shows "sync (window fr k) 0 = int ((21 - k mod 21) mod 21)"
proof -
  define r where "r = k mod 21"
  define d where "d = (if r = 0 then 0 else 21 - r)"
  have r: "r < 21" by (simp add: r_def)
  have p: "fr ! 0 = 36" "fr ! 20 = 10" "\<And>j. j < 20 \<Longrightarrow> \<not> (fr ! j = 10 \<and> fr ! (j + 1) = 36)"
    using assms by (auto simp: packet_def)
  have w: "window fr k i = fr ! ((nat i + r) mod 21)" for i by (simp add: window_mod r_def)
  have d: "d \<le> 20" "(d + r) mod 21 = 0" "(d + 20 + r) mod 21 = 20" using r by (auto simp: d_def)
  have "sync (window fr k) 0 = 0 + int d"
  proof (rule sync_finds)
    show "window fr k (0 + int d) = 36" using d(2) p(1) by (simp add: w)
    have "nat (0 + int d + PACK_LEN - 1) = d + 20" by (simp add: PACK_LEN_def)
    then show "window fr k (0 + int d + PACK_LEN - 1) = 10" using d(3) p(2) by (simp add: w)
    fix j assume j: "0 \<le> j" "j < 0 + int d"
    have lt: "nat j + r < 21" "0 < r" using j r by (auto simp: d_def split: if_splits)
    have "nat (j + PACK_LEN - 1) + r = 21 + (nat j + r - 1)" using j lt by (simp add: PACK_LEN_def nat_add_distrib)
    then have "(nat (j + PACK_LEN - 1) + r) mod 21 = (nat j + r - 1) mod 21" by (simp only: mod_add_self1)
    then have b: "(nat (j + PACK_LEN - 1) + r) mod 21 = nat j + r - 1" using lt by simp
    have "\<not> (fr ! (nat j + r - 1) = 10 \<and> fr ! (nat j + r) = 36)" using p(3)[of "nat j + r - 1"] lt by simp
    then show "\<not> (window fr k j = 36 \<and> window fr k (j + PACK_LEN - 1) = 10)" unfolding w b mod_less[OF lt(1)] by blast
  qed (use d in \<open>simp_all add: PACK_LEN_def\<close>)
  moreover have "(21 - k mod 21) mod 21 = d" using r by (simp add: d_def r_def[symmetric])
  ultimately show ?thesis by simp
qed

lemma window_back:
  assumes "0 \<le> c" and "c < 21"
  shows "window fr k (c + int ((21 - k mod 21) mod 21)) = fr ! nat c"
proof -
  define r where "r = k mod 21"
  have r: "r < 21" by (simp add: r_def)
  have "nat (c + int ((21 - r) mod 21)) + r = nat c + 21 * (if r = 0 then 0 else 1)"
    using r assms(1) by (cases "r = 0") (simp_all add: nat_add_distrib)
  then have "(nat (c + int ((21 - r) mod 21)) + r) mod 21 = nat c mod 21" by (simp only: mod_mult_self2)
  then have "(nat (c + int ((21 - r) mod 21)) + r) mod 21 = nat c" using assms by simp
  then show ?thesis by (simp add: window_mod r_def)
qed

text \<open>What one buffer leaves behind: the packet from its header on, and the flag.\<close>

lemma recv_packet:
  assumes "packet fr"
  shows "uart8_mb_recv (window fr k) s =
     (let s = s\<lparr>uart_buff := \<lambda>c. if 0 \<le> c \<and> c < 21 then fr ! nat c else uart_buff s c\<rparr>;
          s = with_car (uart_update (\<lambda>_. SP_OK)) s
      in s\<lparr>data_mb := Some (case data_mb s of None \<Rightarrow> SP_OK | Some v \<Rightarrow> v)\<rparr>)"
proof -
  have f: "(\<lambda>c. if 0 \<le> c \<and> c < PACK_LEN then window fr k (c + int ((21 - k mod 21) mod 21)) else uart_buff s c)
      = (\<lambda>c. if 0 \<le> c \<and> c < 21 then fr ! nat c else uart_buff s c)"
    by (rule ext) (simp add: PACK_LEN_def window_back)
  have "int ((21 - k mod 21) mod 21) \<le> PACK_LEN" by (simp add: PACK_LEN_def)
  then show ?thesis
    by (cases "data_mb s") (simp_all add: uart8_mb_recv_def sync_window[OF assms] f Let_def with_car_def)
qed

section \<open>The positions arrive\<close>

definition digits3 :: "int \<Rightarrow> int list" where
  "digits3 v = [v div 100 + 48, v mod 100 div 10 + 48, v mod 10 + 48]"

text \<open>The packet of picture \<open>n\<close> at \<open>(x, y)\<close>, as the comment in \<open>data_analysis\<close> gives it.\<close>

definition pos_frame :: "int \<Rightarrow> int \<times> int \<Rightarrow> int list" where
  "pos_frame n p = [36, 38, 88] @ digits3 (fst p) @ [46, 48, 89] @ digits3 (snd p) @ [46, 48, 78] @ digits3 n @ [46, 48, 10]"

definition coord :: "int \<Rightarrow> bool" where
  "coord v \<longleftrightarrow> 0 \<le> v \<and> v < 1000"

lemma digits3_num:
  assumes "coord v"
  shows "v div 100 * 100 + v mod 100 div 10 * 10 + v mod 10 = v"
proof -
  have "a * 100 + b * 10 + e = w" if "100 * a + d = w" "10 * b + e = d" for a b d e w :: int using that by simp
  from this[OF mult_div_mod_eq[of 100 v] mult_div_mod_eq[of 10 "v mod 100"]] show ?thesis
    unfolding mod_mod_cancel[of 10 100 v, simplified] .
qed

lemma packetI:
  assumes "length fr = 21" and "fr ! 0 = 36" and "fr ! 20 = 10" and "36 \<notin> set (tl fr)"
  shows "packet fr"
proof -
  have "fr ! (j + 1) \<noteq> 36" if "j < 20" for j
  proof -
    have "tl fr ! j \<in> set (tl fr)" using that assms(1) by (intro nth_mem) simp
    then show ?thesis using assms(4) that assms(1) by (auto simp: nth_tl)
  qed
  then show ?thesis using assms(1-3) by (simp add: packet_def)
qed

lemma digits3_set: "coord v \<Longrightarrow> 36 \<notin> set (digits3 v)"
proof -
  assume "coord v"
  then have "0 \<le> v div 100" "0 \<le> v mod 100 div 10" "0 \<le> v mod 10" by (simp_all add: coord_def pos_imp_zdiv_nonneg_iff)
  then show ?thesis by (simp add: digits3_def)
qed

lemma pos_frame_packet:
  assumes "coord n" and "coord (fst p)" and "coord (snd p)"
  shows "packet (pos_frame n p)"
proof (rule packetI)
  show "36 \<notin> set (tl (pos_frame n p))" using assms digits3_set by (simp add: pos_frame_def)
qed (simp_all add: pos_frame_def digits3_def)

text \<open>What the line stores for a packet, given that it comes to the mailbox.\<close>

definition shows_pos :: "int \<Rightarrow> int \<times> int \<Rightarrow> int arr \<Rightarrow> bool" where
  "shows_pos n p d \<longleftrightarrow> (\<exists>k. d = window (pos_frame n p) k)"

definition stored :: "link \<Rightarrow> int \<Rightarrow> int \<times> int" where
  "stored s i = (px (col (route (bot s))) i, py (col (route (bot s))) i)"

lemma on_line_pos:
  assumes "shows_pos n p d" and n: "0 \<le> n" "n < NP" and p: "coord (fst p)" "coord (snd p)" and mb: "data_mb s = None"
  shows "\<exists>s'. on_line m left_n d s = Some s' \<and> data_mb s' = None
    \<and> (if n = pos_cnt s then pos_cnt s' = n + 1 \<and> stored s' = (stored s)(n := p) else pos_cnt s' = pos_cnt s \<and> stored s' = stored s)"
proof -
  obtain k where d: "d = window (pos_frame n p) k" using assms(1) by (auto simp: shows_pos_def)
  have cn: "coord n" using n by (simp add: coord_def NP_def)
  define b where "b = (\<lambda>c. if 0 \<le> c \<and> c < 21 then pos_frame n p ! nat c else uart_buff s c)"
  have bs: "b 1 = 38" "b 2 = 88" "b 8 = 89" "b 14 = 78" by (simp_all add: b_def pos_frame_def digits3_def)
  have "num3 b 3 = fst p div 100 * 100 + fst p mod 100 div 10 * 10 + fst p mod 10"
    "num3 b 9 = snd p div 100 * 100 + snd p mod 100 div 10 * 10 + snd p mod 10"
    by (simp_all add: num3_def b_def pos_frame_def digits3_def)
  then have x: "num3 b 3 = fst p" and y: "num3 b 9 = snd p" unfolding digits3_num[OF p(1)] digits3_num[OF p(2)] .
  have n100: "n mod 100 = n" using n by (simp add: NP_def)
  have "(b 16 - 48) * 10 + b 17 - 48 = n mod 100 div 10 * 10 + n mod 10" by (simp add: b_def pos_frame_def digits3_def)
  then have "(b 16 - 48) * 10 + b 17 - 48 = n" unfolding n100 by (simp only: div_mult_mod_eq)
  then have "b 16 * 10 + b 17 - 528 = n" by simp
  then have nn: "(b 16 * 10 + b 17 - 528) mod 256 = n" using n by (simp add: NP_def)
  note r = recv_packet[OF pos_frame_packet[OF cn p], of k s, folded d b_def]
  show ?thesis
    using n x y by (auto simp: on_line_def r data_analysis_def Let_def mb with_car_def on_positions_def bs nn SP_OK_def u8_def
        with_route_def put_x_def put_y_def c_simps stored_def NP_def)
qed

text \<open>Buffers one after the other.\<close>

fun on_lines :: "mlib \<Rightarrow> int \<Rightarrow> int arr list \<Rightarrow> link \<Rightarrow> link option" where
  "on_lines m left_n [] s = Some s"
| "on_lines m left_n (d # ds) s = (case on_line m left_n d s of None \<Rightarrow> None | Some t \<Rightarrow> on_lines m left_n ds t)"

lemma on_lines_append:
  "on_lines m left_n (xs @ ys) s = (case on_lines m left_n xs s of None \<Rightarrow> None | Some t \<Rightarrow> on_lines m left_n ys t)"
  by (induction xs arbitrary: s) (simp_all split: option.split)

lemma repeats_ignored:
  assumes "\<forall>d \<in> set ds. shows_pos n p d" and "0 \<le> n" "n < NP" and "coord (fst p)" "coord (snd p)"
    and "data_mb s = None" and "pos_cnt s \<noteq> n"
  shows "\<exists>s'. on_lines m left_n ds s = Some s' \<and> data_mb s' = None \<and> pos_cnt s' = pos_cnt s \<and> stored s' = stored s"
  using assms
proof (induction ds arbitrary: s)
  case (Cons d ds)
  from on_line_pos[OF _ Cons.prems(2-6), of d m left_n] Cons.prems(1,7) obtain t where
    t: "on_line m left_n d s = Some t" "data_mb t = None" "pos_cnt t = pos_cnt s" "stored t = stored s" by auto
  from Cons.IH[of t] Cons.prems(1-5,7) t show ?case by simp
qed simp

lemma repeats_store:
  assumes "\<forall>d \<in> set ds. shows_pos n p d" and "ds \<noteq> []" and "0 \<le> n" "n < NP" and "coord (fst p)" "coord (snd p)"
    and "data_mb s = None" and "pos_cnt s = n"
  shows "\<exists>s'. on_lines m left_n ds s = Some s' \<and> data_mb s' = None \<and> pos_cnt s' = n + 1 \<and> stored s' = (stored s)(n := p)"
proof -
  obtain d es where ds: "ds = d # es" using assms(2) by (cases ds) auto
  from on_line_pos[OF _ assms(3-7), of d m left_n] assms(1,8) ds obtain t where
    t: "on_line m left_n d s = Some t" "data_mb t = None" "pos_cnt t = n + 1" "stored t = (stored s)(n := p)" by auto
  have "pos_cnt t \<noteq> n" using t(3) by simp
  from repeats_ignored[OF _ assms(3-6) t(2) this, of es m left_n] assms(1) ds t show ?thesis by auto
qed

text \<open>
  C29. The camera module sends the packet of each picture, in order, one or more times, and the
  buffers start anywhere in the stream; then every packet is found, repetitions are ignored and
  all positions (at most 30) are stored as they were sent.
\<close>

theorem positions_received:
  assumes "length dss = length ps" and "\<forall>i < length ps. dss ! i \<noteq> [] \<and> (\<forall>d \<in> set (dss ! i). shows_pos (int i) (ps ! i) d)"
    and "length ps \<le> 30" and "\<forall>p \<in> set ps. coord (fst p) \<and> coord (snd p)" and "data_mb s = None" and "pos_cnt s = 0"
  shows "\<exists>s'. on_lines m left_n (concat dss) s = Some s' \<and> pos_cnt s' = int (length ps)
    \<and> (\<forall>i < length ps. stored s' (int i) = ps ! i)"
proof -
  have "\<exists>s'. on_lines m left_n (concat (take k dss)) s = Some s' \<and> data_mb s' = None \<and> pos_cnt s' = int k
      \<and> (\<forall>i < k. stored s' (int i) = ps ! i)" if "k \<le> length ps" for k
    using that
  proof (induction k)
    case (Suc k)
    then obtain t where t: "on_lines m left_n (concat (take k dss)) s = Some t" "data_mb t = None" "pos_cnt t = int k"
      "\<forall>i < k. stored t (int i) = ps ! i" by auto
    have k: "k < length ps" "k < length dss" using Suc.prems assms(1) by simp_all
    have c: "coord (fst (ps ! k))" "coord (snd (ps ! k))" using assms(4) k(1) by auto
    have "\<exists>u. on_lines m left_n (dss ! k) t = Some u \<and> data_mb u = None \<and> pos_cnt u = int k + 1 \<and> stored u = (stored t)(int k := ps ! k)"
      using assms(2,3) k(1) by (intro repeats_store c t(2,3)) (auto simp: NP_def)
    then obtain u where "on_lines m left_n (dss ! k) t = Some u" "data_mb u = None" "pos_cnt u = int k + 1"
      "stored u = (stored t)(int k := ps ! k)" by blast
    then show ?case using t by (simp add: take_Suc_conv_app_nth[OF k(2)] on_lines_append less_Suc_eq)
  qed (use assms(5,6) in simp)
  from this[of "length ps"] show ?thesis using assms(1) by auto
qed

definition quiet_link :: link where
  "quiet_link = \<lparr>bot = start_robot, uart_buff = \<lambda>_. 0, data_mb = None, pos_cnt = 0, bar_seen = 0, pic_x = 0, pic_y = 0, pic_yaw = 0\<rparr>"

lemma positions_received_witness:
  "\<forall>m left_n. \<exists>s'. on_lines m left_n [window (pos_frame 0 (120, 45)) 13, window (pos_frame 0 (120, 45)) 7, window (pos_frame 1 (699, 8)) 0] quiet_link = Some s'
    \<and> stored s' 0 = (120, 45) \<and> stored s' 1 = (699, 8)"
proof (intro allI)
  fix m left_n
  let ?dss = "[[window (pos_frame 0 (120, 45)) 13, window (pos_frame 0 (120, 45)) 7], [window (pos_frame 1 (699, 8)) 0]]"
  let ?ps = "[(120, 45), (699, 8)] :: (int \<times> int) list"
  have "\<exists>s'. on_lines m left_n (concat ?dss) quiet_link = Some s' \<and> pos_cnt s' = int (length ?ps) \<and> (\<forall>i < length ?ps. stored s' (int i) = ?ps ! i)"
    by (rule positions_received) (auto simp: less_Suc_eq shows_pos_def coord_def quiet_link_def)
  then show "\<exists>s'. on_lines m left_n [window (pos_frame 0 (120, 45)) 13, window (pos_frame 0 (120, 45)) 7, window (pos_frame 1 (699, 8)) 0] quiet_link = Some s'
    \<and> stored s' 0 = (120, 45) \<and> stored s' 1 = (699, 8)"
    by (auto simp: less_Suc_eq)
qed

end
