(* ===== verification/Menu.thy ===== *)
theory Menu
  imports Robot
begin

text \<open>
  The screen menu (\<^verbatim>\<open>CODE/ips_refresh.c\<close>): the table of pages, the task \<open>ips_mb_recv\<close> that
  moves through it with the four keys, and the page functions. What a page draws is a list of
  items (\<open>drawn\<close>). The flash driver, the bit patterns of \<open>float\<close>s, \<open>pow\<close> and \<open>rand\<close> are
  parameters, the fields of \<open>board\<close>.
\<close>

datatype page =
    Main_menu | child1_option | child2_option | child3_option
  | child1_parameter1option | child1_parameter2option | child1_parameter3option | child1_parameter4option
  | child1_parameter5option | child1_parameter6option | child1_parameter7option | child1_parameter8option
  | child1_parameter1 | child1_parameter2 | child1_parameter3 | child1_parameter4
  | child1_parameter5 | child1_parameter6 | child1_parameter7 | child1_parameter8
  | child2_path_opiton | child2_find_coor | child2_ant
  | child3_x | child3_y | child3_z | child3_run
  | child3_x_change | child3_y_change | child3_z_change

text \<open>The numbers of the enumeration.\<close>

definition pages :: "page list" where
  "pages = [Main_menu, child1_option, child2_option, child3_option,
     child1_parameter1option, child1_parameter2option, child1_parameter3option, child1_parameter4option,
     child1_parameter5option, child1_parameter6option, child1_parameter7option, child1_parameter8option,
     child1_parameter1, child1_parameter2, child1_parameter3, child1_parameter4,
     child1_parameter5, child1_parameter6, child1_parameter7, child1_parameter8,
     child2_path_opiton, child2_find_coor, child2_ant,
     child3_x, child3_y, child3_z, child3_run,
     child3_x_change, child3_y_change, child3_z_change]"

fun place_of :: "page \<Rightarrow> page list \<Rightarrow> nat" where
  "place_of p [] = 0"
| "place_of p (q # qs) = (if p = q then 0 else Suc (place_of p qs))"

definition page_no :: "page \<Rightarrow> nat" where
  "page_no p = place_of p pages"

definition KEY_PREVIOUS :: int where "KEY_PREVIOUS = 2"
definition KEY_ENTER :: int where "KEY_ENTER = 3"
definition KEY_NEXT :: int where "KEY_NEXT = 4"
definition KEY_BACK :: int where "KEY_BACK = 5"

datatype page_fn = Main_UI | Main_menu_UI | child1_UI | child1_change | child2_showimg | child2_find_coor_UI
  | child2_ant_UI | child3_UI | child3_change

record menu_t =
  Cur_Index :: page
  m_previous :: page
  m_next :: page
  m_enter :: page
  m_back :: page
  current_operation :: page_fn

definition entry :: "page \<Rightarrow> page \<Rightarrow> page \<Rightarrow> page \<Rightarrow> page \<Rightarrow> page_fn \<Rightarrow> menu_t" where
  "entry c p n e b f = \<lparr>Cur_Index = c, m_previous = p, m_next = n, m_enter = e, m_back = b, current_operation = f\<rparr>"

definition table :: "menu_t list" where
  "table =
    [entry Main_menu Main_menu Main_menu child1_option Main_menu Main_UI,

     entry child1_option child3_option child2_option child1_parameter1option Main_menu Main_menu_UI,
     entry child2_option child1_option child3_option child2_path_opiton Main_menu Main_menu_UI,
     entry child3_option child2_option child1_option child3_x Main_menu Main_menu_UI,

     entry child1_parameter1option child1_parameter8option child1_parameter2option child1_parameter1 child1_option child1_UI,
     entry child1_parameter2option child1_parameter1option child1_parameter3option child1_parameter2 child1_option child1_UI,
     entry child1_parameter3option child1_parameter2option child1_parameter4option child1_parameter3 child1_option child1_UI,
     entry child1_parameter4option child1_parameter3option child1_parameter5option child1_parameter4 child1_option child1_UI,
     entry child1_parameter5option child1_parameter4option child1_parameter6option child1_parameter5 child1_option child1_UI,
     entry child1_parameter6option child1_parameter5option child1_parameter7option child1_parameter6 child1_option child1_UI,
     entry child1_parameter7option child1_parameter6option child1_parameter8option child1_parameter7 child1_option child1_UI,
     entry child1_parameter8option child1_parameter7option child1_parameter1option child1_parameter8 child1_option child1_UI,

     entry child1_parameter1 child1_parameter1 child1_parameter1 child1_parameter1 child1_parameter1option child1_change,
     entry child1_parameter2 child1_parameter2 child1_parameter2 child1_parameter2 child1_parameter2option child1_change,
     entry child1_parameter3 child1_parameter3 child1_parameter3 child1_parameter3 child1_parameter3option child1_change,
     entry child1_parameter4 child1_parameter4 child1_parameter4 child1_parameter4 child1_parameter4option child1_change,
     entry child1_parameter5 child1_parameter5 child1_parameter5 child1_parameter5 child1_parameter5option child1_change,
     entry child1_parameter6 child1_parameter6 child1_parameter6 child1_parameter6 child1_parameter6option child1_change,
     entry child1_parameter7 child1_parameter7 child1_parameter7 child1_parameter7 child1_parameter7option child1_change,
     entry child1_parameter8 child1_parameter8 child1_parameter8 child1_parameter8 child1_parameter8option child1_change,

     entry child2_path_opiton child2_path_opiton child2_path_opiton child2_find_coor child2_option child2_showimg,
     entry child2_find_coor child2_find_coor child2_find_coor child2_find_coor child2_path_opiton child2_find_coor_UI,
     entry child2_ant child2_ant child2_ant child2_ant child2_find_coor child2_ant_UI,

     entry child3_x child3_run child3_y child3_x_change child3_option child3_UI,
     entry child3_y child3_x child3_z child3_y_change child3_option child3_UI,
     entry child3_z child3_y child3_run child3_z_change child3_option child3_UI,
     entry child3_run child3_z child3_x child3_run child3_option child3_UI,

     entry child3_x_change child3_x_change child3_x_change child3_x_change child3_x child3_change,
     entry child3_y_change child3_y_change child3_y_change child3_y_change child3_y child3_change,
     entry child3_z_change child3_z_change child3_z_change child3_z_change child3_z child3_change]"

definition row :: "page \<Rightarrow> menu_t" where
  "row p = table ! page_no p"

text \<open>The index after a key.\<close>

definition navigate :: "int \<Rightarrow> page \<Rightarrow> page" where
  "navigate key p =
     (if key = KEY_PREVIOUS then m_previous (row p)
      else if key = KEY_ENTER then m_enter (row p)
      else if key = KEY_NEXT then m_next (row p)
      else if key = KEY_BACK then m_back (row p) else p)"

section \<open>The panel\<close>

datatype item = Clear | Str int int string | Flt int int f32 | I16 int int int

definition PARA_LEN :: int where "PARA_LEN = 8"

record panel =
  veh :: robot
  cur_index :: page
  last_index :: page
  key_val :: int
  ips_mb :: "int option"
  float_buff :: "f32 list"
  int_buff :: "int list"
  x_temp :: int
  y_temp :: int
  z_temp :: int
  flash :: "int list"
  coor_done :: int
  drawn :: "item list"

record board =
  fl_check :: "int list \<Rightarrow> bool"
  fl_erase :: "int list \<Rightarrow> int \<times> int list"
  fl_program :: "int list \<Rightarrow> int list \<Rightarrow> int \<times> int list"
  fl_read :: "int list \<Rightarrow> int list"
  to_bits :: "f32 \<Rightarrow> int"
  of_bits :: "int \<Rightarrow> f32"
  b_pow :: "f64 \<Rightarrow> f64 \<Rightarrow> f64"
  b_rand :: "nat \<Rightarrow> int"

definition draw :: "item list \<Rightarrow> panel \<Rightarrow> panel" where
  "draw is s = s\<lparr>drawn := drawn s @ is\<rparr>"

definition on_veh :: "(robot \<Rightarrow> robot) \<Rightarrow> panel \<Rightarrow> panel" where
  "on_veh f s = s\<lparr>veh := f (veh s)\<rparr>"

text \<open>The gains of the four wheel controllers, in the order of \<open>float_buff\<close>.\<close>

definition set_gains :: "f32 list \<Rightarrow> pids \<Rightarrow> pids" where
  "set_gains b c =
     c\<lparr>pid1 := (pid1 c)\<lparr>gain_p := b ! 0, gain_i := b ! 1\<rparr>, pid2 := (pid2 c)\<lparr>gain_p := b ! 2, gain_i := b ! 3\<rparr>,
       pid3 := (pid3 c)\<lparr>gain_p := b ! 4, gain_i := b ! 5\<rparr>, pid4 := (pid4 c)\<lparr>gain_p := b ! 6, gain_i := b ! 7\<rparr>\<rparr>"

definition put_gains :: "f32 list \<Rightarrow> panel \<Rightarrow> panel" where
  "put_gains b = on_veh (\<lambda>r. r\<lparr>ctl := set_gains b (ctl r)\<rparr>)"

text \<open>\<open>IPS_INIT\<close> takes the gains from flash and then sets them all to 45 and 13.\<close>

definition IPS_INIT :: "board \<Rightarrow> panel \<Rightarrow> panel" where
  "IPS_INIT bd s =
     (let s = s\<lparr>int_buff := fl_read bd (flash s)\<rparr>;
          s = s\<lparr>float_buff := map (of_bits bd) (int_buff s)\<rparr>;
          s = put_gains (float_buff s) s;
          s = put_gains (concat (replicate 4 [s_of_int 45, s_of_int 13])) s
      in s\<lparr>ips_mb := None\<rparr>)"

text \<open>The keys are read every 180 ms; a pressed key reads 0, the last test wins.\<close>

definition GUI_refresh_timer2 :: "int \<Rightarrow> int \<Rightarrow> int \<Rightarrow> int \<Rightarrow> panel \<Rightarrow> panel" where
  "GUI_refresh_timer2 key_15 key_14 key_16 key_17 s =
     (if key_15 = 0 \<or> key_16 = 0 \<or> key_14 = 0 \<or> key_17 = 0 then
        (let s = (if key_15 = 0 then s\<lparr>key_val := KEY_PREVIOUS\<rparr> else s);
             s = (if key_14 = 0 then s\<lparr>key_val := KEY_NEXT\<rparr> else s);
             s = (if key_16 = 0 then s\<lparr>key_val := KEY_BACK\<rparr> else s);
             s = (if key_17 = 0 then s\<lparr>key_val := KEY_ENTER\<rparr> else s)
         in if ips_mb s = None then s\<lparr>ips_mb := Some (key_val s)\<rparr> else s)
      else s)"

section \<open>The pages\<close>

text \<open>
  Leaving a page of gains or speeds with the back key saves the gains. A sector that cannot be
  erased stops the firmware in an endless loop: \<^const>\<open>None\<close>.
\<close>

definition save_gains :: "board \<Rightarrow> panel \<Rightarrow> panel option" where
  "save_gains bd s =
     (let s = s\<lparr>int_buff := map (to_bits bd) (float_buff s)\<rparr>;
          (status, f) = (if fl_check bd (flash s) then fl_erase bd (flash s) else (0, flash s))
      in if status \<noteq> 0 then None
         else (let (st, f) = fl_program bd (int_buff s) f
               in Some (s\<lparr>flash := f, int_buff := fl_read bd f\<rparr>)))"

definition run_Main_menu_UI :: "board \<Rightarrow> int \<Rightarrow> panel \<Rightarrow> panel option" where
  "run_Main_menu_UI bd key s =
     (let s = draw [Str 90 0 ''Menu'', Str 20 2 ''Change Parameters'', Str 20 4 ''Show Identified Results'',
                    Str 20 6 ''Run the Demo''] s;
          s = (case cur_index s of
                 child1_option \<Rightarrow> draw [Str 0 2 ''->''] s
               | child2_option \<Rightarrow> draw [Str 0 4 ''->''] s
               | child3_option \<Rightarrow> draw [Str 0 6 ''->''] s
               | _ \<Rightarrow> s)
      in if key = KEY_BACK then save_gains bd s else Some s)"

definition show_gains :: "panel \<Rightarrow> item list" where
  "show_gains s =
     [Str 20 0 ''P1'', Flt 50 0 (float_buff s ! 0), Str 20 2 ''I1'', Flt 50 2 (float_buff s ! 1),
      Str 20 4 ''P2'', Flt 50 4 (float_buff s ! 2), Str 20 6 ''I2'', Flt 50 6 (float_buff s ! 3),
      Str 120 0 ''P3'', Flt 150 0 (float_buff s ! 4), Str 120 2 ''I3'', Flt 150 2 (float_buff s ! 5),
      Str 120 4 ''P4'', Flt 150 4 (float_buff s ! 6), Str 120 6 ''I4'', Flt 150 6 (float_buff s ! 7)]"

definition run_child1_UI :: "int \<Rightarrow> panel \<Rightarrow> panel" where
  "run_child1_UI key s =
     (let s = draw (show_gains s) s;
          s = (case cur_index s of
                 child1_parameter1option \<Rightarrow> draw [Str 0 0 ''->''] s
               | child1_parameter2option \<Rightarrow> draw [Str 0 2 ''->''] s
               | child1_parameter3option \<Rightarrow> draw [Str 0 4 ''->''] s
               | child1_parameter4option \<Rightarrow> draw [Str 0 6 ''->''] s
               | child1_parameter5option \<Rightarrow> draw [Str 100 0 ''->''] s
               | child1_parameter6option \<Rightarrow> draw [Str 100 2 ''->''] s
               | child1_parameter7option \<Rightarrow> draw [Str 100 4 ''->''] s
               | child1_parameter8option \<Rightarrow> draw [Str 100 6 ''->''] s
               | _ \<Rightarrow> s)
      in if key = KEY_BACK then put_gains (float_buff s) s else s)"

text \<open>\<open>float_buff[k] += 0.2\<close> or \<open>-= 0.2\<close>, and the new value on the screen.\<close>

definition tweak :: "nat \<Rightarrow> int \<Rightarrow> int \<Rightarrow> int \<Rightarrow> int \<Rightarrow> panel \<Rightarrow> panel" where
  "tweak k mx vx y key s =
     (let s = draw [Str mx y ''@''] s
      in if key = KEY_PREVIOUS then
           (let s = s\<lparr>float_buff := (float_buff s)[k := to_s (to_d (float_buff s ! k) + lit 0.2)]\<rparr>
            in draw [Flt vx y (float_buff s ! k)] s)
         else if key = KEY_NEXT then
           (let s = s\<lparr>float_buff := (float_buff s)[k := to_s (to_d (float_buff s ! k) - lit 0.2)]\<rparr>
            in draw [Flt vx y (float_buff s ! k)] s)
         else s)"

definition run_child1_change :: "page \<Rightarrow> int \<Rightarrow> panel \<Rightarrow> panel" where
  "run_child1_change p key s =
     (let s = draw (show_gains s) s in
      case p of
        child1_parameter1 \<Rightarrow> tweak 0 0 50 0 key s
      | child1_parameter2 \<Rightarrow> tweak 1 0 50 2 key s
      | child1_parameter3 \<Rightarrow> tweak 2 0 50 4 key s
      | child1_parameter4 \<Rightarrow> tweak 3 0 50 6 key s
      | child1_parameter5 \<Rightarrow> tweak 4 100 150 0 key s
      | child1_parameter6 \<Rightarrow> tweak 5 100 150 2 key s
      | child1_parameter7 \<Rightarrow> tweak 6 100 150 4 key s
      | child1_parameter8 \<Rightarrow> tweak 7 100 150 6 key s
      | _ \<Rightarrow> s)"

definition show_speeds :: "panel \<Rightarrow> item list" where
  "show_speeds s = [Str 80 1 ''x'', I16 120 1 (x_temp s), Str 80 3 ''y'', I16 120 3 (y_temp s), Str 80 5 ''z'', I16 120 5 (z_temp s)]"

text \<open>\<open>Run!\<close> makes the speeds of the panel the command of the chassis.\<close>

definition run_demo :: "panel \<Rightarrow> panel" where
  "run_demo s = on_veh (\<lambda>r. drive (s_of_int (x_temp s)) (s_of_int (y_temp s)) (s_of_int (z_temp s)) (emit [Delay 500] r)) s"

definition run_child3_UI :: "page \<Rightarrow> int \<Rightarrow> panel \<Rightarrow> panel" where
  "run_child3_UI p key s =
     (let s = draw (show_speeds s @ [Str 100 7 ''Run!'']) s in
      case p of
        child3_x \<Rightarrow> draw [Str 60 1 ''->''] s
      | child3_y \<Rightarrow> draw [Str 60 3 ''->''] s
      | child3_z \<Rightarrow> draw [Str 60 5 ''->''] s
      | child3_run \<Rightarrow> (let s = draw [Str 80 7 ''->''] s in if key = KEY_ENTER then run_demo s else s)
      | _ \<Rightarrow> s)"

definition bump_speed :: "int \<Rightarrow> int \<Rightarrow> int" where
  "bump_speed key v = (if key = KEY_PREVIOUS then i16 (v + 10) else if key = KEY_NEXT then i16 (v - 10) else v)"

definition run_child3_change :: "page \<Rightarrow> int \<Rightarrow> panel \<Rightarrow> panel" where
  "run_child3_change p key s =
     (let s = draw (show_speeds s) s in
      case p of
        child3_x_change \<Rightarrow> (let s = (draw [Str 60 1 ''@''] s)\<lparr>x_temp := bump_speed key (x_temp s)\<rparr> in draw [I16 120 1 (x_temp s)] s)
      | child3_y_change \<Rightarrow> (let s = (draw [Str 60 3 ''@''] s)\<lparr>y_temp := bump_speed key (y_temp s)\<rparr> in draw [I16 120 3 (y_temp s)] s)
      | child3_z_change \<Rightarrow> (let s = (draw [Str 60 5 ''@''] s)\<lparr>z_temp := bump_speed key (z_temp s)\<rparr> in draw [I16 120 5 (z_temp s)] s)
      | _ \<Rightarrow> s)"

text \<open>The positions that \<open>child2_find_coor_UI\<close> sets in place of those of the camera.\<close>

definition fixed_spots :: "(int \<times> int) list" where
  "fixed_spots = [(16, 14), (13, 9), (20, 16), (14, 19), (23, 6), (5, 5), (3, 14), (9, 22), (26, 23), (2, 2), (33, 2), (4, 24), (33, 21)]"

definition set_spot :: "int \<times> (int \<times> int) \<Rightarrow> robot \<Rightarrow> robot option" where
  "set_spot ip r = map_option (\<lambda>a. r\<lparr>spots := a\<rparr>) (wr 25 (spots r) (fst ip) (snd ip))"

definition spot_to_card :: "int \<Rightarrow> robot \<Rightarrow> robot option" where
  "spot_to_card i r = do {
     q \<leftarrow> rd 25 (spots r) i;
     p \<leftarrow> put_xy i (fst q) (snd q) (route r);
     Some (r\<lparr>route := p\<rparr>)
   }"

definition run_child2_find_coor_UI :: "board \<Rightarrow> panel \<Rightarrow> panel option" where
  "run_child2_find_coor_UI bd s =
     (if coor_done s = 0 then do {
        let s = s\<lparr>coor_done := 1\<rparr>;
        let r = (veh s)\<lparr>pic_cnt := 13\<rparr>;
        r \<leftarrow> for_list set_spot (zip [0..12] fixed_spots) r;
        r \<leftarrow> for_up 0 (pic_cnt r) spot_to_card r;
        let r = emit [Pin C4 1] r;
        p \<leftarrow> ACO_to_first (b_pow bd) (b_rand bd) (pic_cnt r) (route r);
        let r = emit [Delay 300, Pin C4 0] (r\<lparr>route := p\<rparr>);
        Some (s\<lparr>veh := set_motion 1 r\<rparr>)
      } else Some s)"

definition run_page :: "board \<Rightarrow> page \<Rightarrow> int \<Rightarrow> panel \<Rightarrow> panel option" where
  "run_page bd p key s =
     (case current_operation (row p) of
        Main_UI \<Rightarrow> Some (draw [Str 80 3 ''Smart Car''] s)
      | Main_menu_UI \<Rightarrow> run_Main_menu_UI bd key s
      | child1_UI \<Rightarrow> Some (run_child1_UI key s)
      | child1_change \<Rightarrow> Some (run_child1_change p key s)
      | child2_showimg \<Rightarrow> Some s
      | child2_find_coor_UI \<Rightarrow> run_child2_find_coor_UI bd s
      | child2_ant_UI \<Rightarrow> Some s
      | child3_UI \<Rightarrow> Some (run_child3_UI p key s)
      | child3_change \<Rightarrow> Some (run_child3_change p key s))"

definition ips_mb_recv :: "board \<Rightarrow> panel \<Rightarrow> panel option" where
  "ips_mb_recv bd s =
     (case ips_mb s of None \<Rightarrow> Some s
      | Some data \<Rightarrow>
          (let key = u8 data;
               s = s\<lparr>ips_mb := None, last_index := cur_index s\<rparr>;
               s = s\<lparr>cur_index := navigate key (cur_index s)\<rparr>;
               s = (if cur_index s \<noteq> child2_path_opiton then draw [Clear] s else s)
           in run_page bd (cur_index s) key s))"

end
