(* ===== verification/Menu_Spec.thy ===== *)
theory Menu_Spec
  imports Menu
begin

text \<open>
  What the menu promises: a tree of rings, of which the table of \<open>Menu\<close> is an implementation;
  which pages the keys can reach; and what the keys and the back-up in flash do to the values.
\<close>

section \<open>The tree of rings\<close>

datatype place = Root | Choice nat | Gain nat | Gain_edit nat | Cards | Coor | Ants | Speed nat | Speed_edit nat

datatype key = Prev | Enter | Next_key | Back

fun key_code :: "key \<Rightarrow> int" where
  "key_code Prev = KEY_PREVIOUS"
| "key_code Enter = KEY_ENTER"
| "key_code Next_key = KEY_NEXT"
| "key_code Back = KEY_BACK"

text \<open>Steps around a ring of \<open>n\<close> places; only the two ring keys move.\<close>

fun ring :: "nat \<Rightarrow> key \<Rightarrow> nat \<Rightarrow> nat" where
  "ring n Prev i = (i + n - 1) mod n"
| "ring n Next_key i = (i + 1) mod n"
| "ring n _ i = i"

fun move :: "key \<Rightarrow> place \<Rightarrow> place" where
  "move Enter Root = Choice 0"
| "move _ Root = Root"
| "move Enter (Choice i) = (if i = 0 then Gain 0 else if i = 1 then Cards else Speed 0)"
| "move Back (Choice i) = Root"
| "move k (Choice i) = Choice (ring 3 k i)"
| "move Enter (Gain i) = Gain_edit i"
| "move Back (Gain i) = Choice 0"
| "move k (Gain i) = Gain (ring 8 k i)"
| "move Back (Gain_edit i) = Gain i"
| "move _ (Gain_edit i) = Gain_edit i"
| "move Enter Cards = Coor"
| "move Back Cards = Choice 1"
| "move _ Cards = Cards"
| "move Back Coor = Cards"
| "move _ Coor = Coor"
| "move Back Ants = Coor"
| "move _ Ants = Ants"
| "move Enter (Speed i) = (if i < 3 then Speed_edit i else Speed i)"
| "move Back (Speed i) = Choice 2"
| "move k (Speed i) = Speed (ring 4 k i)"
| "move Back (Speed_edit i) = Speed i"
| "move _ (Speed_edit i) = Speed_edit i"

fun abs_page :: "page \<Rightarrow> place" where
  "abs_page Main_menu = Root"
| "abs_page child1_option = Choice 0" | "abs_page child2_option = Choice 1" | "abs_page child3_option = Choice 2"
| "abs_page child1_parameter1option = Gain 0" | "abs_page child1_parameter2option = Gain 1"
| "abs_page child1_parameter3option = Gain 2" | "abs_page child1_parameter4option = Gain 3"
| "abs_page child1_parameter5option = Gain 4" | "abs_page child1_parameter6option = Gain 5"
| "abs_page child1_parameter7option = Gain 6" | "abs_page child1_parameter8option = Gain 7"
| "abs_page child1_parameter1 = Gain_edit 0" | "abs_page child1_parameter2 = Gain_edit 1"
| "abs_page child1_parameter3 = Gain_edit 2" | "abs_page child1_parameter4 = Gain_edit 3"
| "abs_page child1_parameter5 = Gain_edit 4" | "abs_page child1_parameter6 = Gain_edit 5"
| "abs_page child1_parameter7 = Gain_edit 6" | "abs_page child1_parameter8 = Gain_edit 7"
| "abs_page child2_path_opiton = Cards" | "abs_page child2_find_coor = Coor" | "abs_page child2_ant = Ants"
| "abs_page child3_x = Speed 0" | "abs_page child3_y = Speed 1" | "abs_page child3_z = Speed 2" | "abs_page child3_run = Speed 3"
| "abs_page child3_x_change = Speed_edit 0" | "abs_page child3_y_change = Speed_edit 1" | "abs_page child3_z_change = Speed_edit 2"

lemmas nav_simps = navigate_def row_def page_no_def pages_def table_def entry_def
  KEY_PREVIOUS_def KEY_ENTER_def KEY_NEXT_def KEY_BACK_def

text \<open>
  C31. The table implements the tree of rings: every page's entry stands at the page's number, and
  every key moves as the tree says, the ring keys around the ring of the page, enter down and
  back up.
\<close>

theorem menu_refines_tree:
  "Cur_Index (row p) = p \<and> abs_page (navigate (key_code k) p) = move k (abs_page p)"
  by (cases p; cases k) (simp_all add: nav_simps)

section \<open>Reachable pages\<close>

inductive reached :: "page \<Rightarrow> bool" where
  start: "reached child2_find_coor"
| press: "reached p \<Longrightarrow> reached (navigate (key_code k) p)"

lemma press_to: "reached p \<Longrightarrow> navigate (key_code k) p = q \<Longrightarrow> reached q"
  using press by blast

lemma not_ants: "p \<noteq> child2_ant \<Longrightarrow> navigate (key_code k) p \<noteq> child2_ant"
  by (cases p; cases k) (simp_all add: nav_simps)

text \<open>A walk through the menu that comes to every page but one.\<close>

fun key_walk :: "page \<Rightarrow> key list \<Rightarrow> page list" where
  "key_walk p [] = [p]"
| "key_walk p (k # ks) = p # key_walk (navigate (key_code k) p) ks"

lemma key_walk_reached: "reached p \<Longrightarrow> q \<in> set (key_walk p ks) \<Longrightarrow> reached q"
  by (induction ks arbitrary: p) (auto intro: press)

definition tour :: "key list" where
  "tour = [Back, Back, Back, Enter] @ Enter # concat (replicate 8 [Enter, Back, Next_key]) @ [Back, Prev, Enter]
     @ concat (replicate 3 [Enter, Back, Next_key])"

lemma tour_everywhere: "p \<noteq> child2_ant \<Longrightarrow> p \<in> set (key_walk child2_find_coor tour)"
  by (cases p) (simp_all add: tour_def nav_simps numeral_eq_Suc)

text \<open>
  C32. From the page shown at the start, the keys reach every page of the menu except
  \<open>child2_ant\<close>, which no sequence of keys reaches.
\<close>

theorem menu_reachable: "reached p \<longleftrightarrow> p \<noteq> child2_ant"
proof
  show "reached p \<Longrightarrow> p \<noteq> child2_ant" by (induction rule: reached.induct) (simp_all add: not_ants)
  show "p \<noteq> child2_ant \<Longrightarrow> reached p" using tour_everywhere key_walk_reached start by blast
qed

section \<open>Speeds\<close>

definition speeds :: "panel \<Rightarrow> int \<times> int \<times> int" where
  "speeds s = (x_temp s, y_temp s, z_temp s)"

definition mail :: "key \<Rightarrow> panel \<Rightarrow> panel" where
  "mail k s = s\<lparr>ips_mb := Some (key_code k)\<rparr>"

lemma u8_key [simp]: "u8 (key_code k) = key_code k"
  by (cases k) (simp_all add: KEY_PREVIOUS_def KEY_ENTER_def KEY_NEXT_def KEY_BACK_def u8_def)

lemma bump_speed_inverse:
  assumes "- 32768 \<le> v" and "v < 32768"
  shows "bump_speed KEY_NEXT (bump_speed KEY_PREVIOUS v) = v" "bump_speed KEY_PREVIOUS (bump_speed KEY_NEXT v) = v"
proof -
  have m: "i16 (i16 (v + d) - d) = v" for d
  proof -
    have "i16 (i16 (v + d) - d) = (((v + d + 32768) mod 65536 - d) mod 65536) - 32768" by (simp add: i16_def)
    also have "((v + d + 32768) mod 65536 - d) mod 65536 = (v + 32768) mod 65536" by (simp add: mod_diff_left_eq)
    also have "(v + 32768) mod 65536 = v + 32768" using assms by simp
    finally show ?thesis by simp
  qed
  show "bump_speed KEY_NEXT (bump_speed KEY_PREVIOUS v) = v" "bump_speed KEY_PREVIOUS (bump_speed KEY_NEXT v) = v"
    using m[of 10] m[of "- 10"] by (simp_all add: bump_speed_def KEY_PREVIOUS_def KEY_NEXT_def)
qed

text \<open>What a key does on a page where a speed is set.\<close>

definition speed_pages :: "page set" where
  "speed_pages = {child3_x_change, child3_y_change, child3_z_change}"

definition bump_at :: "page \<Rightarrow> int \<Rightarrow> int \<times> int \<times> int \<Rightarrow> int \<times> int \<times> int" where
  "bump_at p k v = (case v of (a, b, c) \<Rightarrow>
     (if p = child3_x_change then bump_speed k a else a, if p = child3_y_change then bump_speed k b else b,
      if p = child3_z_change then bump_speed k c else c))"

lemma speed_key:
  assumes "cur_index s \<in> speed_pages" and "k \<in> {Prev, Next_key}"
  shows "\<exists>t. ips_mb_recv bd (mail k s) = Some t \<and> cur_index t = cur_index s \<and> speeds t = bump_at (cur_index s) (key_code k) (speeds s)"
proof -
  define p where "p = cur_index s"
  have p: "p \<in> speed_pages" using assms(1) by (simp add: p_def)
  have n: "navigate (key_code k) p = p" "p \<noteq> child2_path_opiton" using assms(2) p by (auto simp: speed_pages_def nav_simps)
  have f: "current_operation (row p) = child3_change" using p by (auto simp: speed_pages_def nav_simps)
  have "ips_mb_recv bd (mail k s)
      = Some (run_child3_change p (key_code k) (draw [Clear] (s\<lparr>ips_mb := None, last_index := p, cur_index := p\<rparr>)))"
    using n by (simp add: ips_mb_recv_def mail_def p_def[symmetric] run_page_def f draw_def Let_def)
  then show ?thesis
    using p by (auto simp: speed_pages_def run_child3_change_def draw_def speeds_def bump_at_def p_def[symmetric] Let_def)
qed

text \<open>
  C33. On a page where a speed is set, the previous key followed by the next key, or the other
  way round, leaves all three speeds as they were, also where the 16-bit value wraps around.
\<close>

theorem speed_keys_undo:
  assumes "cur_index s \<in> speed_pages" and "(k, l) \<in> {(Prev, Next_key), (Next_key, Prev)}"
    and "\<forall>v \<in> {x_temp s, y_temp s, z_temp s}. - 32768 \<le> v \<and> v < 32768"
  shows "\<exists>t u. ips_mb_recv bd (mail k s) = Some t \<and> ips_mb_recv bd (mail l t) = Some u
    \<and> cur_index u = cur_index s \<and> speeds u = speeds s"
proof -
  from speed_key[OF assms(1), of k bd] assms(2) obtain t where
    t: "ips_mb_recv bd (mail k s) = Some t" "cur_index t = cur_index s" "speeds t = bump_at (cur_index s) (key_code k) (speeds s)" by auto
  from speed_key[of t l bd] assms(1,2) t(2) obtain u where
    u: "ips_mb_recv bd (mail l t) = Some u" "cur_index u = cur_index s" "speeds u = bump_at (cur_index s) (key_code l) (speeds t)" by auto
  have "bump_at p (key_code l) (bump_at p (key_code k) (speeds s)) = speeds s" for p
    using assms(2,3) bump_speed_inverse by (auto simp: bump_at_def speeds_def)
  then have "speeds u = speeds s" unfolding u(3) t(2,3) .
  then show ?thesis using t(1) u by blast
qed

section \<open>Gains\<close>

text \<open>A flash driver that erases and stores what it is given.\<close>

definition good_board :: "board \<Rightarrow> bool" where
  "good_board bd \<longleftrightarrow> (\<forall>f. fst (fl_erase bd f) = 0) \<and> (\<forall>d f. fl_read bd (snd (fl_program bd d f)) = d)"

definition gains :: "pids \<Rightarrow> (f32 \<times> f32) list" where
  "gains c = map (\<lambda>p. (gain_p p, gain_i p)) [pid1 c, pid2 c, pid3 c, pid4 c]"


definition test_board :: board where
  "test_board = \<lparr>fl_check = \<lambda>f. f \<noteq> [], fl_erase = \<lambda>_. (0, []), fl_program = \<lambda>d _. (0, d), fl_read = \<lambda>f. f,
     to_bits = \<lambda>v. the (s_int v), of_bits = s_of_int, b_pow = \<lambda>a _. a, b_rand = int\<rparr>"

definition test_panel :: "page \<Rightarrow> panel" where
  "test_panel p = \<lparr>veh = start_robot, cur_index = p, last_index = Main_menu, key_val = 0, ips_mb = None,
     float_buff = map s_of_int [45, 13, 40, 12, 45, 13, 40, 12], int_buff = [], x_temp = 32760, y_temp = 0, z_temp = - 5,
     flash = [1, 2], coor_done = 0, drawn = []\<rparr>"

lemma speed_keys_undo_witness:
  "\<exists>t u. ips_mb_recv test_board (mail Prev (test_panel child3_x_change)) = Some t
    \<and> ips_mb_recv test_board (mail Next_key t) = Some u \<and> speeds u = (32760, 0, - 5)"
proof -
  have "\<exists>t u. ips_mb_recv test_board (mail Prev (test_panel child3_x_change)) = Some t \<and> ips_mb_recv test_board (mail Next_key t) = Some u
    \<and> cur_index u = cur_index (test_panel child3_x_change) \<and> speeds u = speeds (test_panel child3_x_change)"
    by (rule speed_keys_undo) (simp_all add: test_panel_def speed_pages_def)
  moreover have "speeds (test_panel child3_x_change) = (32760, 0, - 5)" by (simp add: speeds_def test_panel_def)
  ultimately show ?thesis by metis
qed


end
