(* ===== verification/Main_Loop.thy ===== *)
theory Main_Loop
  imports Chassis_Safe Corner_Pick Menu_Spec
begin

text \<open>
  \<^verbatim>\<open>USER/src/main.c\<close>: the start-up and the loop that looks for a card with the camera, and the
  system of this loop with the control timer and the gyroscope timer. A turn of the loop is one
  step; the frames of the camera are a stream, a semaphore wait takes the next one.
\<close>

section \<open>Start-up\<close>

text \<open>\<open>gs\<close> are the gyroscope readings of the calibration.\<close>

definition main_init :: "board \<Rightarrow> int list \<Rightarrow> panel \<Rightarrow> panel" where
  "main_init bd gs s =
     (let s = on_veh (\<lambda>r. r\<lparr>heading := icm_calibrate gs (heading r)\<rparr>) s;
          s = on_veh (\<lambda>r. r\<lparr>ctl := pid_init\<rparr>) s;
          s = IPS_INIT bd s;
          s = on_veh (\<lambda>r. r\<lparr>car := flag_init (car r)\<rparr>) s
      in on_veh (emit servo_init) s)"

section \<open>The loop\<close>

record sys =
  rob :: robot
  eye :: shot
  seen :: int
  frame_no :: nat

definition take_shot :: "(int \<Rightarrow> int) \<Rightarrow> (nat \<Rightarrow> int arr2) \<Rightarrow> sys \<Rightarrow> sys option" where
  "take_shot junk cams s = do {
     (b, e) \<leftarrow> get_pic junk (cams (frame_no s)) (eye s);
     Some (s\<lparr>eye := e, frame_no := frame_no s + 1,
       rob := (rob s)\<lparr>pic_ij := s_pic e, car := (car (rob s))\<lparr>is_pic := (if b then 1 else 0)\<rparr>\<rparr>\<rparr>)
   }"

definition wait_ms :: "int \<Rightarrow> sys \<Rightarrow> sys" where
  "wait_ms ms s = s\<lparr>rob := emit [Delay ms] (rob s)\<rparr>"

definition start_approach :: "sys \<Rightarrow> sys" where
  "start_approach s =
     s\<lparr>rob := (rob s)\<lparr>x_pos1 := 0, y_pos1 := 0, car := (car (rob s))\<lparr>motion := 5, pic_flag := 1\<rparr>\<rparr>, seen := 0\<rparr>"

definition main_turn :: "(int \<Rightarrow> int) \<Rightarrow> (nat \<Rightarrow> int arr2) \<Rightarrow> sys \<Rightarrow> sys option" where
  "main_turn junk cams s =
     (let c = car (rob s) in
      map_option (wait_ms 10)
        (if (motion c = 3 \<and> pic_flag c = 0) \<or> motion c = 11 then
           (if seen s = 0 then do {
              s \<leftarrow> take_shot junk cams ((wait_ms 300 s)\<lparr>seen := 1\<rparr>);
              Some (if is_pic (car (rob s)) \<noteq> 0 then start_approach s else s\<lparr>rob := set_motion 11 (rob s)\<rparr>)
            } else do {
              s \<leftarrow> take_shot junk cams s;
              if pic_stop (car (rob s)) \<noteq> 0 then do {
                s \<leftarrow> take_shot junk cams (wait_ms 300 s);
                let s = start_approach s;
                Some (s\<lparr>rob := (rob s)\<lparr>car := (car (rob s))\<lparr>pic_stop := 0\<rparr>\<rparr>\<rparr>)
              } else Some s
            })
         else Some s))"

section \<open>The camera never fails\<close>

definition near_pt :: "int \<Rightarrow> int \<times> int \<Rightarrow> bool" where
  "near_pt k c \<longleftrightarrow> \<bar>fst c\<bar> \<le> k \<and> \<bar>snd c\<bar> \<le> k"

definition near_corners :: "int \<Rightarrow> corners \<Rightarrow> bool" where
  "near_corners k c \<longleftrightarrow> near_pt k (cUL c) \<and> near_pt k (cUR c) \<and> near_pt k (cDL c) \<and> near_pt k (cDR c)"

lemma sobel_total: "\<exists>im'. sobel orig im = Some im'"
proof -
  let ?b = "\<lambda>i j im. wr2 img_width img_height im i j (if \<bar>grad1 orig i j\<bar> + \<bar>grad2 orig i j\<bar> > 89 then 1 else 0)"
  have inner: "\<exists>t. for_up 1 (img_height - 1) (?b i) im = Some t \<and> True" if "1 \<le> i" "i < img_width - 1" for i im
    by (rule for_up_total) (use that in \<open>auto simp: img_height_def c_simps\<close>)
  have "\<exists>t. for_up 1 (img_width - 1) (\<lambda>i. for_up 1 (img_height - 1) (?b i)) im = Some t \<and> True"
    by (rule for_up_total) (use inner in \<open>auto simp: img_width_def\<close>)
  then show ?thesis by (simp add: sobel_def for2_def)
qed

lemma corner_at_near:
  "near_pt 200 (snd s) \<Longrightarrow> near_pt 200 (i, j) \<Longrightarrow> near_pt 200 (snd (corner_at cost lm pix tm i j s))"
  by (auto simp: corner_at_def near_pt_def Let_def split: prod.split)

lemma search4_near:
  assumes "near_pt 200 (snd s)" and "\<forall>i \<in> set us. \<bar>i\<bar> \<le> 200" and "\<forall>j \<in> set js. \<bar>j\<bar> \<le> 200"
  shows "near_pt 200 (snd (search4 pix tm us js s))"
proof -
  have inner: "near_pt 200 (snd (foldl (\<lambda>s j. corner_at plain_cost 10 pix tm i j s) s js))"
    if "near_pt 200 (snd s)" "\<bar>i\<bar> \<le> 200" "\<forall>j \<in> set js. \<bar>j\<bar> \<le> 200" for i s
    using that
  proof (induction js arbitrary: s)
    case (Cons j js)
    then have "near_pt 200 (snd (corner_at plain_cost 10 pix tm i j s))" by (intro corner_at_near) (auto simp: near_pt_def)
    then show ?case using Cons by simp
  qed simp
  show ?thesis using assms unfolding search4_def
    by (induction us arbitrary: s) (simp_all add: inner)
qed

lemma get_similarity_near: "near_corners 200 c \<Longrightarrow> near_corners 200 (get_similarity im junk c)"
proof -
  assume c: "near_corners 200 c"
  obtain i0 j0 i1 j1 where w: "widen (edge_box im) = (i0, j0, i1, j1)" by (metis prod_cases4)
  have b: "0 \<le> i0" "0 \<le> j0" "i1 \<le> 188" "j1 \<le> 120"
    using w by (auto simp: widen_def img_width_def img_height_def COR_H_def COR_W_def split: prod.splits if_splits)
  show ?thesis
    using c b unfolding get_similarity_def w Let_def prod.case match4_all near_corners_def
    by (simp add: search4_near)
qed

lemma cdiv_le: "\<bar>cdiv a b\<bar> \<le> \<bar>a\<bar>"
proof -
  have "\<bar>a\<bar> div \<bar>b\<bar> \<le> \<bar>a\<bar>" using zdiv_mono2[of "\<bar>a\<bar>" 1 "\<bar>b\<bar>"] by (cases "b = 0") simp_all
  moreover have "\<bar>cdiv a b\<bar> \<le> \<bar>a\<bar> div \<bar>b\<bar>" by (simp add: cdiv_def abs_mult sgn_if pos_imp_zdiv_nonneg_iff)
  ultimately show ?thesis by linarith
qed

lemma centre_near:
  assumes "near_corners 210 c" and "centre c w = Some q"
  shows "near_pt 1000 q"
proof -
  note n = assms(1)[unfolded near_corners_def near_pt_def]
  have m: "near_pt 420 (mid a b)" if "near_pt 210 a" "near_pt 210 b" for a b
    using that cdiv_le[of "fst a + fst b" 2] cdiv_le[of "snd a + snd b" 2]
    unfolding mid_def near_pt_def fst_conv snd_conv by linarith
  have a: "near_pt 1000 (add2 a i j)" if "near_pt 420 a" "\<bar>i\<bar> \<le> 30" "\<bar>j\<bar> \<le> 30" for a i j
    using that unfolding near_pt_def add2_def fst_conv snd_conv by linarith
  have up: "near_pt 210 a \<Longrightarrow> near_pt 420 a" "near_pt 420 a \<Longrightarrow> near_pt 1000 a" for a by (simp_all add: near_pt_def)
  have f: "near_pt 1000 (cdiv (fst (cUR c) + fst (cDL c) + fst (cDR c) + fst (cUL c)) 4, cdiv (snd (cUL c) + snd (cUR c) + snd (cDL c) + snd (cDR c)) 4)"
  proof -
    have "\<bar>cdiv (x + y + z + u) 4\<bar> \<le> 1000" if "\<bar>x\<bar> \<le> 210" "\<bar>y\<bar> \<le> 210" "\<bar>z\<bar> \<le> 210" "\<bar>u\<bar> \<le> 210" for x y z u
      using that cdiv_le[of "x + y + z + u" 4] by linarith
    then show ?thesis using n unfolding near_pt_def fst_conv snd_conv by blast
  qed
  note nn = assms(1)[unfolded near_corners_def]
  have v1: "near_pt 1000 (add2 (cUL c) 30 (- 30))" "near_pt 1000 (add2 (cUR c) (- 30) (- 30))" "near_pt 1000 (add2 (cDL c) 30 30)"
    "near_pt 1000 (add2 (cDR c) (- 30) 30)"
    using nn by (intro a up(1); simp)+
  have v2: "near_pt 1000 (add2 (mid (cUL c) (cUR c)) 0 (- 30))" "near_pt 1000 (add2 (mid (cUL c) (cDL c)) 30 0)"
    "near_pt 1000 (add2 (mid (cDL c) (cDR c)) 0 30)" "near_pt 1000 (add2 (mid (cUR c) (cDR c)) (- 30) 0)"
    using nn by (intro a m; simp)+
  have v3: "near_pt 1000 (mid (cUL c) (cDR c))" "near_pt 1000 (mid (cUR c) (cDL c))" "near_pt 1000 (mid (cDL c) (cUR c))"
    using nn by (intro up(2) m; simp)+
  obtain x y z u where w: "w = (x, y, z, u)" by (metis prod_cases4)
  show ?thesis
    using assms(2) unfolding w centre_def
    by (cases x; cases y; cases z; cases u; simp; use v1 v2 v3 f in blast)
qed

lemma get_center_total:
  assumes "near_corners 200 c" and "near_pt 1000 p"
  shows "\<exists>b c' q. get_center c p = Some (b, c', q) \<and> near_pt 1000 q"
proof -
  let ?c = "shift_corners c"
  have sh: "near_pt 210 (add2 a i j)" if "near_pt 200 a" "\<bar>i\<bar> \<le> 9" "\<bar>j\<bar> \<le> 9" for a i j
    using that unfolding near_pt_def add2_def fst_conv snd_conv by linarith
  have n: "near_corners 210 ?c" using assms(1) by (simp add: near_corners_def shift_corners_def sh)
  have d: "\<exists>v. dist_of a b = Some v" if "near_pt 210 a" "near_pt 210 b" for a b
  proof -
    have "\<bar>x - y\<bar> < 2 ^ 19" if "\<bar>x\<bar> \<le> 210" "\<bar>y\<bar> \<le> 210" for x y :: int using that by simp
    then show ?thesis using that isqrt_dist[of "fst a" "fst b" "snd a" "snd b"] unfolding near_pt_def dist_of_def by blast
  qed
  have s: "\<exists>v. side a b = Some v" "\<exists>v. diagonal a b = Some v" if "near_pt 210 a" "near_pt 210 b" for a b
    using d[OF that] by (auto simp: side_def diagonal_def)
  note sn = n[unfolded near_corners_def]
  have "\<exists>r. select ?c w = Some r" for w
  proof -
    obtain a b e f where w: "w = (a, b, e, f)" by (metis prod_cases4)
    obtain v1 v2 v3 v4 v5 v6 where "side (cUL ?c) (cUR ?c) = Some v1" "side (cUL ?c) (cDL ?c) = Some v2"
      "diagonal (cUL ?c) (cDR ?c) = Some v3" "side (cUR ?c) (cDR ?c) = Some v4" "diagonal (cUR ?c) (cDL ?c) = Some v5"
      "side (cDL ?c) (cDR ?c) = Some v6"
      using s sn by metis
    then show ?thesis unfolding w select_def keep_if_def third_def by (cases a; cases b; cases e; cases f) simp_all
  qed
  then obtain r where r: "select ?c (found (cUL c), found (cUR c), found (cDL c), found (cDR c)) = Some r" by blast
  show ?thesis
    using r assms(2) centre_near[OF n] unfolding get_center_def Let_def
    by (cases p) (auto split: option.split)
qed

lemma get_pic_total:
  assumes "near_pt 1000 (s_pic s)"
  shows "\<exists>b t. get_pic junk cam s = Some (b, t) \<and> near_pt 1000 (s_pic t)"
proof -
  define o2 where "o2 = map_img (\<lambda>i j v. if v < THRE then 0 else 255) (map_img (\<lambda>i j _. cam (img_height - 1 - j) i) (s_orig s))"
  obtain im where im: "sobel o2 (s_img s) = Some im" using sobel_total by blast
  have "near_corners 200 no_corners" by (simp add: near_corners_def near_pt_def no_corners_def)
  from get_center_total[OF get_similarity_near[OF this] assms] obtain b c q where
    c: "get_center (get_similarity im junk no_corners) (s_pic s) = Some (b, c, q)" "near_pt 1000 q" by blast
  show ?thesis using c im unfolding get_pic_def Let_def o2_def[symmetric] by simp
qed

section \<open>The system\<close>

definition sys_ok :: "sys \<Rightarrow> bool" where
  "sys_ok s \<longleftrightarrow> robot_ok (rob s) \<and> heading_ok (heading (rob s)) \<and> near_pt 1000 (s_pic (eye s))"

lemma take_shot_ok:
  assumes "sys_ok s"
  shows "\<exists>t. take_shot junk cams s = Some t \<and> sys_ok t \<and> seen t = seen s
    \<and> (\<exists>p b. rob t = (rob s)\<lparr>pic_ij := p, car := (car (rob s))\<lparr>is_pic := b\<rparr>\<rparr>)"
proof -
  have e: "near_pt 1000 (s_pic (eye s))" using assms by (simp add: sys_ok_def)
  obtain b t where t: "get_pic junk (cams (frame_no s)) (eye s) = Some (b, t)" "near_pt 1000 (s_pic t)"
    using get_pic_total[OF e] by blast
  have "robot_ok ((rob s)\<lparr>pic_ij := s_pic t, car := (car (rob s))\<lparr>is_pic := if b then 1 else 0\<rparr>\<rparr>)"
    using assms t(2) by (simp add: sys_ok_def robot_ok_def near_pt_def)
  define u where "u = s\<lparr>eye := t, frame_no := frame_no s + 1,
      rob := (rob s)\<lparr>pic_ij := s_pic t, car := (car (rob s))\<lparr>is_pic := if b then 1 else 0\<rparr>\<rparr>\<rparr>"
  have u: "seen u = seen s" "rob u = (rob s)\<lparr>pic_ij := s_pic t, car := (car (rob s))\<lparr>is_pic := if b then 1 else 0\<rparr>\<rparr>"
    by (simp_all add: u_def)
  have "sys_ok u" using assms t(2) \<open>robot_ok _\<close> by (simp add: sys_ok_def u_def)
  moreover have "take_shot junk cams s = Some u" using t(1) by (simp add: take_shot_def u_def)
  ultimately show ?thesis using u by metis
qed

lemma wait_ok_sys [simp]: "sys_ok (wait_ms k s) = sys_ok s" "seen (wait_ms k s) = seen s" "car (rob (wait_ms k s)) = car (rob s)"
  by (simp_all add: wait_ms_def sys_ok_def emit_def robot_ok_def)

lemma seen_ok [simp]: "sys_ok (s\<lparr>seen := k\<rparr>) = sys_ok s"
  by (simp add: sys_ok_def)

lemma start_approach_ok:
  "sys_ok s \<Longrightarrow> sys_ok (start_approach s)"
  by (simp add: sys_ok_def start_approach_def robot_ok_def mag32_const)

lemma set_flags_ok: "sys_ok s \<Longrightarrow> motion (f (car (rob s))) \<noteq> 6 \<Longrightarrow> sys_ok (s\<lparr>rob := (rob s)\<lparr>car := f (car (rob s))\<rparr>\<rparr>)"
  by (simp add: sys_ok_def robot_ok_def)

text \<open>The approach begins: mode 5, relative position zero, the search over.\<close>

definition approaching :: "sys \<Rightarrow> bool" where
  "approaching s \<longleftrightarrow> motion (car (rob s)) = 5 \<and> pic_flag (car (rob s)) = 1 \<and> x_pos1 (rob s) = 0 \<and> y_pos1 (rob s) = 0 \<and> seen s = 0"

lemma main_turn_ok:
  assumes "sys_ok s"
  shows "\<exists>t. main_turn junk cams s = Some t \<and> sys_ok t
    \<and> (motion (car (rob s)) = 11 \<longrightarrow> seen s \<noteq> 0 \<longrightarrow>
         (if pic_stop (car (rob s)) \<noteq> 0 then approaching t
          else motion (car (rob t)) = 11 \<and> seen t = seen s \<and> pic_stop (car (rob t)) = 0))"
proof (cases "(motion (car (rob s)) = 3 \<and> pic_flag (car (rob s)) = 0) \<or> motion (car (rob s)) = 11")
  case False
  then have "main_turn junk cams s = Some (wait_ms 10 s)" by (auto simp: main_turn_def Let_def)
  then show ?thesis using assms False by simp
next
  case True
  show ?thesis
  proof (cases "seen s = 0")
    case seen: True
    have "sys_ok ((wait_ms 300 s)\<lparr>seen := 1\<rparr>)" using assms by simp
    from take_shot_ok[OF this, of junk cams] obtain t where
      t: "take_shot junk cams ((wait_ms 300 s)\<lparr>seen := 1\<rparr>) = Some t" "sys_ok t" by blast
    have "sys_ok (t\<lparr>rob := set_motion 11 (rob t)\<rparr>)" using t(2) by (simp add: sys_ok_def set_motion_def robot_ok_def)
    then show ?thesis using True seen t by (auto simp: main_turn_def Let_def start_approach_ok)
  next
    case seen: False
    obtain t p b where t: "take_shot junk cams s = Some t" "sys_ok t" "seen t = seen s"
      "rob t = (rob s)\<lparr>pic_ij := p, car := (car (rob s))\<lparr>is_pic := b\<rparr>\<rparr>"
      using take_shot_ok[OF assms, of junk cams] by blast
    show ?thesis
    proof (cases "pic_stop (car (rob s)) = 0")
      case True
      then show ?thesis using \<open>_ \<or> _\<close> seen t by (auto simp: main_turn_def Let_def)
    next
      case False
      have "sys_ok (wait_ms 300 t)" using t(2) by simp
      from take_shot_ok[OF this, of junk cams] obtain u where u: "take_shot junk cams (wait_ms 300 t) = Some u" "sys_ok u" by blast
      let ?v = "(start_approach u)\<lparr>rob := (rob (start_approach u))\<lparr>car := (car (rob (start_approach u)))\<lparr>pic_stop := 0\<rparr>\<rparr>\<rparr>"
      have v: "sys_ok ?v" using start_approach_ok[OF u(2)] by (simp add: sys_ok_def robot_ok_def)
      have turn: "main_turn junk cams s = Some (wait_ms 10 ?v)" using True False seen t(1,4) u(1) by (simp add: main_turn_def Let_def)
      have "approaching (wait_ms 10 ?v)" by (simp add: approaching_def start_approach_def wait_ms_def emit_def)
      then show ?thesis using turn v False by simp
    qed
  qed
qed

text \<open>
  The control timer, the gyroscope timer and the main loop, in any order, with any encoder counts
  and gyroscope readings.
\<close>

inductive sys_step :: "mlib \<Rightarrow> (int \<Rightarrow> int) \<Rightarrow> (nat \<Rightarrow> int arr2) \<Rightarrow> sys \<Rightarrow> sys \<Rightarrow> bool"
  for m junk cams where
  control: "motorControl_timer1 m quad (rob s) = Some (r, q) \<Longrightarrow> sys_step m junk cams s (s\<lparr>rob := r\<rparr>)"
| gyro: "int16_rates g \<Longrightarrow> icm_read_timer3 g (heading (rob s), car (rob s)) = (h, c) \<Longrightarrow>
    sys_step m junk cams s (s\<lparr>rob := (rob s)\<lparr>heading := h, car := c\<rparr>\<rparr>)"
| main: "main_turn junk cams s = Some t \<Longrightarrow> sys_step m junk cams s t"

inductive_cases sys_stepE: "sys_step m junk cams s t"

lemma mode_heading: "run_mode m r = Some r' \<Longrightarrow> heading r' = heading r"
  unfolding run_mode_def motionControl_def to_pic_def to_pic2_def go_point_def
  by (auto simp: steer_to_def drive_def odo_position_def odo_pos1_def approach_def emit_def set_motion_def pic_mag_def
      drop_it_def go_out_def go_in_def protect_back_def to_bar_def to_edge_def sideways_def wait_get_def wait_drop_def Let_def
      split: if_splits bind_splits)

lemma tick_heading: "motorControl_timer1 m quad r = Some (r', q) \<Longrightarrow> heading r' = heading r"
  using mode_heading
  by (fastforce simp: motorControl_timer1_def emit_def run_pids_def set_targets_def read_speeds_def Let_def split: bind_splits prod.splits)

lemma control_ok:
  assumes "mlib_ok m" and "sys_ok s"
  shows "\<exists>r q. motorControl_timer1 m quad (rob s) = Some (r, q)"
    and "motorControl_timer1 m quad (rob s) = Some (r, q) \<Longrightarrow> sys_ok (s\<lparr>rob := r\<rparr>)"
proof -
  have ok: "robot_ok (rob s)" using assms(2) by (simp add: sys_ok_def)
  obtain r' q' where t: "motorControl_timer1 m quad (rob s) = Some (r', q')" "robot_ok r'"
    using motor_tick_ok[OF assms(1) ok] by blast
  then show "\<exists>r q. motorControl_timer1 m quad (rob s) = Some (r, q)" by blast
  show "sys_ok (s\<lparr>rob := r\<rparr>)" if "motorControl_timer1 m quad (rob s) = Some (r, q)"
    using t that tick_heading[OF that] assms(2) by (simp add: sys_ok_def)
qed

lemma gyro_ok:
  assumes "sys_ok s" and "int16_rates g" and "icm_read_timer3 g (heading (rob s), car (rob s)) = (h, c)"
  shows "sys_ok (s\<lparr>rob := (rob s)\<lparr>heading := h, car := c\<rparr>\<rparr>)"
proof -
  have h: "h = icm_step g (heading (rob s))" and c: "motion c = motion (car (rob s))"
    using assms(3) by (auto simp: icm_read_timer3_def Let_def)
  have k: "heading_ok h" using icm_step_ok assms(1,2) by (simp add: h sys_ok_def)
  then have "btw 0 360 (theta h)" by (simp add: heading_ok_def)
  then show ?thesis using assms(1) k c by (simp add: sys_ok_def robot_ok_def)
qed

lemma sys_step_ok: "sys_step m junk cams s t \<Longrightarrow> mlib_ok m \<Longrightarrow> sys_ok s \<Longrightarrow> sys_ok t"
  by (erule sys_stepE) (use control_ok(2) gyro_ok main_turn_ok[of s junk cams] in auto)

text \<open>In the invariant no step is undefined and the heading is in its circle.\<close>

definition runs_on :: "mlib \<Rightarrow> (int \<Rightarrow> int) \<Rightarrow> (nat \<Rightarrow> int arr2) \<Rightarrow> sys \<Rightarrow> bool" where
  "runs_on m junk cams s \<longleftrightarrow> (\<forall>quad. \<exists>r q. motorControl_timer1 m quad (rob s) = Some (r, q)) \<and> (\<exists>t. main_turn junk cams s = Some t)
     \<and> btw 0 360 (theta (heading (rob s)))"

lemma sys_ok_runs: "mlib_ok m \<Longrightarrow> sys_ok s \<Longrightarrow> runs_on m junk cams s"
  using control_ok(1)[of m s] main_turn_ok[of s junk cams] by (auto simp: runs_on_def sys_ok_def heading_ok_def)

interpretation firmware: safe_machine "sys_step m junk cams" "\<lambda>s. mlib_ok m \<and> sys_ok s" "runs_on m junk cams" for m junk cams
  by unfold_locales (auto intro: sys_step_ok sys_ok_runs)

section \<open>From power-on\<close>

text \<open>The globals before \<open>main\<close>: all zero but \<open>pwm_lst\<close> and the counter of \<open>drop_it\<close>.\<close>

definition zero_robot :: "pids \<Rightarrow> plan \<Rightarrow> robot" where
  "zero_robot c p = start_robot\<lparr>car := zero_status, ctl := c, route := p, pic_cnt := 0\<rparr>"

definition zero_route :: "plan \<Rightarrow> bool" where
  "zero_route p \<longleftrightarrow> path_tot (lg p) 0 = 0 \<and> lsttt p = 0 \<and> px_std p 0 = 0 \<and> py_std p 0 = 0"

definition boot :: "board \<Rightarrow> int list \<Rightarrow> panel \<Rightarrow> shot \<Rightarrow> sys" where
  "boot bd gs s e = \<lparr>rob = veh (main_init bd gs s), eye = e, seen = 0, frame_no = 0\<rparr>"

lemma boot_ok:
  assumes "veh s = zero_robot c p" and "zero_route p" and "\<forall>g \<in> set gs. - 32768 \<le> g \<and> g < 32768" and "s_pic e = (0, 0)"
  shows "sys_ok (boot bd gs s e)"
proof -
  have h: "heading_ok (icm_calibrate gs still_imu)" by (rule calibrate_ok[OF assms(3)])
  have t: "btw 0 360 (theta (icm_calibrate gs still_imu))" using h by (simp add: heading_ok_def)
  have g: "mag32 7 (s_of_int 45)" "mag32 7 (s_of_int 13)" by (simp_all add: mag32_def)
  have p: "pid_ok (q\<lparr>gain_p := s_of_int 45, gain_i := s_of_int 13\<rparr>)" if "pid_ok q" for q
    using that g by (simp add: pid_ok_def del: s_of_int_small)
  have z: "mag32 k 0" "a \<le> 0 \<Longrightarrow> 0 \<le> b \<Longrightarrow> btw a b 0" for k a b by (simp_all add: mag32_def btw_def one_F64)
  define C where "C = set_gains (concat (replicate 4 [s_of_int 45, s_of_int 13])) (set_gains (map (of_bits bd) (fl_read bd (flash s))) pid_init)"
  define r where "r = (zero_robot c p)\<lparr>heading := icm_calibrate gs still_imu, ctl := C, car := flag_init zero_status\<rparr>"
  have init: "veh (main_init bd gs s) = emit servo_init r"
    using assms(1) by (simp add: main_init_def on_veh_def IPS_INIT_def put_gains_def Let_def zero_robot_def start_robot_def r_def C_def)
  have C: "pid_ok (pid1 C)" "pid_ok (pid2 C)" "pid_ok (pid3 C)" "pid_ok (pid4 C)" "pid_ok (pid_yaw C)"
    using pid_init_ok p by (simp_all add: C_def set_gains_def numeral_eq_Suc del: s_of_int_small)
  have "robot_ok r"
    using assms(2) t C by (simp add: r_def zero_robot_def zero_route_def start_robot_def robot_ok_def z int16_wheels_def NUM_def NP_def flag_init_def)
  then show ?thesis
    using h assms(4) by (simp add: boot_def sys_ok_def near_pt_def init) (simp add: r_def emit_def)
qed


lemma zero_small_plan: "zero_route (small_plan\<lparr>lsttt := 0\<rparr>)"
  by (simp add: zero_route_def small_plan_def blank_legs_def)


section \<open>The search for a card\<close>

lemma tick_back:
  assumes "motorControl_timer1 m quad r0 = Some (r, q)" and "motion (car r0) = 11"
  shows "car r = (if is_pic (car r0) \<noteq> 0 then (car r0)\<lparr>pic_stop := 1\<rparr> else car r0)"
    and "is_pic (car r0) \<noteq> 0 \<Longrightarrow> cmd_x r = 0 \<and> cmd_y r = 0"
proof -
  obtain w r1 where w: "run_mode m (read_speeds w r0) = Some r1" "car r = car r1" "cmd_x r = cmd_x r1" "cmd_y r = cmd_y r1"
    using assms(1) by (auto simp: motorControl_timer1_def emit_def run_pids_def set_targets_def Let_def split: bind_splits prod.splits)
  have "run_mode m (read_speeds w r0) = Some (protect_back m (read_speeds w r0))"
    using assms(2) by (simp add: run_mode_def read_speeds_def)
  then have "r1 = protect_back m (read_speeds w r0)" using w(1) by simp
  note e = w(2-4)[unfolded this]
  show "car r = (if is_pic (car r0) \<noteq> 0 then (car r0)\<lparr>pic_stop := 1\<rparr> else car r0)"
    using e by (simp add: protect_back_def read_speeds_def Let_def)
  show "is_pic (car r0) \<noteq> 0 \<Longrightarrow> cmd_x r = 0 \<and> cmd_y r = 0"
    using e by (simp add: protect_back_def read_speeds_def Let_def)
qed



end
