(* ===== verification/Handshake.thy ===== *)
theory Handshake
  imports Chassis_Safe
begin

text \<open>
  The handshake between the control timer (\<open>wait_get\<close>) and the arm task (\<open>servo_ctrl\<close>) when a
  card is picked up, with their interleaving: the timer runs every 10 ms, the arm task goes on
  when its waits are over, the serial line reports a class at any time, and while the car is not
  waiting for the arm its mode may change to any other but the drop mode 14. \<open>due\<close> is the time
  the arm task still waits, \<open>gets\<close> counts how often it has switched the magnet on and \<open>goes\<close> how
  often the car has left a card.
\<close>

record hs =
  rb :: robot
  job :: prog
  due :: int
  gets :: nat
  goes :: nat

fun total_delay :: "act list \<Rightarrow> int" where
  "total_delay [] = 0"
| "total_delay (Delay ms # as) = ms + total_delay as"
| "total_delay (_ # as) = total_delay as"

definition arm_turn :: "hs \<Rightarrow> hs" where
  "arm_turn s =
     (case job s of
        Halt \<Rightarrow> s\<lparr>job := servo_ctrl (rb s)\<rparr>
      | Step f k \<Rightarrow>
          (let r = f (rb s); new = drop (length (acts (rb s))) (acts r)
           in s\<lparr>rb := r, job := k, due := total_delay new, gets := gets s + count_list new (Pin C5 1)\<rparr>)
      | Test b k l \<Rightarrow> s\<lparr>job := (if b (rb s) then k else l)\<rparr>)"

inductive hs_step :: "hs \<Rightarrow> hs \<Rightarrow> bool" where
  wait: "motion (car (rb s)) = 13 \<Longrightarrow> r = wait_get (rb s) \<Longrightarrow>
    hs_step s (s\<lparr>rb := r, due := due s - 10, goes := goes s + (if motion (car r) = 1 then 1 else 0)\<rparr>)"
| drive: "motion (car (rb s)) \<noteq> 13 \<Longrightarrow> k \<noteq> 14 \<Longrightarrow> car r = (car (rb s))\<lparr>motion := k\<rparr> \<Longrightarrow>
    hs_step s (s\<lparr>rb := r, due := due s - 10\<rparr>)"
| report: "f \<in> {1, 2, 3} \<Longrightarrow> car r = (car (rb s))\<lparr>servo_flag := f, uart_flag := 1\<rparr> \<Longrightarrow> hs_step s (s\<lparr>rb := r\<rparr>)"
| arm: "due s \<le> 0 \<Longrightarrow> hs_step s (arm_turn s)"

section \<open>The steps of a pick\<close>

abbreviation finish :: prog where
  "finish \<equiv> Step (flags (servo_flag_ctrl_update (\<lambda>_. 0))) (Step (emit [Delay 5]) Halt)"

abbreviation put_ready :: prog where
  "put_ready \<equiv> Step (flags (put_flag_update (\<lambda>_. 1))) finish"

definition clear_tail :: prog where "clear_tail = Step (flags (drop_tail_flag_update (\<lambda>_. 0))) put_ready"
definition turn_tail :: prog where "turn_tail = Step (arm (servo_rote_ctrl DROP_TAIL)) clear_tail"
definition test_tail :: prog where "test_tail = Test (\<lambda>r. drop_tail_flag (car r) \<noteq> 0) turn_tail put_ready"
definition wait_tail :: prog where "wait_tail = Step (emit [Delay 15]) test_tail"
definition reset_arm :: prog where "reset_arm = Step (arm servo_reset) put_ready"
definition test_last :: prog where "test_last = Test (\<lambda>r. target_cnt r < pic_cnt r) reset_arm wait_tail"
definition putting :: "(int \<Rightarrow> act list \<times> int) \<Rightarrow> prog" where "putting put = Step (arm put) test_last"
definition waiting :: "(int \<Rightarrow> act list \<times> int) \<Rightarrow> prog" where "waiting put = Step (emit [Delay 250]) (putting put)"
definition lifting :: "(int \<Rightarrow> act list \<times> int) \<Rightarrow> prog" where "lifting put = Step (arm servo_reset) (waiting put)"
definition got :: "(int \<Rightarrow> act list \<times> int) \<Rightarrow> prog" where "got put = Step (flags (pick_flag_update (\<lambda>_. 1))) (lifting put)"

lemma pick_job_steps: "pick_job put finish = Step (arm servo_get) (got put)"
  by (simp add: pick_job_def got_def lifting_def waiting_def putting_def test_last_def reset_arm_def wait_tail_def
      test_tail_def turn_tail_def clear_tail_def)

definition puts :: "(int \<Rightarrow> act list \<times> int) set" where
  "puts = {servo_put_left, servo_put_right, servo_put_tail}"

text \<open>Only \<open>servo_get\<close> switches the magnet on, once.\<close>

abbreviation on_count :: "act list \<Rightarrow> nat" where "on_count as \<equiv> count_list as (Pin C5 1)"

lemma count_append: "count_list (xs @ ys) x = count_list xs x + count_list ys x"
  by (induction xs) auto

lemma on_ramp: "on_count (ramp ch a d n ms) = 0"
proof -
  have "on_count (concat (map (\<lambda>i. [Duty ch (a + d * i * 10), Delay ms]) js)) = 0" for js
    by (induction js) auto
  then show ?thesis by (simp add: ramp_def)
qed

lemma on_rote: "on_count (fst (servo_rote_ctrl tar l)) = 0"
  by (simp add: servo_rote_ctrl_def on_ramp count_append Let_def)

lemma on_turn: "on_count (fst (turn_then tar f l)) = on_count (f (fst (servo_rote_ctrl tar l)))"
  by (simp add: turn_then_def case_prod_unfold Let_def)

lemma on_arm:
  "on_count (fst (servo_get l)) = 1" "on_count (fst (servo_reset l)) = 0"
  "put \<in> puts \<Longrightarrow> on_count (fst (put l)) = 0"
  by (auto simp: servo_get_def servo_reset_def puts_def servo_put_left_def servo_put_right_def servo_put_tail_def on_turn
      put_down_def on_ramp on_rote count_append Let_def)

lemma arm_effect [simp]: "car (arm f r) = car r" "drop (length (acts r)) (acts (arm f r)) = fst (f (pwm_lst r))"
  by (simp_all add: arm_def emit_def case_prod_unfold Let_def)

lemma arm_acts: "acts (arm f r) = acts r @ fst (f (pwm_lst r))"
  by (simp add: arm_def emit_def case_prod_unfold Let_def)

lemma flags_effect [simp]: "car (flags f r) = f (car r)" "drop (length (acts r)) (acts (flags f r)) = []"
  by (simp_all add: flags_def)

lemma emit_effect [simp]: "car (emit as r) = car r" "drop (length (acts r)) (acts (emit as r)) = as"
  by (simp_all add: emit_def)

section \<open>The invariant\<close>

text \<open>The card is being picked: the car waits, and the pick is not yet answered.\<close>

definition at_card :: "hs \<Rightarrow> bool" where
  "at_card s \<longleftrightarrow> motion (car (rb s)) = 13 \<and> uart_flag (car (rb s)) \<noteq> 0 \<and> put_flag (car (rb s)) \<noteq> 0 \<and> servo_flag_ctrl (car (rb s)) \<noteq> 0"

definition picked :: "hs \<Rightarrow> bool" where
  "picked s \<longleftrightarrow> at_card s \<and> pick_flag (car (rb s)) \<noteq> 0 \<and> gets s = goes s + 1"

text \<open>The car has gone on with the card while the arm puts it away.\<close>

definition away :: "hs \<Rightarrow> bool" where
  "away s \<longleftrightarrow> pick_flag (car (rb s)) = 0 \<and> put_flag (car (rb s)) = 0 \<and> gets s = goes s"

definition free :: "hs \<Rightarrow> bool" where
  "free s \<longleftrightarrow> pick_flag (car (rb s)) = 0 \<and> gets s = goes s \<and> (servo_flag_ctrl (car (rb s)) \<noteq> 0 \<longrightarrow> at_card s)"

definition phase :: "hs \<Rightarrow> bool" where
  "phase s \<longleftrightarrow>
     (job s \<in> {Halt, Step (emit [Delay 5]) Halt} \<and> free s)
   \<or> (\<exists>put \<in> puts.
        job s = Step (arm servo_get) (got put) \<and> at_card s \<and> pick_flag (car (rb s)) = 0 \<and> gets s = goes s
      \<or> job s = got put \<and> at_card s \<and> pick_flag (car (rb s)) = 0 \<and> gets s = goes s + 1
      \<or> job s \<in> {lifting put, waiting put} \<and> (picked s \<or> away s)
      \<or> job s = putting put \<and> (picked s \<and> due s = 250 \<or> away s))
   \<or> (job s \<in> {test_last, reset_arm, wait_tail, test_tail, turn_tail, clear_tail, put_ready} \<and> away s)
   \<or> (job s = finish \<and> pick_flag (car (rb s)) = 0 \<and> gets s = goes s)"

definition hs_ok :: "hs \<Rightarrow> bool" where
  "hs_ok s \<longleftrightarrow> phase s \<and> (uart_flag (car (rb s)) \<noteq> 0 \<longrightarrow> servo_flag (car (rb s)) \<in> {1, 2, 3})"

lemmas hs_defs = at_card_def picked_def away_def free_def

lemma wait_ok_hs:
  assumes "hs_ok s" and "motion (car (rb s)) = 13"
  shows "hs_ok (s\<lparr>rb := wait_get (rb s), due := due s - 10,
    goes := goes s + (if motion (car (wait_get (rb s))) = 1 then 1 else 0)\<rparr>)"
proof -
  define c where "c = car (rb s)"
  consider "uart_flag c = 0 \<or> put_flag c = 0" | "uart_flag c \<noteq> 0" "put_flag c \<noteq> 0" "pick_flag c = 0"
    | "uart_flag c \<noteq> 0" "put_flag c \<noteq> 0" "pick_flag c \<noteq> 0" by blast
  then show ?thesis
  proof cases
    case 1
    then have "wait_get (rb s) = rb s" by (auto simp: wait_get_def c_def)
    then show ?thesis using assms 1 by (auto simp: hs_ok_def phase_def hs_defs c_def)
  next
    case 2
    then have "car (wait_get (rb s)) = (car (rb s))\<lparr>servo_flag_ctrl := 1\<rparr>" by (simp add: wait_get_def c_def Let_def)
    then show ?thesis using assms 2 by (auto simp: hs_ok_def phase_def hs_defs c_def)
  next
    case 3
    then have "motion (car (wait_get (rb s))) = 1" "pick_flag (car (wait_get (rb s))) = 0" "uart_flag (car (wait_get (rb s))) = 0"
      "put_flag (car (wait_get (rb s))) = 0"
      by (simp_all add: wait_get_def c_def Let_def)
    then show ?thesis using assms 3 by (auto simp: hs_ok_def phase_def hs_defs c_def)
  qed
qed

lemma phase_intros:
  "job s \<in> {Halt, Step (emit [Delay 5]) Halt} \<Longrightarrow> free s \<Longrightarrow> phase s"
  "put \<in> puts \<Longrightarrow> job s = Step (arm servo_get) (got put) \<Longrightarrow> at_card s \<Longrightarrow> pick_flag (car (rb s)) = 0 \<Longrightarrow> gets s = goes s \<Longrightarrow> phase s"
  "put \<in> puts \<Longrightarrow> job s = got put \<Longrightarrow> at_card s \<Longrightarrow> pick_flag (car (rb s)) = 0 \<Longrightarrow> gets s = goes s + 1 \<Longrightarrow> phase s"
  "put \<in> puts \<Longrightarrow> job s \<in> {lifting put, waiting put} \<Longrightarrow> picked s \<or> away s \<Longrightarrow> phase s"
  "put \<in> puts \<Longrightarrow> job s = putting put \<Longrightarrow> picked s \<and> due s = 250 \<or> away s \<Longrightarrow> phase s"
  "job s \<in> {test_last, reset_arm, wait_tail, test_tail, turn_tail, clear_tail, put_ready} \<Longrightarrow> away s \<Longrightarrow> phase s"
  "job s = finish \<Longrightarrow> pick_flag (car (rb s)) = 0 \<Longrightarrow> gets s = goes s \<Longrightarrow> phase s"
  unfolding phase_def by blast+

lemma phase_cases:
  assumes "phase s"
  obtains (halt) "job s = Halt" "free s"
    | (five) "job s = Step (emit [Delay 5]) Halt" "free s"
    | (get) put where "put \<in> puts" "job s = Step (arm servo_get) (got put)" "at_card s" "pick_flag (car (rb s)) = 0" "gets s = goes s"
    | (got) put where "put \<in> puts" "job s = got put" "at_card s" "pick_flag (car (rb s)) = 0" "gets s = goes s + 1"
    | (lift) put where "put \<in> puts" "job s = lifting put" "picked s \<or> away s"
    | (wait) put where "put \<in> puts" "job s = waiting put" "picked s \<or> away s"
    | (put) put where "put \<in> puts" "job s = putting put" "picked s \<and> due s = 250 \<or> away s"
    | (rest) "job s \<in> {test_last, reset_arm, wait_tail, test_tail, turn_tail, clear_tail}" "away s"
    | (ready) "job s = put_ready" "away s"
    | (last) "job s = finish" "pick_flag (car (rb s)) = 0" "gets s = goes s"
  using assms unfolding phase_def by blast

text \<open>A step that leaves the arm task and the flags of the pick alone keeps the phase.\<close>

lemma phase_keep:
  assumes "job t = job s" "gets t = gets s" "goes t = goes s" "pick_flag (car (rb t)) = pick_flag (car (rb s))"
    and "free s \<Longrightarrow> free t" "at_card s \<Longrightarrow> at_card t" "picked s \<Longrightarrow> picked t \<and> due t = due s" "away s \<Longrightarrow> away t"
    and "phase s"
  shows "phase t"
  using assms(9)
proof (cases rule: phase_cases)
  case halt
  then show ?thesis using assms(1,5) by (intro phase_intros(1)) simp_all
next
  case five
  then show ?thesis using assms(1,5) by (intro phase_intros(1)) simp_all
next
  case get
  then show ?thesis using assms(1-4,6) by (intro phase_intros(2)[OF get(1)]) simp_all
next
  case got
  then show ?thesis using assms(1-4,6) by (intro phase_intros(3)[OF got(1)]) simp_all
next
  case lift
  then show ?thesis using assms(1,7,8) by (intro phase_intros(4)[OF lift(1)]) auto
next
  case wait
  then show ?thesis using assms(1,7,8) by (intro phase_intros(4)[OF wait(1)]) auto
next
  case put
  then show ?thesis using assms(1,7,8) by (intro phase_intros(5)[OF put(1)]) auto
next
  case rest
  then show ?thesis using assms(1,8) by (intro phase_intros(6)) auto
next
  case ready
  then show ?thesis using assms(1,8) by (intro phase_intros(6)) auto
next
  case last
  then show ?thesis using assms(1-4) by (intro phase_intros(7)) simp_all
qed

lemma drive_ok_hs:
  assumes "hs_ok s" and "motion (car (rb s)) \<noteq> 13" and "car r = (car (rb s))\<lparr>motion := k\<rparr>"
  shows "hs_ok (s\<lparr>rb := r, due := due s - 10\<rparr>)"
proof -
  have "phase (s\<lparr>rb := r, due := due s - 10\<rparr>)"
    by (rule phase_keep[where s = s]) (use assms in \<open>auto simp: hs_ok_def hs_defs\<close>)
  then show ?thesis using assms by (simp add: hs_ok_def)
qed

lemma report_ok_hs:
  assumes "hs_ok s" and "f \<in> {1, 2, 3}" and "car r = (car (rb s))\<lparr>servo_flag := f, uart_flag := 1\<rparr>"
  shows "hs_ok (s\<lparr>rb := r\<rparr>)"
proof -
  have "phase (s\<lparr>rb := r\<rparr>)"
    by (rule phase_keep[where s = s]) (use assms in \<open>auto simp: hs_ok_def hs_defs\<close>)
  then show ?thesis using assms by (simp add: hs_ok_def)
qed

lemma servo_ctrl_start:
  assumes "free s" and "uart_flag (car (rb s)) \<noteq> 0 \<longrightarrow> servo_flag (car (rb s)) \<in> {1, 2, 3}"
  shows "servo_ctrl (rb s) = Step (emit [Delay 5]) Halt
    \<or> at_card s \<and> (\<exists>put \<in> puts. servo_ctrl (rb s) = Step (arm servo_get) (got put))"
proof (cases "servo_flag_ctrl (car (rb s)) = 0")
  case False
  then have a: "at_card s" using assms(1) by (simp add: free_def)
  then have "servo_flag (car (rb s)) \<in> {1, 2, 3}" using assms(2) by (simp add: at_card_def)
  then have "\<exists>put \<in> puts. servo_job (servo_flag (car (rb s))) finish = Step (arm servo_get) (got put)"
    by (auto simp: servo_job_def puts_def pick_job_steps)
  then show ?thesis using a False by (simp add: servo_ctrl_def)
qed (simp add: servo_ctrl_def)

text \<open>The steps of the arm task after the card has gone.\<close>

lemma away_turn:
  assumes "away s" and "job s \<in> {test_last, reset_arm, wait_tail, test_tail, turn_tail, clear_tail}"
  shows "away (arm_turn s) \<and> job (arm_turn s) \<in> {test_last, reset_arm, wait_tail, test_tail, turn_tail, clear_tail, put_ready}"
proof -
  from assms(2) consider "job s = test_last" | "job s = reset_arm" | "job s = wait_tail" | "job s = test_tail"
    | "job s = turn_tail" | "job s = clear_tail" by blast
  then show ?thesis
  proof cases
    case 1
    then show ?thesis using assms(1) by (simp add: arm_turn_def test_last_def away_def)
  next
    case 2
    then show ?thesis using assms(1) by (simp add: arm_turn_def reset_arm_def away_def on_arm)
  next
    case 3
    then show ?thesis using assms(1) by (simp add: arm_turn_def wait_tail_def away_def)
  next
    case 4
    then show ?thesis using assms(1) by (simp add: arm_turn_def test_tail_def away_def)
  next
    case 5
    then show ?thesis using assms(1) by (simp add: arm_turn_def turn_tail_def away_def on_rote)
  next
    case 6
    then show ?thesis using assms(1) by (simp add: arm_turn_def clear_tail_def away_def)
  qed
qed

lemma arm_flags_hs:
  "hs_ok s \<Longrightarrow> uart_flag (car (rb (arm_turn s))) = uart_flag (car (rb s)) \<and> servo_flag (car (rb (arm_turn s))) = servo_flag (car (rb s))"
  unfolding hs_ok_def phase_def
  by (elim conjE disjE bexE insertE emptyE)
    (simp_all add: arm_turn_def got_def lifting_def waiting_def putting_def test_last_def reset_arm_def wait_tail_def
      test_tail_def turn_tail_def clear_tail_def Let_def)

lemma arm_phase_hs:
  assumes ok: "hs_ok s" and due: "due s \<le> 0"
  shows "phase (arm_turn s)"
proof -
  have f: "uart_flag (car (rb s)) \<noteq> 0 \<longrightarrow> servo_flag (car (rb s)) \<in> {1, 2, 3}" using ok by (simp add: hs_ok_def)
  from ok have "phase s" by (simp add: hs_ok_def)
  then show ?thesis
  proof (cases rule: phase_cases)
    case halt
    from servo_ctrl_start[OF halt(2) f] show ?thesis
    proof (elim disjE conjE bexE)
      assume "servo_ctrl (rb s) = Step (emit [Delay 5]) Halt"
      then show ?thesis using halt by (intro phase_intros(1)) (simp_all add: arm_turn_def free_def at_card_def)
    next
      fix put assume "at_card s" "put \<in> puts" "servo_ctrl (rb s) = Step (arm servo_get) (got put)"
      then show ?thesis using halt by (intro phase_intros(2)) (simp_all add: arm_turn_def free_def at_card_def)
    qed
  next
    case five
    then show ?thesis by (intro phase_intros(1)) (simp_all add: arm_turn_def free_def at_card_def)
  next
    case get
    then show ?thesis by (intro phase_intros(3)[OF get(1)]) (simp_all add: arm_turn_def at_card_def on_arm)
  next
    case got
    then show ?thesis by (intro phase_intros(4)[OF got(1)]) (simp_all add: arm_turn_def got_def picked_def at_card_def)
  next
    case lift
    then show ?thesis by (intro phase_intros(4)[OF lift(1)])
      (auto simp: arm_turn_def lifting_def picked_def at_card_def away_def on_arm)
  next
    case wait
    then show ?thesis by (intro phase_intros(5)[OF wait(1)])
      (auto simp: arm_turn_def waiting_def picked_def at_card_def away_def)
  next
    case put
    then have "away s" using due by auto
    then show ?thesis using put by (intro phase_intros(6)) (simp_all add: arm_turn_def putting_def away_def on_arm)
  next
    case rest
    then show ?thesis using away_turn phase_intros(6) by blast
  next
    case ready
    then show ?thesis by (intro phase_intros(7)) (simp_all add: arm_turn_def away_def)
  next
    case last
    then show ?thesis by (intro phase_intros(1)) (simp_all add: arm_turn_def free_def)
  qed
qed

lemma hs_step_ok:
  assumes "hs_step s t" and "hs_ok s"
  shows "hs_ok t"
  using assms(1)
proof cases
  case (wait r)
  then show ?thesis using wait_ok_hs assms(2) by simp
next
  case (drive k r)
  then show ?thesis using drive_ok_hs assms(2) by simp
next
  case (report f r)
  then show ?thesis using report_ok_hs assms(2) by blast
next
  case arm
  then show ?thesis using arm_phase_hs arm_flags_hs assms(2) by (simp add: hs_ok_def)
qed

definition one_ahead :: "hs \<Rightarrow> bool" where
  "one_ahead s \<longleftrightarrow> gets s = goes s \<or> gets s = goes s + 1 \<and> motion (car (rb s)) = 13"

lemma hs_ok_counts: "hs_ok s \<Longrightarrow> one_ahead s"
  unfolding hs_ok_def phase_def hs_defs one_ahead_def by blast

interpretation handshake: safe_machine hs_step hs_ok one_ahead
  by unfold_locales (auto intro: hs_step_ok hs_ok_counts)

definition fresh_start :: "hs \<Rightarrow> bool" where
  "fresh_start s \<longleftrightarrow> job s = Halt \<and> car (rb s) = flag_init zero_status \<and> gets s = 0 \<and> goes s = 0"

text \<open>
  C37. However the timer, the arm task and the serial line interleave after \<open>flag_init\<close>, the car
  leaves a card only after the arm has picked it up, and the arm never picks twice at one card:
  the picks begun and the departures are equal in number, or there is one more pick and the car
  still stands at the card.
\<close>

theorem one_pick_per_card:
  assumes "fresh_start s0" and "hs_step\<^sup>*\<^sup>* s0 s"
  shows "gets s = goes s \<or> gets s = goes s + 1 \<and> motion (car (rb s)) = 13"
proof -
  have "free s0" "uart_flag (car (rb s0)) = 0"
    using assms(1) by (simp_all add: fresh_start_def free_def flag_init_def zero_status_def)
  then have "hs_ok s0" using assms(1) by (simp add: hs_ok_def fresh_start_def phase_intros(1))
  then show ?thesis using handshake.safe_run[OF assms(2)] by (simp add: one_ahead_def)
qed

text \<open>A run in which the arm has just taken its first card.\<close>

definition at_rest :: hs where
  "at_rest = \<lparr>rb = start_robot, job = Halt, due = 0, gets = 0, goes = 0\<rparr>"

definition first_card :: "hs" where
  "first_card = (let s = at_rest\<lparr>rb := start_robot\<lparr>car := (car start_robot)\<lparr>motion := 13\<rparr>\<rparr>, due := - 10\<rparr>;
     s = s\<lparr>rb := (rb s)\<lparr>car := (car (rb s))\<lparr>servo_flag := 2, uart_flag := 1\<rparr>\<rparr>\<rparr>;
     s = s\<lparr>rb := wait_get (rb s), due := due s - 10\<rparr>
   in arm_turn (arm_turn s))"

lemma first_card_reach: "hs_step\<^sup>*\<^sup>* at_rest first_card"
proof -
  define s1 where "s1 = at_rest\<lparr>rb := start_robot\<lparr>car := (car start_robot)\<lparr>motion := 13\<rparr>\<rparr>, due := - 10\<rparr>"
  define s2 where "s2 = s1\<lparr>rb := (rb s1)\<lparr>car := (car (rb s1))\<lparr>servo_flag := 2, uart_flag := 1\<rparr>\<rparr>\<rparr>"
  define s3 where "s3 = s2\<lparr>rb := wait_get (rb s2), due := due s2 - 10\<rparr>"
  note start = at_rest_def start_robot_def flag_init_def zero_status_def
  have "hs_step at_rest s1"
    using hs_step.drive[of at_rest 13 "start_robot\<lparr>car := (car start_robot)\<lparr>motion := 13\<rparr>\<rparr>"]
    by (simp add: s1_def start)
  moreover have "hs_step s1 s2"
    using hs_step.report[of 2 "(rb s1)\<lparr>car := (car (rb s1))\<lparr>servo_flag := 2, uart_flag := 1\<rparr>\<rparr>" s1] by (simp add: s2_def)
  moreover have "hs_step s2 s3"
    using hs_step.wait[of s2 "wait_get (rb s2)"] by (simp add: s3_def s2_def s1_def start wait_get_def Let_def)
  moreover have "hs_step s3 (arm_turn s3)"
    by (rule hs_step.arm) (simp add: s3_def s2_def s1_def at_rest_def)
  moreover have "hs_step (arm_turn s3) (arm_turn (arm_turn s3))"
    by (rule hs_step.arm) (simp add: arm_turn_def s3_def s2_def s1_def at_rest_def)
  moreover have "first_card = arm_turn (arm_turn s3)"
    by (simp add: first_card_def s3_def s2_def s1_def Let_def)
  ultimately show ?thesis by (metis rtranclp.rtrancl_into_rtrancl rtranclp.rtrancl_refl)
qed

lemma first_card_counts: "gets first_card = 1 \<and> goes first_card = 0"
proof -
  have "car start_robot = flag_init zero_status" by (simp add: start_robot_def)
  then show ?thesis
    by (simp add: first_card_def at_rest_def flag_init_def zero_status_def wait_get_def arm_turn_def
        servo_ctrl_def servo_job_def pick_job_steps arm_acts on_arm Let_def)
qed

lemma one_pick_per_card_witness:
  "hs_step\<^sup>*\<^sup>* at_rest first_card \<and> gets first_card = 1 \<and> goes first_card = 0 \<and> motion (car (rb first_card)) = 13"
  using one_pick_per_card[of at_rest first_card] first_card_reach first_card_counts
  by (simp add: fresh_start_def at_rest_def start_robot_def)

end
