(* ===== verification/Colony_Run.thy ===== *)
theory Colony_Run
  imports Ant_Colony Float_Bounds
begin

text \<open>
  The optimiser \<open>ant\<close> of \<^verbatim>\<open>CODE/aco.c\<close> from its first iteration to the tour it returns. The trails
  \<open>pher\<close> are \<open>float\<close>s that evaporate and grow; powers of two bound them from both sides for all
  iterations the arrays hold, so every draw of a city is well defined.
\<close>

section \<open>Floats between two bounds\<close>

definition rep32 :: "rat \<Rightarrow> bool" where "rep32 a \<longleftrightarrow> fround binary32 a = Fin a"
definition rep64 :: "rat \<Rightarrow> bool" where "rep64 a \<longleftrightarrow> fround binary64 a = Fin a"

definition rng32 :: "rat \<Rightarrow> rat \<Rightarrow> f32 \<Rightarrow> bool" where
  "rng32 a b x \<longleftrightarrow> (\<exists>q. x = F32 (Fin q) \<and> a \<le> q \<and> q \<le> b)"

definition rng64 :: "rat \<Rightarrow> rat \<Rightarrow> f64 \<Rightarrow> bool" where
  "rng64 a b x \<longleftrightarrow> (\<exists>q. x = F64 (Fin q) \<and> a \<le> q \<and> q \<le> b)"

lemma rep64_powi: "0 \<le> m \<Longrightarrow> m < 2 ^ 53 \<Longrightarrow> - 1074 \<le> e \<Longrightarrow> e \<le> 900 \<Longrightarrow> rep64 (of_int m * 2 powi e)"
  unfolding rep64_def by (rule fround_powi64)

lemma rep32_powi: "0 \<le> m \<Longrightarrow> m < 2 ^ 24 \<Longrightarrow> - 149 \<le> e \<Longrightarrow> e \<le> 100 \<Longrightarrow> rep32 (of_int m * 2 powi e)"
  unfolding rep32_def
proof (rule fround_exact)
  assume a: "0 \<le> m" "m < 2 ^ 24" "- 149 \<le> e" "e \<le> 100"
  have "\<bar>of_int m * 2 powi e :: rat\<bar> = of_int m * 2 powi e" using a by (simp add: abs_mult)
  also have "\<dots> \<le> of_int (2 ^ 24) * 2 powi 100"
    using a by (intro mult_mono) (simp_all only: of_int_le_iff powi2_le_iff, simp_all)
  also have "\<dots> < 2 powi (emax binary32 + 1)" by (simp add: binary32_def power_int_def)
  finally show "\<bar>of_int m * 2 powi e\<bar> < (2 powi (emax binary32 + 1) :: rat)" .
qed (simp_all add: binary32_def)

lemma rep_pow2: "- 149 \<le> e \<Longrightarrow> e \<le> 100 \<Longrightarrow> rep32 (2 powi e) \<and> rep64 (2 powi e)"
  using rep32_powi[of 1 e] rep64_powi[of 1 e] by simp

lemma rep_int: "0 \<le> n \<Longrightarrow> n < 2 ^ 24 \<Longrightarrow> rep32 (of_int n) \<and> rep64 (of_int n)"
  using rep32_powi[of n 0] rep64_powi[of n 0] by simp

lemma rng_mono:
  "rng32 a b x \<Longrightarrow> c \<le> a \<Longrightarrow> b \<le> d \<Longrightarrow> rng32 c d x" "rng64 a b y \<Longrightarrow> c \<le> a \<Longrightarrow> b \<le> d \<Longrightarrow> rng64 c d y"
  by (force simp: rng32_def rng64_def)+

lemma round64_rng: "a \<le> q \<Longrightarrow> q \<le> b \<Longrightarrow> rep64 a \<Longrightarrow> rep64 b \<Longrightarrow> rng64 a b (F64 (fround binary64 q))"
  unfolding rep64_def rng64_def by (metis b64.between)

lemma round32_rng: "a \<le> q \<Longrightarrow> q \<le> b \<Longrightarrow> rep32 a \<Longrightarrow> rep32 b \<Longrightarrow> rng32 a b (F32 (fround binary32 q))"
  unfolding rep32_def rng32_def by (metis b32.between)

lemma rng_to:
  "rng32 a b x \<Longrightarrow> rng64 a b (to_d x)" "rng64 a b y \<Longrightarrow> rep32 a \<Longrightarrow> rep32 b \<Longrightarrow> rng32 a b (to_s y)"
proof -
  show "rng32 a b x \<Longrightarrow> rng64 a b (to_d x)" by (auto simp: rng32_def rng64_def)
  assume "rng64 a b y" "rep32 a" "rep32 b"
  then show "rng32 a b (to_s y)" using round32_rng[of a _ b] by (auto simp: rng64_def)
qed

lemma rng64_add: "rng64 a b x \<Longrightarrow> rng64 c d y \<Longrightarrow> rep64 (a + c) \<Longrightarrow> rep64 (b + d) \<Longrightarrow> rng64 (a + c) (b + d) (x + y)"
  using round64_rng by (auto simp: rng64_def[of a] rng64_def[of c] F64_arith)

lemma mult_between:
  fixes a b c d p q :: rat
  shows "a \<le> p \<Longrightarrow> p \<le> b \<Longrightarrow> c \<le> q \<Longrightarrow> q \<le> d \<Longrightarrow> 0 \<le> a \<Longrightarrow> 0 \<le> c \<Longrightarrow> a * c \<le> p * q \<and> p * q \<le> b * d"
  by (intro conjI mult_mono) simp_all

lemma rng64_mult:
  assumes "rng64 a b x" "rng64 c d y" "0 \<le> a" "0 \<le> c" "rep64 (a * c)" "rep64 (b * d)"
  shows "rng64 (a * c) (b * d) (x * y)"
proof -
  obtain p q where pq: "x = F64 (Fin p)" "a \<le> p" "p \<le> b" "y = F64 (Fin q)" "c \<le> q" "q \<le> d"
    using assms(1,2) by (auto simp: rng64_def)
  show ?thesis using round64_rng[OF _ _ assms(5,6), of "p * q"] mult_between[OF pq(2,3,5,6) assms(3,4)]
    by (simp add: pq(1,4) F64_arith)
qed

lemma rng32_mult:
  assumes "rng32 a b x" "rng32 c d y" "0 \<le> a" "0 \<le> c" "rep32 (a * c)" "rep32 (b * d)"
  shows "rng32 (a * c) (b * d) (x * y)"
proof -
  obtain p q where pq: "x = F32 (Fin p)" "a \<le> p" "p \<le> b" "y = F32 (Fin q)" "c \<le> q" "q \<le> d"
    using assms(1,2) by (auto simp: rng32_def)
  show ?thesis using round32_rng[OF _ _ assms(5,6), of "p * q"] mult_between[OF pq(2,3,5,6) assms(3,4)]
    by (simp add: pq(1,4) F32_arith)
qed

section \<open>One evaporation and one deposit\<close>

definition keep_rate :: f64 where "keep_rate = lit 1 - ant_rho"

lemma keep_rate_range: "rng64 (1 / 2) 1 keep_rate"
proof -
  obtain y where y: "fround binary64 (1 / 10) = Fin y" "\<bar>y - 1 / 10\<bar> \<le> 1 / 4503599627370496"
    by (rule fround64_near[of "1 / 10"]) simp_all
  then have b: "1 / 2 \<le> 1 - y" "1 - y \<le> 1" unfolding abs_le_iff by linarith+
  have "rep64 (1 / 2)" "rep64 1" using rep_pow2[of "- 1"] rep_int[of 1] by (simp_all add: power_int_def)
  moreover have "keep_rate = F64 (fround binary64 (1 - y))"
    using y(1) rep_int[of 1] by (simp add: keep_rate_def ant_rho_def lit_def F64_arith rep64_def)
  ultimately show ?thesis using round64_rng[OF b] by simp
qed

text \<open>The bounds of a trail after \<open>k\<close> evaporations, and of the deposits after \<open>l\<close> of them.\<close>

definition trail_lo :: "int \<Rightarrow> rat" where "trail_lo k = 2 powi (- k)"
definition trail_hi :: "int \<Rightarrow> rat" where "trail_hi k = of_int (k + 1) * 2 powi 19"

lemma trail_rep:
  assumes "0 \<le> k" "k \<le> 104"
  shows "rep32 (trail_lo k)" "rep64 (trail_lo k)" "rep32 (trail_hi k)" "rep64 (trail_hi k)" "0 \<le> trail_lo k" "0 \<le> trail_hi k"
  using assms rep_pow2[of "- k"] rep32_powi[of "k + 1" 19] rep64_powi[of "k + 1" 19]
  by (simp_all add: trail_lo_def trail_hi_def)

lemma evaporate_cell:
  assumes p: "rng32 (trail_lo k) (trail_hi k) p" and d: "rng32 0 (2 powi 19) d" and k: "0 \<le> k" "k < 104"
  shows "rng32 (trail_lo (k + 1)) (trail_hi (k + 1)) (to_s (keep_rate * to_d p + to_d d))"
proof -
  have half: "1 / 2 * trail_lo k = trail_lo (k + 1)"
    using power_int_add[of "2 :: rat" "- k" "- 1"] by (simp add: trail_lo_def power_int_minus)
  have up: "1 * trail_hi k + 2 powi 19 = trail_hi (k + 1)" by (simp add: trail_hi_def algebra_simps)
  note r = trail_rep[OF k(1) less_imp_le[OF k(2)]] and r' = trail_rep[of "k + 1"]
  have "rng64 (1 / 2 * trail_lo k) (1 * trail_hi k) (keep_rate * to_d p)"
    by (rule rng64_mult[OF keep_rate_range rng_to(1)[OF p]]) (use r r' k half in simp_all)
  from rng64_add[OF this rng_to(1)[OF d]]
  have "rng64 (trail_lo (k + 1)) (trail_hi (k + 1)) (keep_rate * to_d p + to_d d)"
    using r' k half up by simp
  then show ?thesis using r' k by (simp add: rng_to(2))
qed

lemma lay_cell:
  assumes d: "rng32 0 (of_int l) d" and l: "0 \<le> l" "l + 1 < 2 ^ 24" and len: "1 \<le> len" "len < 2 ^ 53"
  shows "rng32 0 (of_int (l + 1)) (to_s (to_d d + 1 * ant_Q / d_of_int len))"
proof -
  have one: "ant_Q = F64 (Fin 1)" using rep_int[of 1] by (simp add: ant_Q_def lit_def rep64_def)
  have "0 \<le> 1 / (of_int len :: rat)" "1 / (of_int len :: rat) \<le> of_int 1" using len by simp_all
  then have "rng64 0 (of_int 1) (F64 (fround binary64 (1 / of_int len)))"
    using rep_int[of 0] rep_int[of 1] by (intro round64_rng) simp_all
  moreover have "1 * ant_Q / d_of_int len = F64 (fround binary64 (1 / of_int len))"
    using len rep_int[of 1] by (simp add: one one_F64 F64_arith rep64_def)
  ultimately have "rng64 (0 + 0) (of_int l + of_int 1) (to_d d + 1 * ant_Q / d_of_int len)"
    using rep_int[of "l + 1"] rep_int[of 0] l by (intro rng64_add[OF rng_to(1)[OF d]]) simp_all
  then show ?thesis using rep_int[of "l + 1"] rep_int[of 0] l by (intro rng_to(2)) simp_all
qed

section \<open>The loops of an iteration\<close>

abbreviation trail :: "int \<Rightarrow> f32 \<Rightarrow> bool" where "trail k \<equiv> rng32 (trail_lo k) (trail_hi k)"

definition trails_ok :: "int \<Rightarrow> int \<Rightarrow> f32 arr2 \<Rightarrow> bool" where
  "trails_ok n k p \<longleftrightarrow> (\<forall>a \<in> {0..<n}. \<forall>b \<in> {0..<n}. trail k (p a b))"

definition deposits :: "int \<Rightarrow> f32 arr2 \<Rightarrow> bool" where
  "deposits l d \<longleftrightarrow> (\<forall>a b. rng32 0 (of_int l) (d a b))"

lemma deposits_mono: "deposits l d \<Longrightarrow> l \<le> l' \<Longrightarrow> deposits l' d"
  by (force simp: deposits_def intro: rng_mono(1))

text \<open>The cells before \<open>(i, j)\<close> have evaporated once more.\<close>

definition evap_inv :: "colony \<Rightarrow> int \<Rightarrow> int \<Rightarrow> int \<Rightarrow> colony \<Rightarrow> bool" where
  "evap_inv s k i j u \<longleftrightarrow> (\<exists>p. u = s\<lparr>pher := p\<rparr>
     \<and> (\<forall>a \<in> {0..<cities s}. \<forall>b \<in> {0..<cities s}. trail (if before i j a b then k + 1 else k) (p a b)))"

lemma evap_step:
  assumes inv: "evap_inv s k i j u" and d: "deposits (2 ^ 19) (delta_pher s)" and k: "0 \<le> k" "k < 104"
    and ij: "0 \<le> i" "i < cities s" "0 \<le> j" "j < cities s" "cities s \<le> NP"
  shows "\<exists>v. (do { p \<leftarrow> rd2 NP NP (pher u) i j; d \<leftarrow> rd2 NP NP (delta_pher u) i j;
      e \<leftarrow> wr2 NP NP (pher u) i j (to_s ((lit 1 - ant_rho) * to_d p + to_d d)); Some (u\<lparr>pher := e\<rparr>) }) = Some v
    \<and> evap_inv s k i (j + 1) v"
proof -
  obtain p where p: "u = s\<lparr>pher := p\<rparr>"
    "\<forall>a \<in> {0..<cities s}. \<forall>b \<in> {0..<cities s}. trail (if before i j a b then k + 1 else k) (p a b)"
    using inv unfolding evap_inv_def by blast
  let ?v = "to_s (keep_rate * to_d (p i j) + to_d (delta_pher s i j))"
  have "i \<in> {0..<cities s}" "j \<in> {0..<cities s}" using ij by simp_all
  with p(2) have "trail (if before i j i j then k + 1 else k) (p i j)" by blast
  then have "trail k (p i j)" by (simp add: before_def)
  moreover have "rng32 0 (2 powi 19) (delta_pher s i j)" using d by (simp add: deposits_def)
  ultimately have new: "trail (k + 1) ?v" using k by (rule evaporate_cell)
  have "evap_inv s k i (j + 1) (s\<lparr>pher := p(i := (p i)(j := ?v))\<rparr>)"
    unfolding evap_inv_def
  proof (intro exI conjI ballI)
    fix a b assume "a \<in> {0..<cities s}" "b \<in> {0..<cities s}"
    with p(2) have "trail (if before i j a b then k + 1 else k) (p a b)" by blast
    with new show "trail (if before i (j + 1) a b then k + 1 else k) ((p(i := (p i)(j := ?v))) a b)"
      by (cases "a = i \<and> b = j") (auto simp: before_step)
  qed (rule refl)
  moreover have "i < NP" "j < NP" using ij by simp_all
  ultimately show ?thesis using ij by (simp add: p(1) rd2_def wr2_def keep_rate_def)
qed

lemma evaporate_ok:
  assumes t: "trails_ok (cities s) k (pher s)" and d: "deposits (2 ^ 19) (delta_pher s)" and k: "0 \<le> k" "k < 104"
    and n: "0 \<le> cities s" "cities s \<le> NP"
  shows "\<exists>p. evaporate s = Some (s\<lparr>pher := p\<rparr>) \<and> trails_ok (cities s) (k + 1) p"
proof -
  have "\<exists>v. evaporate s = Some v \<and> evap_inv s k (cities s) 0 v"
    unfolding evaporate_def
  proof (rule for_up_grid)
    show "evap_inv s k 0 0 s" using t by (auto simp: evap_inv_def trails_ok_def before_ends intro!: exI[of _ "pher s"])
    fix i u assume "evap_inv s k i (cities s) u"
    then obtain p where p: "u = s\<lparr>pher := p\<rparr>"
      "\<forall>a \<in> {0..<cities s}. \<forall>b \<in> {0..<cities s}. trail (if before i (cities s) a b then k + 1 else k) (p a b)"
      unfolding evap_inv_def by blast
    show "evap_inv s k (i + 1) 0 u" unfolding evap_inv_def
      by (intro exI[of _ p] conjI p(1)) (rule before_row[where Q = "\<lambda>a b c. trail (if c then k + 1 else k) (p a b)", OF p(2)])
  next
    show "cities u = cities s" if "evap_inv s k i 0 u" for i u using that by (auto simp: evap_inv_def)
  qed (use n evap_step[OF _ d k _ _ _ _ n(2)] in auto)
  then show ?thesis by (auto simp: evap_inv_def trails_ok_def before_ends)
qed

lemma lay_ok:
  assumes "0 \<le> a" "a < NP" "0 \<le> b" "b < NP" and d: "deposits l (delta_pher s)" and l: "0 \<le> l" "l + 1 < 2 ^ 24"
    and len: "1 \<le> len" "len < 2 ^ 53"
  shows "\<exists>e. lay len a b s = Some (s\<lparr>delta_pher := e\<rparr>) \<and> deposits (l + 1) e"
proof -
  let ?v = "to_s (to_d (delta_pher s a b) + 1 * ant_Q / d_of_int len)"
  define e where "e = (delta_pher s)(a := (delta_pher s a)(b := ?v))"
  have v: "rng32 0 (of_int (l + 1)) ?v" using d l len by (intro lay_cell) (simp_all add: deposits_def)
  have old: "rng32 0 (of_int (l + 1)) (delta_pher s x y)" for x y
    using deposits_mono[OF d, of "l + 1"] unfolding deposits_def by simp
  have "deposits (l + 1) (e(b := (e b)(a := e a b)))"
    using v old unfolding deposits_def e_def by auto
  then show ?thesis using assms(1-4) by (auto simp: lay_def rd2_def wr2_def e_def Let_def)
qed

lemma prefix_range: "prefix_ok r n n \<Longrightarrow> 0 \<le> k \<Longrightarrow> k < n \<Longrightarrow> n \<le> NP \<Longrightarrow> 0 \<le> r k \<and> r k < n \<and> r k < NP"
  by (force simp: prefix_ok_def)

lemma ant_lay_ok:
  assumes r: "\<forall>i \<in> {0..<m}. prefix_ok (routes s i) (cities s) (cities s)" and len: "\<forall>i \<in> {0..<m}. 1 \<le> len i \<and> len i < 2 ^ 53"
    and d: "deposits l (delta_pher s)" and l: "0 \<le> l" "l + m * (cities s - 1) < 2 ^ 24"
    and n: "1 \<le> cities s" "cities s \<le> NP" and m: "0 \<le> m" "m \<le> ant_max"
  shows "\<exists>e. ant_lay False m len s = Some (s\<lparr>delta_pher := e\<rparr>) \<and> deposits (l + m * (cities s - 1)) e"
proof -
  let ?n = "cities s" and ?I = "\<lambda>k u. \<exists>e. u = s\<lparr>delta_pher := e\<rparr> \<and> deposits (l + k) e"
  have row: "\<exists>v. for_up 0 (?n - 1) (\<lambda>j u. do {
                a \<leftarrow> rd2 ant_max NP (routes u) i j;
                b \<leftarrow> rd2 ant_max NP (routes u) i (j + 1);
                lay (len i) a b u }) u = Some v \<and> ?I (c + (?n - 1)) v"
    if i: "0 \<le> i" "i < m" and inv: "?I c u" and c: "0 \<le> c" "l + c + (?n - 1) < 2 ^ 24" for i c u
  proof (rule for_up_total[where P = "\<lambda>j. ?I (c + j)"])
    show "?I (c + 0) u" using inv by simp
    fix j w assume j: "0 \<le> j" "j < ?n - 1" and w: "?I (c + j) w"
    then obtain e where e: "w = s\<lparr>delta_pher := e\<rparr>" "deposits (l + (c + j)) e" by blast
    have pre: "prefix_ok (routes s i) ?n ?n" using r i by simp
    have ab: "0 \<le> routes s i j \<and> routes s i j < NP" "0 \<le> routes s i (j + 1) \<and> routes s i (j + 1) < NP"
      using prefix_range[OF pre _ _ n(2), of j] prefix_range[OF pre _ _ n(2), of "j + 1"] j by simp_all
    have "\<exists>e'. lay (len i) (routes s i j) (routes s i (j + 1)) w = Some (w\<lparr>delta_pher := e'\<rparr>) \<and> deposits (l + (c + j) + 1) e'"
      using ab e i len j c l by (intro lay_ok) simp_all
    moreover have "j + 1 < NP" "i < ant_max" using j n i m by simp_all
    ultimately show "\<exists>t. (do { a \<leftarrow> rd2 ant_max NP (routes w) i j; b \<leftarrow> rd2 ant_max NP (routes w) i (j + 1); lay (len i) a b w }) = Some t
        \<and> ?I (c + (j + 1)) t"
      using i j e(1) by (auto simp: rd2_def add.assoc)
  qed (use n in simp)
  have "\<exists>v. ant_lay False m len s = Some v \<and> ?I (m * (?n - 1)) v"
    unfolding ant_lay_def if_False
  proof (rule for_up_total[where P = "\<lambda>i. ?I (i * (?n - 1))"])
    show "?I (0 * (?n - 1)) s" using d by (intro exI[of _ "delta_pher s"]) simp
    fix i u assume i: "0 \<le> i" "i < m" and inv: "?I (i * (?n - 1)) u"
    have "(i + 1) * (?n - 1) \<le> m * (?n - 1)" using i n by (intro mult_right_mono) simp_all
    then have b: "l + i * (?n - 1) + (?n - 1) < 2 ^ 24" using l(2) by (simp add: algebra_simps)
    have c0: "0 \<le> i * (?n - 1)" using i n by simp
    from row[OF i inv c0 b] obtain v where v: "for_up 0 (?n - 1) (\<lambda>j u. do {
                a \<leftarrow> rd2 ant_max NP (routes u) i j;
                b \<leftarrow> rd2 ant_max NP (routes u) i (j + 1);
                lay (len i) a b u }) u = Some v" "?I (i * (?n - 1) + (?n - 1)) v" by blast
    moreover have "cities u = ?n" using inv by auto
    moreover have "i * (?n - 1) + (?n - 1) = (i + 1) * (?n - 1)" by (simp add: algebra_simps)
    moreover have "rd ant_max len i = Some (len i)" using i m by (simp add: rd_def)
    ultimately show "\<exists>t. (do { l \<leftarrow> rd ant_max len i;
         s \<leftarrow> for_up 0 (cities u - 1) (\<lambda>j s. do {
                a \<leftarrow> rd2 ant_max NP (routes s) i j;
                b \<leftarrow> rd2 ant_max NP (routes s) i (j + 1);
                lay l a b s }) u; Some s }) = Some t \<and> ?I ((i + 1) * (?n - 1)) t" by simp
  qed (use m in simp)
  then show ?thesis by auto
qed

section \<open>Lengths and starts\<close>

definition tour_len :: "int arr2 \<Rightarrow> int \<Rightarrow> int arr \<Rightarrow> int" where
  "tour_len d n r = (\<Sum>j \<in> {0..<n - 1}. d (r j) (r (j + 1)))"

lemma tour_len_cong: "(\<And>j. 0 \<le> j \<Longrightarrow> j < n \<Longrightarrow> r j = r' j) \<Longrightarrow> tour_len d n r = tour_len d n r'"
  unfolding tour_len_def by (rule sum.cong) simp_all

text \<open>Distances between different cities are positive and small.\<close>

definition dist_ok :: "int \<Rightarrow> int arr2 \<Rightarrow> bool" where
  "dist_ok n d \<longleftrightarrow> (\<forall>a \<in> {0..<n}. \<forall>b \<in> {0..<n}. a \<noteq> b \<longrightarrow> 1 \<le> d a b \<and> d a b \<le> 2 ^ 20)"

lemma tour_len_bounds:
  assumes d: "dist_ok n d" and r: "prefix_ok r n n" and n: "2 \<le> n" "n \<le> NP"
  shows "1 \<le> tour_len d n r" "tour_len d n r \<le> 2 ^ 25"
proof -
  have e: "1 \<le> d (r j) (r (j + 1)) \<and> d (r j) (r (j + 1)) \<le> 2 ^ 20" if j: "j \<in> {0..<n - 1}" for j
  proof -
    have "r j \<noteq> r (j + 1)" using r j by (auto simp: prefix_ok_def dest: inj_onD[of r _ j "j + 1"])
    moreover have "r j \<in> {0..<n}" "r (j + 1) \<in> {0..<n}" using r j by (auto simp: prefix_ok_def)
    ultimately show ?thesis using d unfolding dist_ok_def by blast
  qed
  have "(\<Sum>j \<in> {0..<n - 1}. 1) \<le> tour_len d n r" unfolding tour_len_def by (rule sum_mono) (use e in blast)
  then show "1 \<le> tour_len d n r" using n by simp
  have "tour_len d n r \<le> (\<Sum>j \<in> {0..<n - 1}. 2 ^ 20)" unfolding tour_len_def by (rule sum_mono) (use e in blast)
  also have "\<dots> = (n - 1) * 2 ^ 20" using n by simp
  also have "\<dots> \<le> 2 ^ 5 * 2 ^ 20" using n by (intro mult_right_mono) (simp_all add: NP_def)
  finally show "tour_len d n r \<le> 2 ^ 25" by simp
qed

lemma ant_len_ok:
  assumes r: "prefix_ok (routes s i) (cities s) (cities s)" and i: "0 \<le> i" "i < ant_max" and n: "1 \<le> cities s" "cities s \<le> NP"
  shows "ant_len s i = Some (tour_len (dis s) (cities s) (routes s i))"
proof -
  let ?I = "\<lambda>j. \<Sum>k \<in> {0..<j}. dis s (routes s i k) (routes s i (k + 1))"
  have "\<exists>l. ant_len s i = Some l \<and> l = ?I (cities s - 1)"
    unfolding ant_len_def
  proof (rule for_up_total[where P = "\<lambda>j l. l = ?I j"])
    fix j l assume j: "0 \<le> j" "j < cities s - 1" and l: "l = ?I j"
    have ab: "0 \<le> routes s i j \<and> routes s i j < NP" "0 \<le> routes s i (j + 1) \<and> routes s i (j + 1) < NP"
      using prefix_range[OF r _ _ n(2), of j] prefix_range[OF r _ _ n(2), of "j + 1"] j by simp_all
    have "{0..<j + 1} = insert j {0..<j}" using j by auto
    moreover have "j + 1 < NP" using j n by simp
    ultimately show "\<exists>t. (do { a \<leftarrow> rd2 ant_max NP (routes s) i j; b \<leftarrow> rd2 ant_max NP (routes s) i (j + 1);
         d \<leftarrow> rd2 NP NP (dis s) a b; Some (l + d) }) = Some t \<and> t = ?I (j + 1)"
      using ab i j l by (simp add: rd2_def)
  qed (use n in simp_all)
  then show ?thesis by (simp add: tour_len_def)
qed

lemma ant_lens_ok:
  assumes r: "\<forall>i \<in> {0..<m}. prefix_ok (routes s i) (cities s) (cities s)" and m: "0 \<le> m" "m \<le> ant_max"
    and n: "1 \<le> cities s" "cities s \<le> NP"
  shows "\<exists>len. ant_lens m s = Some len \<and> (\<forall>i \<in> {0..<m}. len i = tour_len (dis s) (cities s) (routes s i))"
  unfolding ant_lens_def
proof (rule for_up_total)
  fix i len assume i: "0 \<le> i" "i < m" and inv: "\<forall>k \<in> {0..<i}. len k = tour_len (dis s) (cities s) (routes s k)"
  have "i < ant_max" using i m by simp
  then have "ant_len s i = Some (tour_len (dis s) (cities s) (routes s i))" using r i n by (intro ant_len_ok) simp_all
  moreover have "{0..<i + 1} = insert i {0..<i}" using i by auto
  ultimately show "\<exists>t. (do { d \<leftarrow> ant_len s i; wr ant_max len i d }) = Some t
      \<and> (\<forall>k \<in> {0..<i + 1}. t k = tour_len (dis s) (cities s) (routes s k))"
    using inv i \<open>i < ant_max\<close> by (simp add: wr_def)
qed (use m in simp_all)

lemma ant_start_ok:
  assumes "0 \<le> st" and m: "0 \<le> m" "m \<le> ant_max"
  shows "\<exists>r. ant_start rand m st tim s = Some (s\<lparr>routes := r\<rparr>) \<and> (\<forall>i \<in> {0..<m}. r i 0 = st)"
proof -
  have "\<exists>t. for_up 0 m (\<lambda>i s. map_option (\<lambda>r. s\<lparr>routes := r\<rparr>) (wr2 ant_max NP (routes s) i 0 st)) s = Some t
      \<and> (\<exists>r. t = s\<lparr>routes := r\<rparr> \<and> (\<forall>i \<in> {0..<m}. r i 0 = st))"
  proof (rule for_up_total)
    fix i u assume i: "0 \<le> i" "i < m" and "\<exists>r. u = s\<lparr>routes := r\<rparr> \<and> (\<forall>k \<in> {0..<i}. r k 0 = st)"
    then obtain r where r: "u = s\<lparr>routes := r\<rparr>" "\<forall>k \<in> {0..<i}. r k 0 = st" by blast
    have "{0..<i + 1} = insert i {0..<i}" using i by auto
    then have new: "\<forall>k \<in> {0..<i + 1}. (r(i := (r i)(0 := st))) k 0 = st" using r(2) by simp
    have "i < ant_max" using i m by simp
    then have "map_option (\<lambda>r. u\<lparr>routes := r\<rparr>) (wr2 ant_max NP (routes u) i 0 st) = Some (s\<lparr>routes := r(i := (r i)(0 := st))\<rparr>)"
      using i r(1) by (simp add: wr2_def NP_def)
    with new show "\<exists>t. map_option (\<lambda>r. u\<lparr>routes := r\<rparr>) (wr2 ant_max NP (routes u) i 0 st) = Some t
        \<and> (\<exists>r. t = s\<lparr>routes := r\<rparr> \<and> (\<forall>k \<in> {0..<i + 1}. r k 0 = st))"
      by blast
  qed (use m in \<open>auto intro: exI[of _ "routes s"]\<close>)
  then show ?thesis using assms(1) by (auto simp: ant_start_def)
qed

section \<open>One iteration\<close>

text \<open>The state after \<open>k\<close> iterations that started at city \<open>st\<close>.\<close>

definition colony_inv :: "colony \<Rightarrow> int \<Rightarrow> int \<Rightarrow> colony \<Rightarrow> bool" where
  "colony_inv s0 st k u \<longleftrightarrow>
     u = s0\<lparr>pher := pher u, delta_pher := delta_pher u, routes := routes u, len_best := len_best u,
           path_best := path_best u, seed := seed u\<rparr>
     \<and> trails_ok (cities s0) k (pher u) \<and> deposits (k * 2 ^ 11) (delta_pher u)
     \<and> (\<forall>a \<in> {0..<k}. prefix_ok (path_best u a) (cities s0) (cities s0) \<and> path_best u a 0 = st
          \<and> len_best u a = tour_len (dis s0) (cities s0) (path_best u a))"

definition near_ok :: "int \<Rightarrow> f32 arr2 \<Rightarrow> bool" where
  "near_ok n e \<longleftrightarrow> (\<forall>a \<in> {0..<n}. \<forall>b \<in> {0..<n}. a \<noteq> b \<longrightarrow> rng32 (2 powi - 40) (2 powi 40) (e a b))"

lemma edge_weight:
  assumes "trail k p" and "rng32 (2 powi - 40) (2 powi 40) e" and k: "0 \<le> k" "k \<le> 104"
  shows "weight_ok (to_d (p * e))"
proof -
  have lo: "trail_lo k * 2 powi - 40 = 2 powi (- k - 40)"
    using power_int_add[of "2 :: rat" "- k" "- 40"] unfolding trail_lo_def by simp
  have hi: "trail_hi k * 2 powi 40 = of_int (k + 1) * 2 powi 59"
    using power_int_add[of "2 :: rat" 19 40] by (simp add: trail_hi_def mult.assoc)
  have "rng32 (trail_lo k * 2 powi - 40) (trail_hi k * 2 powi 40) (p * e)"
    by (rule rng32_mult[OF assms(1,2)])
       (use trail_rep(5)[OF k] rep_pow2[of "- k - 40"] rep32_powi[of "k + 1" 59] k in \<open>simp_all only: lo hi, simp_all\<close>)
  then obtain q where q: "p * e = F32 (Fin q)" "2 powi (- k - 40) \<le> q" "q \<le> of_int (k + 1) * 2 powi 59"
    unfolding rng32_def lo hi by blast
  have "(2 powi - 149 :: rat) \<le> 2 powi (- k - 40)" using k unfolding powi2_le_iff by simp
  then have "2 powi - 149 \<le> q" using q(2) by (rule order_trans)
  have "(of_int (k + 1) :: rat) * 2 powi 59 \<le> of_int 105 * 2 powi 59" using k by (intro mult_right_mono) (simp_all only: of_int_le_iff, simp_all)
  also have "\<dots> \<le> 2 powi 128" by (simp add: power_int_def)
  finally have "q \<le> 2 powi 128" using q(3) by simp
  then show ?thesis using \<open>2 powi - 149 \<le> q\<close> by (simp add: weight_ok_def q(1))
qed

lemma prefix_cong:
  assumes "\<And>j. j \<in> {0..<m} \<Longrightarrow> r' j = r j"
  shows "prefix_ok r' n m = prefix_ok r n m"
  using assms inj_on_cong[of "{0..<m}" r' r] by (simp add: prefix_ok_def)

lemma iter_record:
  assumes "colony_inv s0 st k u" and "0 \<le> k" and new: "prefix_ok r (cities s0) (cities s0)" "r 0 = st" and n: "1 \<le> cities s0"
    and pb: "\<forall>j \<in> {0..<cities s0}. pb k j = r j" "\<forall>a j. a \<noteq> k \<longrightarrow> pb a j = path_best u a j"
  shows "\<forall>a \<in> {0..<k + 1}. prefix_ok (pb a) (cities s0) (cities s0) \<and> pb a 0 = st
    \<and> ((len_best u)(k := tour_len (dis s0) (cities s0) r)) a = tour_len (dis s0) (cities s0) (pb a)"
proof
  fix a assume a: "a \<in> {0..<k + 1}"
  show "prefix_ok (pb a) (cities s0) (cities s0) \<and> pb a 0 = st
    \<and> ((len_best u)(k := tour_len (dis s0) (cities s0) r)) a = tour_len (dis s0) (cities s0) (pb a)"
  proof (cases "a = k")
    case True
    have "prefix_ok (pb k) (cities s0) (cities s0)" using prefix_cong[of "cities s0" "pb k" r] new(1) pb(1) by simp
    moreover have "tour_len (dis s0) (cities s0) (pb k) = tour_len (dis s0) (cities s0) r"
      using pb(1) by (intro tour_len_cong) simp
    ultimately show ?thesis using True new(2) pb(1) n by simp
  next
    case False
    then have "pb a = path_best u a" using pb(2) by blast
    moreover have "a \<in> {0..<k}" using a False by simp
    then have "prefix_ok (path_best u a) (cities s0) (cities s0) \<and> path_best u a 0 = st
          \<and> len_best u a = tour_len (dis s0) (cities s0) (path_best u a)"
      using assms(1) unfolding colony_inv_def by blast
    ultimately show ?thesis using False by simp
  qed
qed

lemma ant_iter_ok:
  assumes inv: "colony_inv s0 st k u" and k: "0 \<le> k" "k < iter_max" and n: "2 \<le> cities s0" "cities s0 \<le> NP"
    and m: "1 \<le> m" "m \<le> ant_max" and st: "0 \<le> st" "st < cities s0"
    and d: "dist_ok (cities s0) (dis s0)" "near_ok (cities s0) (idis s0)" and r: "\<And>k. 0 \<le> rand k"
  shows "\<exists>v. ant_iter (\<lambda>a b. to_d (a * b)) False rand m st tim k u = Some v \<and> colony_inv s0 st (k + 1) v"
proof -
  let ?n = "cities s0" and ?w = "\<lambda>a b. to_d (a * b)"
  obtain P D W L B G where ue: "u = s0\<lparr>pher := P, delta_pher := D, routes := W, len_best := L, path_best := B, seed := G\<rparr>"
    using inv unfolding colony_inv_def by blast
  then have u: "cities u = ?n" "dis u = dis s0" "idis u = idis s0" by simp_all
  have t: "trails_ok ?n k (pher u)" and dep: "deposits (k * 2 ^ 11) (delta_pher u)" using inv unfolding colony_inv_def by blast+
  have k103: "k < 103" using k by (simp add: iter_max_def)
  have m0: "0 \<le> m" and n1: "1 \<le> ?n" using m n by simp_all
  obtain r1 where s1: "ant_start rand m st tim u = Some (u\<lparr>routes := r1\<rparr>)" "\<forall>i \<in> {0..<m}. r1 i 0 = st"
    using ant_start_ok[OF st(1) m0 m(2)] by blast
  let ?s1 = "u\<lparr>routes := r1\<rparr>"
  have "weight_ok (?w (pher u a b) (idis u a b))" if "0 \<le> a" "a < ?n" "0 \<le> b" "b < ?n" "a \<noteq> b" for a b
    using that t d(2) k k103 by (intro edge_weight[of k]) (auto simp: trails_ok_def near_ok_def u)
  then have tr: "trail_ok ?w ?s1" by (simp add: trail_ok_def u)
  have "\<exists>s'. ant_moves ?w rand m ?s1 = Some s' \<and> moves_inv ?s1 m (cities ?s1) 0 s'"
    by (rule ant_moves_ok[OF tr]) (use n m st s1(2) r in \<open>simp_all add: u\<close>)
  then obtain s2 where s2: "ant_moves ?w rand m ?s1 = Some s2" "moves_inv ?s1 m ?n 0 s2" by (auto simp: u)
  define R K where "R = routes s2" and "K = seed s2"
  have "s2 = ?s1\<lparr>routes := R, seed := K\<rparr>" unfolding R_def K_def by (rule conjunct1[OF s2(2)[unfolded moves_inv_def]])
  also have "\<dots> = u\<lparr>routes := R, seed := K\<rparr>" by simp
  finally have s2e: "s2 = u\<lparr>routes := R, seed := K\<rparr>" .
  have R: "\<forall>i \<in> {0..<m}. prefix_ok (R i) ?n ?n" "\<forall>i \<in> {0..<m}. R i 0 = st"
    using conjunct2[OF s2(2)[unfolded moves_inv_def]] s1(2) by (auto simp: R_def u)
  have "\<exists>len. ant_lens m s2 = Some len \<and> (\<forall>i \<in> {0..<m}. len i = tour_len (dis s2) (cities s2) (routes s2 i))"
    by (rule ant_lens_ok) (use R m n in \<open>simp_all add: s2e u\<close>)
  then obtain len where len: "ant_lens m s2 = Some len" "\<forall>i \<in> {0..<m}. len i = tour_len (dis s0) ?n (R i)"
    by (auto simp: s2e u)
  obtain idx where idx: "ant_min m len = Some (len idx, idx)" "0 \<le> idx" "idx < m" using ant_min_ok[OF m] by blast
  then have li: "len idx = tour_len (dis s0) ?n (R idx)" "idx < ant_max" using len(2) m by simp_all
  have "\<exists>pb. ant_record k (len idx) idx s2 = Some (s2\<lparr>len_best := (len_best s2)(k := len idx), path_best := pb\<rparr>)
      \<and> (\<forall>j \<in> {0..<cities s2}. pb k j = routes s2 idx j) \<and> (\<forall>a j. a \<noteq> k \<longrightarrow> pb a j = path_best s2 a j)"
    by (rule ant_record_ok) (use k n idx li in \<open>simp_all add: s2e u\<close>)
  then obtain pb where pb: "ant_record k (len idx) idx s2 = Some (s2\<lparr>len_best := (len_best s2)(k := len idx), path_best := pb\<rparr>)"
    "\<forall>j \<in> {0..<?n}. pb k j = R idx j" "\<forall>a j. a \<noteq> k \<longrightarrow> pb a j = path_best u a j" by (auto simp: s2e u)
  let ?s3 = "s2\<lparr>len_best := (len_best s2)(k := len idx), path_best := pb\<rparr>"
  have mb: "m * (?n - 1) \<le> 52 * 29" using m n by (intro mult_mono) (simp_all add: ant_max_def NP_def)
  have lb: "\<forall>i \<in> {0..<m}. 1 \<le> len i \<and> len i < 2 ^ 53"
  proof
    fix i assume i: "i \<in> {0..<m}"
    show "1 \<le> len i \<and> len i < 2 ^ 53"
      using tour_len_bounds[OF d(1) _ n, of "R i"] R(1) i len(2) by fastforce
  qed
  have "\<exists>e. ant_lay False m len ?s3 = Some (?s3\<lparr>delta_pher := e\<rparr>) \<and> deposits (k * 2 ^ 11 + m * (cities ?s3 - 1)) e"
    by (rule ant_lay_ok) (use R lb dep k k103 mb m n in \<open>simp_all add: s2e u\<close>)
  then obtain e where e: "ant_lay False m len ?s3 = Some (?s3\<lparr>delta_pher := e\<rparr>)" "deposits (k * 2 ^ 11 + m * (?n - 1)) e"
    by (auto simp: s2e u)
  let ?s4 = "?s3\<lparr>delta_pher := e\<rparr>"
  have dep': "deposits ((k + 1) * 2 ^ 11) e" "deposits (2 ^ 19) e"
    using deposits_mono[OF e(2)] mb k103 by simp_all
  have "\<exists>p. evaporate ?s4 = Some (?s4\<lparr>pher := p\<rparr>) \<and> trails_ok (cities ?s4) (k + 1) p"
    by (rule evaporate_ok) (use t dep' k k103 n in \<open>simp_all add: s2e u\<close>)
  then obtain p where p: "evaporate ?s4 = Some (?s4\<lparr>pher := p\<rparr>)" "trails_ok ?n (k + 1) p" by (auto simp: s2e u)
  let ?v = "?s4\<lparr>pher := p, routes := \<lambda>_ _. 0\<rparr>"
  have "ant_iter ?w False rand m st tim k u = Some ?v"
    using s1(1) s2(1) len(1) idx(1) pb(1) e(1) p(1) by (simp add: ant_iter_def)
  moreover have "colony_inv s0 st (k + 1) ?v"
  proof -
    have "\<forall>a \<in> {0..<k + 1}. prefix_ok (pb a) ?n ?n \<and> pb a 0 = st
        \<and> ((len_best u)(k := len idx)) a = tour_len (dis s0) ?n (pb a)"
      unfolding li(1) by (rule iter_record[OF inv k(1) _ _ n1 pb(2,3)]) (use R idx in simp_all)
    moreover have "?v = s0\<lparr>pher := p, delta_pher := e, routes := \<lambda>_ _. 0, len_best := (len_best u)(k := len idx),
           path_best := pb, seed := K\<rparr>" unfolding s2e ue by simp
    ultimately show ?thesis using p(2) dep'(1) unfolding colony_inv_def by simp
  qed
  ultimately show ?thesis by blast
qed

section \<open>The result\<close>

text \<open>A tour with the way from its last city to the upper right drop point, where the robot goes next.\<close>

definition home_len :: "colony \<Rightarrow> int arr \<Rightarrow> int" where
  "home_len s r = tour_len (dis s) (cities s) r
     + (let c = r (cities s - 1) in the (calc_dis (px s c) (py s c) (wid + ex_dis_R) (hei + ex_dis_T)))"

definition near_home :: "colony \<Rightarrow> bool" where
  "near_home s \<longleftrightarrow> (\<forall>c \<in> {0..<cities s}. - 100 \<le> px s c \<and> px s c \<le> 800 \<and> - 100 \<le> py s c \<and> py s c \<le> 800)"

lemma home_way:
  assumes "near_home s" and "0 \<le> c" "c < cities s"
  shows "\<exists>d. calc_dis (px s c) (py s c) (wid + ex_dis_R) (hei + ex_dis_T) = Some d \<and> d \<le> 2000"
proof -
  have "- 100 \<le> px s c \<and> px s c \<le> 800 \<and> - 100 \<le> py s c \<and> py s c \<le> 800" using assms unfolding near_home_def by simp
  then have "\<bar>px s c - (wid + ex_dis_R)\<bar> \<le> 1000" "\<bar>py s c - (hei + ex_dis_T)\<bar> \<le> 1000"
    by (simp_all add: wid_def hei_def ex_dis_R_def ex_dis_T_def abs_le_iff)
  then show ?thesis by (rule calc_dis_small)
qed

lemma finish_min_ok:
  assumes r: "\<forall>a \<in> {0..<t}. prefix_ok (path_best u a) (cities u) (cities u)
      \<and> len_best u a = tour_len (dis u) (cities u) (path_best u a)"
    and h: "near_home u" and d: "dist_ok (cities u) (dis u)" and n: "2 \<le> cities u" "cities u \<le> NP" and t: "1 \<le> t" "t \<le> iter_max"
  shows "\<exists>idx. for_up 0 t (finish_min (wid + ex_dis_R, hei + ex_dis_T) 0 1) (0x3f3f3f3f, 0, u) = Some (home_len u (path_best u idx), idx, u)
    \<and> 0 \<le> idx \<and> idx < t \<and> (\<forall>a \<in> {0..<t}. home_len u (path_best u idx) \<le> home_len u (path_best u a))"
proof -
  let ?V = "\<lambda>a. home_len u (path_best u a)" and ?n = "cities u"
  let ?I = "\<lambda>i st. if i = 0 then st = (0x3f3f3f3f, 0, u)
    else \<exists>idx. st = (?V idx, idx, u) \<and> 0 \<le> idx \<and> idx < i \<and> (\<forall>a \<in> {0..<i}. ?V idx \<le> ?V a)"
  have val: "finish_value (wid + ex_dis_R, hei + ex_dis_T) 0 1 i u = Some (?V i, u) \<and> ?V i < 0x3f3f3f3f" if i: "0 \<le> i" "i < t" for i
  proof -
    have pre: "prefix_ok (path_best u i) ?n ?n" "len_best u i = tour_len (dis u) ?n (path_best u i)" using r i by simp_all
    let ?c = "path_best u i (?n - 1)"
    have c: "0 \<le> ?c \<and> ?c < ?n \<and> ?c < NP" by (rule prefix_range[OF pre(1)]) (use n in simp_all)
    then obtain w where w: "calc_dis (px u ?c) (py u ?c) (wid + ex_dis_R) (hei + ex_dis_T) = Some w" "w \<le> 2000"
      using home_way[OF h, of ?c] by blast
    have b: "tour_len (dis u) ?n (path_best u i) \<le> 2 ^ 25" by (rule tour_len_bounds(2)[OF d pre(1) n])
    have "i < iter_max" using i t by simp
    then have "finish_value (wid + ex_dis_R, hei + ex_dis_T) 0 1 i u = Some (?V i, u)"
      using i n c w(1) pre(2) by (simp add: finish_value_def home_len_def rd_def rd2_def rdp_def Let_def)
    moreover have "?V i < 0x3f3f3f3f" using b w by (simp add: home_len_def Let_def)
    ultimately show ?thesis by blast
  qed
  have "\<exists>st. for_up 0 t (finish_min (wid + ex_dis_R, hei + ex_dis_T) 0 1) (0x3f3f3f3f, 0, u) = Some st \<and> ?I t st"
  proof (rule for_up_total)
    fix i st assume i: "0 \<le> i" "i < t" and inv: "?I i st"
    have "{0..<i + 1} = insert i {0..<i}" using i by auto
    moreover have "finish_min (wid + ex_dis_R, hei + ex_dis_T) 0 1 i st = Some (?V i, i, u) \<and> (\<forall>a \<in> {0..<i}. ?V i \<le> ?V a)
      \<or> (\<exists>idx. finish_min (wid + ex_dis_R, hei + ex_dis_T) 0 1 i st = Some (?V idx, idx, u)
           \<and> 0 \<le> idx \<and> idx < i \<and> (\<forall>a \<in> {0..<i}. ?V idx \<le> ?V a) \<and> ?V idx \<le> ?V i)"
    proof (cases "i = 0")
      case True
      then show ?thesis using inv val[OF i] by (simp add: finish_min_def chkmin_def)
    next
      case False
      then obtain idx where st: "st = (?V idx, idx, u)" "0 \<le> idx" "idx < i" "\<forall>a \<in> {0..<i}. ?V idx \<le> ?V a"
        using inv by auto
      have "finish_min (wid + ex_dis_R, hei + ex_dis_T) 0 1 i st
          = (if ?V idx > ?V i then Some (?V i, i, u) else Some (?V idx, idx, u))"
        using val[OF i] by (simp add: st(1) finish_min_def chkmin_def)
      moreover have "\<forall>a \<in> {0..<i}. ?V i \<le> ?V a" if "?V idx > ?V i" using that st(4) by (meson less_imp_le order_trans)
      ultimately show ?thesis using st by (cases "?V idx > ?V i") auto
    qed
    ultimately show "\<exists>s'. finish_min (wid + ex_dis_R, hei + ex_dis_T) 0 1 i st = Some s' \<and> ?I (i + 1) s'"
      using i by fastforce
  qed (use t in simp_all)
  then show ?thesis using t by (auto split: if_splits)
qed

lemma copy_best_ok:
  assumes "tim \<in> {0, 1}" "0 \<le> idx" "idx < iter_max" "0 \<le> cities u" "cities u \<le> NP"
  shows "\<exists>b. copy_best tim idx u = Some (u\<lparr>best := b\<rparr>) \<and> (\<forall>k \<in> {0..<cities u}. b tim k = path_best u idx k)
    \<and> (\<forall>a k. a \<noteq> tim \<or> k \<notin> {0..<cities u} \<longrightarrow> b a k = best u a k)"
proof -
  let ?I = "\<lambda>i s. \<exists>b. s = u\<lparr>best := b\<rparr> \<and> (\<forall>k \<in> {0..<i}. b tim k = path_best u idx k)
    \<and> (\<forall>a k. a \<noteq> tim \<or> k \<notin> {0..<i} \<longrightarrow> b a k = best u a k)"
  have "\<exists>s. copy_best tim idx u = Some s \<and> ?I (cities u) s"
    unfolding copy_best_def
  proof (rule for_up_total)
    show "?I 0 u" by (intro exI[of _ "best u"]) simp
    fix i s assume i: "0 \<le> i" "i < cities u" and "?I i s"
    then obtain b where b: "s = u\<lparr>best := b\<rparr>" "\<forall>k \<in> {0..<i}. b tim k = path_best u idx k"
      "\<forall>a k. a \<noteq> tim \<or> k \<notin> {0..<i} \<longrightarrow> b a k = best u a k" by blast
    let ?b = "b(tim := (b tim)(i := path_best u idx i))"
    have ins: "{0..<i + 1} = insert i {0..<i}" using i by auto
    have "\<forall>k \<in> {0..<i + 1}. ?b tim k = path_best u idx k" using b(2) by (simp add: ins)
    moreover have "\<forall>a k. a \<noteq> tim \<or> k \<notin> {0..<i + 1} \<longrightarrow> ?b a k = best u a k"
      unfolding ins using b(3) by (simp add: fun_upd_def)
    moreover have "i < NP" "i < 60" using i assms(5) by (simp_all add: NP_def)
    then have "(do { c \<leftarrow> rd2 iter_max NP (path_best s) idx i; b \<leftarrow> wr2 2 60 (best s) tim i c; Some (s\<lparr>best := b\<rparr>) })
        = Some (u\<lparr>best := ?b\<rparr>)" using i assms(1-3) b(1) by (auto simp: rd2_def wr2_def)
    ultimately show "\<exists>t. (do { c \<leftarrow> rd2 iter_max NP (path_best s) idx i; b \<leftarrow> wr2 2 60 (best s) tim i c; Some (s\<lparr>best := b\<rparr>) }) = Some t
        \<and> ?I (i + 1) t" by blast
  qed (use assms in simp)
  then show ?thesis by blast
qed

section \<open>The whole optimiser\<close>

lemma ant_run:
  assumes "2 \<le> cities s" "cities s \<le> NP" and "1 \<le> m" "m \<le> ant_max" and "1 \<le> t" "t \<le> iter_max"
    and "0 \<le> st" "st < cities s" and "tim \<in> {0, 1}"
    and "trails_ok (cities s) 0 (pher s)" "dist_ok (cities s) (dis s)" "near_ok (cities s) (idis s)" "near_home s"
    and "\<forall>k. 0 \<le> rand k"
  shows "\<exists>v s'. ant rand t m st 1 tim 0 s = Some (v, s')
    \<and> bij_betw (best s' tim) {0..<cities s} {0..<cities s} \<and> best s' tim 0 = st
    \<and> v = home_len s (best s' tim)
    \<and> (\<forall>a \<in> {0..<t}. bij_betw (path_best s' a) {0..<cities s} {0..<cities s} \<and> v \<le> home_len s (path_best s' a))
    \<and> prefix_ok (best s' tim) (cities s) (cities s) \<and> cities s' = cities s \<and> px s' = px s \<and> py s' = py s"
proof -
  let ?s0 = "s\<lparr>delta_pher := \<lambda>_ _. 0, len_best := \<lambda>_. 0\<rparr>" and ?n = "cities s"
  have "\<exists>u. for_up 0 t (ant_iter (\<lambda>a b. to_d (a * b)) False rand m st tim) ?s0 = Some u \<and> colony_inv ?s0 st t u"
  proof (rule for_up_total)
    have "deposits 0 (\<lambda>_ _. 0)" by (simp add: deposits_def rng32_def zero_f32_def)
    then show "colony_inv ?s0 st 0 ?s0" using assms(10) by (simp add: colony_inv_def)
    fix k u assume "0 \<le> k" "k < t" "colony_inv ?s0 st k u"
    then show "\<exists>v. ant_iter (\<lambda>a b. to_d (a * b)) False rand m st tim k u = Some v \<and> colony_inv ?s0 st (k + 1) v"
      using assms by (intro ant_iter_ok) simp_all
  qed (use assms in simp)
  then obtain u where u: "for_up 0 t (ant_iter (\<lambda>a b. to_d (a * b)) False rand m st tim) ?s0 = Some u" "colony_inv ?s0 st t u" by blast
  then obtain P D W L B G where ue: "u = ?s0\<lparr>pher := P, delta_pher := D, routes := W, len_best := L, path_best := B, seed := G\<rparr>"
    unfolding colony_inv_def by blast
  have r: "\<forall>a \<in> {0..<t}. prefix_ok (path_best u a) ?n ?n \<and> path_best u a 0 = st \<and> len_best u a = tour_len (dis s) ?n (path_best u a)"
    using conjunct2[OF conjunct2[OF conjunct2[OF u(2)[unfolded colony_inv_def]]]] by simp
  have e: "cities u = ?n" "home_len u = home_len s" "dis u = dis s" "near_home u = near_home s"
    by (simp_all add: ue home_len_def near_home_def fun_eq_iff)
  have "\<exists>idx. for_up 0 t (finish_min (wid + ex_dis_R, hei + ex_dis_T) 0 1) (0x3f3f3f3f, 0, u) = Some (home_len u (path_best u idx), idx, u)
    \<and> 0 \<le> idx \<and> idx < t \<and> (\<forall>a \<in> {0..<t}. home_len u (path_best u idx) \<le> home_len u (path_best u a))"
    by (rule finish_min_ok) (use r assms in \<open>simp_all add: e\<close>)
  then obtain idx where idx: "for_up 0 t (finish_min (wid + ex_dis_R, hei + ex_dis_T) 0 1) (0x3f3f3f3f, 0, u) = Some (home_len s (path_best u idx), idx, u)"
    "0 \<le> idx" "idx < t" "\<forall>a \<in> {0..<t}. home_len s (path_best u idx) \<le> home_len s (path_best u a)" unfolding e by blast
  have "\<exists>b. copy_best tim idx u = Some (u\<lparr>best := b\<rparr>) \<and> (\<forall>k \<in> {0..<cities u}. b tim k = path_best u idx k)
    \<and> (\<forall>a k. a \<noteq> tim \<or> k \<notin> {0..<cities u} \<longrightarrow> b a k = best u a k)"
    by (rule copy_best_ok) (use idx assms in \<open>simp_all add: e\<close>)
  then obtain b where b: "copy_best tim idx u = Some (u\<lparr>best := b\<rparr>)" "\<forall>k \<in> {0..<?n}. b tim k = path_best u idx k" unfolding e by blast
  have pre: "prefix_ok (path_best u idx) ?n ?n" "path_best u idx 0 = st" using r idx by simp_all
  have "prefix_ok (b tim) ?n ?n" using prefix_cong[of ?n "b tim" "path_best u idx"] pre(1) b(2) by simp
  moreover have "b tim 0 = st" using b(2) pre(2) assms(1) by simp
  moreover have "home_len s (b tim) = home_len s (path_best u idx)"
    using tour_len_cong[of ?n "b tim" "path_best u idx"] b(2) assms(1) by (simp add: home_len_def)
  moreover have "ant rand t m st 1 tim 0 s = Some (home_len s (path_best u idx), u\<lparr>best := b\<rparr>)"
    using u(1) idx(1) b(1) by (simp add: ant_def ant_finish_def)
  moreover have "cities (u\<lparr>best := b\<rparr>) = ?n" "px (u\<lparr>best := b\<rparr>) = px s" "py (u\<lparr>best := b\<rparr>) = py s" by (simp_all add: ue)
  ultimately show ?thesis using r idx(4) prefix_bij by (intro exI[of _ "home_len s (path_best u idx)"] exI[of _ "u\<lparr>best := b\<rparr>"]) simp
qed



end
