(* ===== verification/Route_Chain.thy ===== *)
theory Route_Chain
  imports Route_Plan
begin

text \<open>
  The incremental planner over a whole tour: \<open>ACO_to_next\<close> called once per card
  (\<^verbatim>\<open>CODE/more_uart.c\<close> calls it for every class the camera reports). Its abstract
  specification is one polygon: the legs it appends to the way points are those of a single list
  of corners.
\<close>

section \<open>Legs along a list of corners\<close>

fun legs_along :: "(int \<times> int) list \<Rightarrow> legs \<Rightarrow> legs option" where
  "legs_along (a # b # ws) s = do {
     s \<leftarrow> make_path (fst a) (snd a) (fst b) (snd b) (num_path s) piece_step (s\<lparr>num_path := num_path s + 1\<rparr>);
     legs_along (b # ws) s }"
| "legs_along _ s = Some s"

lemma legs_along_append:
  "legs_along (u # us) s = Some t \<Longrightarrow> legs_along (last (u # us) # vs) t = Some r \<Longrightarrow> legs_along ((u # us) @ vs) s = Some r"
  by (induction us arbitrary: u s) (auto split: bind_splits)

lemma leg_tot_short:
  assumes "\<bar>x1 - x0\<bar> \<le> 1000" and "\<bar>y1 - y0\<bar> \<le> 1000"
  shows "\<exists>tot. leg_tot x0 y0 x1 y1 piece_step = Some tot \<and> 1 \<le> tot \<and> tot < NUM"
proof -
  define n where "n = (x1 - x0) * (x1 - x0) + (y1 - y0) * (y1 - y0)"
  have "(x1 - x0) * (x1 - x0) \<le> 1000 * 1000" "(y1 - y0) * (y1 - y0) \<le> 1000 * 1000"
    using mult_mono[OF assms(1) assms(1)] mult_mono[OF assms(2) assms(2)]
      abs_mult_self_eq[of "x1 - x0"] abs_mult_self_eq[of "y1 - y0"] by simp_all
  then have n: "0 \<le> n" "n \<le> 1499 * 1499" by (simp_all add: n_def)
  have "isqrt n \<le> isqrt (1499 * 1499)" using n by (intro isqrt_mono) simp_all
  also have "isqrt (1499 * 1499) = 1499" by (rule isqrt_square) simp
  finally have "isqrt n < 15 * 100" by simp
  moreover have "\<bar>x1 - x0\<bar> < 2 ^ 19" "\<bar>y1 - y0\<bar> < 2 ^ 19" using assms by simp_all
  ultimately show ?thesis using leg_tot_upto[of x1 x0 y1 y0 100] by (auto simp: n_def NUM_def)
qed

lemma make_path_fresh:
  assumes "\<bar>x1 - x0\<bar> \<le> 1000" and "\<bar>y1 - y0\<bar> \<le> 1000" and num: "0 \<le> num" "num < 60" and "path_tot s num = 0"
  shows "\<exists>s'. make_path x0 y0 x1 y1 num piece_step s = Some s' \<and> num_path s' = num_path s
    \<and> (\<forall>k. k \<noteq> num \<longrightarrow> path_tot s' k = path_tot s k)"
proof -
  obtain tot where tot: "leg_tot x0 y0 x1 y1 piece_step = Some tot" "1 \<le> tot" "tot < NUM"
    using leg_tot_short[OF assms(1,2)] by blast
  let ?sx = "d_of_int (x1 - x0) / d_of_int tot" and ?sy = "d_of_int (y1 - y0) / d_of_int tot"
  have small: "\<bar>x1 - x0\<bar> < 2 ^ 19" "\<bar>y1 - y0\<bar> < 2 ^ 19" "tot \<le> 2 ^ 20 + 2" using assms(1,2) tot(3) by (simp_all add: NUM_def)
  obtain ix iy where st: "d_int ?sx = Some ix" "\<bar>ix\<bar> < 2 ^ 19" "d_int ?sy = Some iy" "\<bar>iy\<bar> < 2 ^ 19"
    using step_int[OF small(1) tot(2) small(3)] step_int[OF small(2) tot(2) small(3)] by blast
  obtain s1 where s1: "path_start x0 y0 num s = Some s1" "path_tot s1 = path_tot s" "num_path s1 = num_path s"
    using num by (auto simp: path_start_def wr_xy_def wr2_def NUM_def pieces_def)
  have "case for_up (0 + 1) (0 + tot + 1) (path_point num ?sx ?sy) s1 of
      None \<Rightarrow> NUM \<le> 0 + tot | Some s' \<Rightarrow> 0 + tot < NUM \<and> leg_inv num 0 s1 (0 + tot + 1) s'"
    using num tot(2) st by (intro leg_loop[where ix = ix and iy = iy]) (simp_all add: NUM_def)
  then obtain s2 where s2: "for_up 1 (tot + 1) (path_point num ?sx ?sy) s1 = Some s2" "same_but num 0 s1 s2"
    using tot(3) by (auto simp: leg_inv_def split: option.splits)
  then show ?thesis
    using tot(1) s1 num assms(5) by (auto simp: make_path_def c_simps rd_def wr_def same_but_def)
qed

text \<open>The rows from \<open>num_path\<close> on are empty and there are \<open>k\<close> of them.\<close>

definition room :: "int \<Rightarrow> legs \<Rightarrow> bool" where
  "room k s \<longleftrightarrow> 0 \<le> num_path s \<and> num_path s + k \<le> 60 \<and> (\<forall>r. num_path s \<le> r \<and> r < 60 \<longrightarrow> path_tot s r = 0)"

lemma leg_ok:
  assumes "\<bar>x1 - x0\<bar> \<le> 1000" and "\<bar>y1 - y0\<bar> \<le> 1000" and "room (k + 1) (lg p)" and "0 \<le> k"
  shows "\<exists>s. leg x0 y0 x1 y1 p = Some (p\<lparr>lg := s\<rparr>) \<and> legs_along [(x0, y0), (x1, y1)] (lg p) = Some s \<and> room k s"
proof -
  let ?n = "num_path (lg p)" and ?s = "(lg p)\<lparr>num_path := num_path (lg p) + 1\<rparr>"
  have n: "0 \<le> ?n" "?n < 60" "path_tot ?s ?n = 0" using assms(3,4) by (auto simp: room_def)
  from make_path_fresh[OF assms(1,2) n] obtain s where
    s: "make_path x0 y0 x1 y1 ?n piece_step ?s = Some s" "num_path s = ?n + 1" "\<forall>k. k \<noteq> ?n \<longrightarrow> path_tot s k = path_tot (lg p) k"
    by auto
  have "room k s" using s(2,3) assms(3) by (auto simp: room_def)
  then show ?thesis using s(1) by (auto simp: leg_def)
qed

section \<open>One card\<close>

definition here :: "plan \<Rightarrow> int \<times> int" where
  "here p = (px (col p) (lsttt p), py (col p) (lsttt p))"

text \<open>The card \<open>j\<close> calls ahead.\<close>

definition ahead :: "plan \<Rightarrow> int \<Rightarrow> int" where
  "ahead p j = best (col p) 0 (path_clk p + j)"

definition near_field :: "int \<times> int \<Rightarrow> bool" where
  "near_field c \<longleftrightarrow> - 30 \<le> fst c \<and> fst c \<le> 730 \<and> - 50 \<le> snd c \<and> snd c \<le> 500"

definition ready :: "nat \<Rightarrow> plan \<Rightarrow> bool" where
  "ready k p \<longleftrightarrow> 0 \<le> path_clk p \<and> path_clk p + int k < 60 \<and> room (2 * int k) (lg p)
     \<and> 0 \<le> lsttt p \<and> lsttt p < NP \<and> near_field (here p)
     \<and> (\<forall>j \<in> {1..int k}. 0 \<le> ahead p j \<and> ahead p j < NP \<and> ahead p j \<noteq> lsttt p
          \<and> on_field (px (col p) (ahead p j)) (py (col p) (ahead p j)))
     \<and> inj_on (ahead p) {1..int k}"

text \<open>A step moves only the next card's stop, by a few centimetres.\<close>

definition moved :: "plan \<Rightarrow> plan \<Rightarrow> int \<Rightarrow> bool" where
  "moved p q c \<longleftrightarrow> \<bar>px (col q) c - px (col p) c\<bar> \<le> 8 \<and> \<bar>py (col q) c - py (col p) c\<bar> \<le> 2"

definition next_ok :: "plan \<Rightarrow> plan \<Rightarrow> (int \<times> int) list \<Rightarrow> bool" where
  "next_ok p q ws \<longleftrightarrow> legs_along (here p # ws) (lg p) = Some (lg q) \<and> 1 \<le> length ws \<and> length ws \<le> 2 \<and> last ws = here q
     \<and> path_clk q = path_clk p + 1 \<and> best (col q) = best (col p) \<and> lsttt q = ahead p 1 \<and> lstttt q = lsttt p
     \<and> (\<forall>c. c \<noteq> ahead p 1 \<longrightarrow> px (col q) c = px (col p) c \<and> py (col q) c = py (col p) c) \<and> moved p q (ahead p 1)"

lemma check_yaw_cases: "check_yaw atan x0 y0 x1 y1 \<in> {0, 1, 2}"
  by (simp add: check_yaw_def Let_def)

lemma next_step:
  assumes "ready (Suc k) p"
  shows "\<exists>q ws. ACO_to_next atan p = Some q \<and> next_ok p q ws \<and> room (2 * int k) (lg q) \<and> near_field (here q)"
proof -
  define c l where "c = ahead p 1" and "l = lsttt p"
  define p1 where "p1 = p\<lparr>path_clk := path_clk p + 1, nxttt := c\<rparr>"
  obtain xl yl xn yn where xy: "px (col p) l = xl" "py (col p) l = yl" "px (col p) c = xn" "py (col p) c = yn" by blast
  have c: "0 \<le> c" "c < NP" "c \<noteq> l" "on_field xn yn" and l: "0 \<le> l" "l < NP" "near_field (xl, yl)"
    and clk: "0 \<le> path_clk p + 1" "path_clk p + 1 < 60" and room: "room (2 * int k + 1 + 1) (lg p1)" and k: "0 \<le> 2 * int k + 1" "0 \<le> 2 * int k"
    using assms xy by (auto simp: ready_def c_def l_def here_def p1_def algebra_simps)
  note fd = c(4)[unfolded on_field_def] l(3)[unfolded near_field_def fst_conv snd_conv]
  have rdn: "rd_path p 0 (path_clk p + 1) = Some c"
    using clk by (simp add: rd_path_def rd2_def c_def ahead_def)
  let ?v = "check_yaw atan xl yl xn yn"
  have unf: "ACO_to_next atan p = do {
     q \<leftarrow> (if ?v = 0 then leg xl yl xn yn p1 else Some p1);
     q \<leftarrow> (if ?v = 1 then do { q \<leftarrow> put_y c (yn - yaw_dis) q; yl \<leftarrow> get_y q l; leg xl yl xn (yn - yaw_dis) q } else Some q);
     q \<leftarrow> (if ?v = 2 then do {
             let hori_dis = (if xn \<le> xl then 20 else - 20);
             q \<leftarrow> leg xl yl (xn + hori_dis) yn q;
             let tmp = (if xn \<le> xl then - 8 else 8);
             q \<leftarrow> leg (xn + hori_dis) yn (xn + tmp) yn q;
             put_x c (xn + tmp) q }
           else Some q);
     Some (q\<lparr>lstttt := lsttt q, lsttt := nxttt q\<rparr>) }"
    using rdn c(1,2) l(1,2) xy
    by (simp add: ACO_to_next_def rd_path_def get_x_def get_y_def rd_def p1_def l_def)
  consider "?v = 0" | "?v = 1" | "?v = 2" using check_yaw_cases[of atan xl yl xn yn] by blast
  then show ?thesis
  proof cases
    case 1
    have "\<bar>xn - xl\<bar> \<le> 1000" "\<bar>yn - yl\<bar> \<le> 1000" using fd by linarith+
    from leg_ok[OF this room k(1)] obtain s where s: "leg xl yl xn yn p1 = Some (p1\<lparr>lg := s\<rparr>)"
      "legs_along [(xl, yl), (xn, yn)] (lg p1) = Some s" "room (2 * int k + 1) s" by blast
    let ?q = "p1\<lparr>lg := s, lstttt := l, lsttt := c\<rparr>"
    have "ACO_to_next atan p = Some ?q" using 1 s(1) by (simp add: unf p1_def l_def)
    moreover have "next_ok p ?q [(xn, yn)]"
      using s(2) xy by (simp add: next_ok_def here_def p1_def moved_def c_def l_def)
    moreover have "near_field (xn, yn)" using fd by (auto simp: near_field_def)
    ultimately show ?thesis using s(3) xy by (intro exI[of _ ?q] exI[of _ "[(xn, yn)]"]) (auto simp: room_def here_def p1_def)
  next
    case 2
    let ?y = "yn - yaw_dis"
    have b: "\<bar>xn - xl\<bar> \<le> 1000" "\<bar>?y - yl\<bar> \<le> 1000" using fd by (simp_all add: yaw_dis_def) linarith+
    let ?p2 = "p1\<lparr>col := (col p1)\<lparr>py := (py (col p))(c := ?y)\<rparr>\<rparr>"
    have put: "put_y c ?y p1 = Some ?p2" using c by (simp add: put_y_def wr_def p1_def)
    have yl: "get_y ?p2 l = Some yl" using l c xy by (simp add: get_y_def rd_def)
    have "room (2 * int k + 1 + 1) (lg ?p2)" using room by simp
    from leg_ok[OF b this k(1)] obtain s where s: "leg xl yl xn ?y ?p2 = Some (?p2\<lparr>lg := s\<rparr>)"
      "legs_along [(xl, yl), (xn, ?y)] (lg p1) = Some s" "room (2 * int k + 1) s" by (auto simp del: legs_along.simps)
    let ?q = "?p2\<lparr>lg := s, lstttt := l, lsttt := c\<rparr>"
    have "ACO_to_next atan p = Some ?q" using 2 s(1) put yl by (simp add: unf p1_def l_def)
    moreover have "next_ok p ?q [(xn, ?y)]"
      using s(2) xy by (simp add: next_ok_def here_def p1_def moved_def c_def l_def yaw_dis_def)
    moreover have "near_field (xn, ?y)" using fd by (auto simp: near_field_def yaw_dis_def)
    ultimately show ?thesis using s(3) xy by (intro exI[of _ ?q] exI[of _ "[(xn, ?y)]"]) (auto simp: room_def here_def p1_def)
  next
    case 3
    define h t where "h = (if xn \<le> xl then 20 else - 20 :: int)" and "t = (if xn \<le> xl then - 8 else 8 :: int)"
    have ht: "\<bar>h\<bar> \<le> 20" "\<bar>t\<bar> \<le> 8" by (simp_all add: h_def t_def)
    have b: "\<bar>xn + h - xl\<bar> \<le> 1000" "\<bar>yn - yl\<bar> \<le> 1000" "\<bar>xn + t - (xn + h)\<bar> \<le> 1000" "\<bar>yn - yn\<bar> \<le> 1000"
      using fd ht by linarith+
    from leg_ok[OF b(1,2) room k(1)] obtain s where s: "leg xl yl (xn + h) yn p1 = Some (p1\<lparr>lg := s\<rparr>)"
      "legs_along [(xl, yl), (xn + h, yn)] (lg p1) = Some s" "room (2 * int k + 1) s" by blast
    let ?p2 = "p1\<lparr>lg := s\<rparr>"
    have "room (2 * int k + 1) (lg ?p2)" using s(3) by simp
    from leg_ok[OF b(3,4) this k(2)] obtain s' where s': "leg (xn + h) yn (xn + t) yn ?p2 = Some (?p2\<lparr>lg := s'\<rparr>)"
      "legs_along [(xn + h, yn), (xn + t, yn)] s = Some s'" "room (2 * int k) s'" by (auto simp del: legs_along.simps)
    let ?q = "p1\<lparr>lg := s', col := (col p)\<lparr>px := (px (col p))(c := xn + t)\<rparr>, lstttt := l, lsttt := c\<rparr>"
    have "put_x c (xn + t) (?p2\<lparr>lg := s'\<rparr>) = Some (p1\<lparr>lg := s', col := (col p)\<lparr>px := (px (col p))(c := xn + t)\<rparr>\<rparr>)"
      using c by (simp add: put_x_def wr_def p1_def)
    then have "ACO_to_next atan p = Some ?q"
      using 3 s(1) s'(1) by (simp add: unf h_def[symmetric] t_def[symmetric]) (simp add: p1_def l_def)
    moreover have "legs_along ([(xl, yl), (xn + h, yn)] @ [(xn + t, yn)]) (lg p1) = Some s'"
      by (rule legs_along_append[OF s(2)]) (use s'(2) in simp)
    then have "next_ok p ?q [(xn + h, yn), (xn + t, yn)]"
      using xy ht by (simp add: next_ok_def here_def p1_def moved_def c_def l_def)
    moreover have "near_field (xn + t, yn)" using fd ht by (auto simp: near_field_def)
    ultimately show ?thesis using s'(3) xy
      by (intro exI[of _ ?q] exI[of _ "[(xn + h, yn), (xn + t, yn)]"]) (auto simp: room_def here_def p1_def)
  qed
qed

section \<open>A tour\<close>

text \<open>\<open>k\<close> calls of \<open>ACO_to_next\<close>.\<close>

primrec nexts :: "(f64 \<Rightarrow> f64) \<Rightarrow> nat \<Rightarrow> plan \<Rightarrow> plan option" where
  "nexts atan 0 p = Some p"
| "nexts atan (Suc k) p = do { p \<leftarrow> ACO_to_next atan p; nexts atan k p }"

lemma ready_next:
  assumes "ready (Suc k) p" and "next_ok p q ws" and "room (2 * int k) (lg q)" and "near_field (here q)"
  shows "ready k q"
proof -
  have a: "ahead q j = ahead p (j + 1)" for j
    using assms(2) by (simp add: next_ok_def ahead_def algebra_simps)
  have far: "ahead p (j + 1) \<noteq> ahead p 1" if "j \<in> {1..int k}" for j
    using assms(1) that inj_onD[of "ahead p" "{1..int (Suc k)}" "j + 1" 1] by (auto simp: ready_def)
  have "inj_on (ahead q) {1..int k}"
  proof (rule inj_onI)
    fix i j assume "i \<in> {1..int k}" "j \<in> {1..int k}" "ahead q i = ahead q j"
    then show "i = j" using assms(1) inj_onD[of "ahead p" "{1..int (Suc k)}" "i + 1" "j + 1"] by (auto simp: ready_def a)
  qed
  moreover have "0 \<le> ahead q j \<and> ahead q j < NP \<and> ahead q j \<noteq> lsttt q \<and> on_field (px (col q) (ahead q j)) (py (col q) (ahead q j))"
    if j: "j \<in> {1..int k}" for j
  proof -
    have "j + 1 \<in> {1..int (Suc k)}" using j by simp
    then have "0 \<le> ahead p (j + 1) \<and> ahead p (j + 1) < NP \<and> on_field (px (col p) (ahead p (j + 1))) (py (col p) (ahead p (j + 1)))"
      using assms(1) unfolding ready_def by blast
    then show ?thesis using far[OF j] assms(2) by (simp add: a next_ok_def)
  qed
  moreover have "0 \<le> lsttt q \<and> lsttt q < NP"
  proof -
    have "1 \<in> {1..int (Suc k)}" by simp
    then have "0 \<le> ahead p 1 \<and> ahead p 1 < NP" using assms(1) unfolding ready_def by blast
    then show ?thesis using assms(2) by (simp add: next_ok_def)
  qed
  moreover have "0 \<le> path_clk q" "path_clk q + int k < 60" using assms(1,2) by (simp_all add: ready_def next_ok_def)
  ultimately show ?thesis using assms(3,4) unfolding ready_def by blast
qed

definition tour_ok :: "nat \<Rightarrow> plan \<Rightarrow> plan \<Rightarrow> (int \<times> int) list \<Rightarrow> bool" where
  "tour_ok k p q ws \<longleftrightarrow> legs_along (here p # ws) (lg p) = Some (lg q) \<and> k \<le> length ws \<and> length ws \<le> 2 * k
     \<and> last (here p # ws) = here q \<and> path_clk q = path_clk p + int k
     \<and> (\<forall>j \<in> {1..int k}. (px (col q) (ahead p j), py (col q) (ahead p j)) \<in> set ws \<and> moved p q (ahead p j))
     \<and> (\<forall>c. (\<forall>j \<in> {1..int k}. c \<noteq> ahead p j) \<longrightarrow> px (col q) c = px (col p) c \<and> py (col q) c = py (col p) c)"

lemma tour_ok_Cons:
  assumes "ready (Suc k) p" and n: "next_ok p r us" and t: "tour_ok k r q ws"
  shows "tour_ok (Suc k) p q (us @ ws)"
proof -
  have a: "ahead r j = ahead p (j + 1)" for j
    using n by (simp add: next_ok_def ahead_def algebra_simps)
  have us: "us \<noteq> []" "last (here p # us) = here r" using n by (auto simp: next_ok_def)
  have "legs_along (here p # us) (lg p) = Some (lg r)" "legs_along (last (here p # us) # ws) (lg r) = Some (lg q)"
    using n t unfolding us(2) next_ok_def tour_ok_def by blast+
  then have "legs_along ((here p # us) @ ws) (lg p) = Some (lg q)" by (rule legs_along_append)
  moreover have "last (here p # us @ ws) = here q"
    using t us by (cases ws) (simp_all add: tour_ok_def)
  moreover have "(px (col q) (ahead p j), py (col q) (ahead p j)) \<in> set (us @ ws) \<and> moved p q (ahead p j)"
    if j: "j \<in> {1..int (Suc k)}" for j
  proof (cases "j = 1")
    case True
    have "ahead p 1 \<noteq> ahead r i" if "i \<in> {1..int k}" for i
      using assms(1) that inj_onD[of "ahead p" "{1..int (Suc k)}" "i + 1" 1] by (auto simp: ready_def a)
    then have eq: "px (col q) (ahead p 1) = px (col r) (ahead p 1)" "py (col q) (ahead p 1) = py (col r) (ahead p 1)"
      using t unfolding tour_ok_def by blast+
    have "here r = (px (col r) (ahead p 1), py (col r) (ahead p 1))" using n by (simp add: next_ok_def here_def)
    moreover have "here r \<in> set us" using us n by (metis last_in_set next_ok_def)
    ultimately show ?thesis using n True eq by (simp add: next_ok_def moved_def)
  next
    case False
    then have i: "j - 1 \<in> {1..int k}" using j by auto
    have ne: "ahead p j \<noteq> ahead p 1"
      using assms(1) j False inj_onD[of "ahead p" "{1..int (Suc k)}" j 1] by (auto simp: ready_def)
    have "(px (col q) (ahead p j), py (col q) (ahead p j)) \<in> set ws \<and> moved r q (ahead p j)"
    proof -
      have "(px (col q) (ahead r (j - 1)), py (col q) (ahead r (j - 1))) \<in> set ws \<and> moved r q (ahead r (j - 1))"
        using t i unfolding tour_ok_def by blast
      then show ?thesis by (simp add: a)
    qed
    then show ?thesis using n ne by (simp add: next_ok_def moved_def)
  qed
  moreover have "px (col q) c = px (col p) c \<and> py (col q) c = py (col p) c" if c: "\<forall>j \<in> {1..int (Suc k)}. c \<noteq> ahead p j" for c
  proof -
    have "c \<noteq> ahead p 1" "\<forall>i \<in> {1..int k}. c \<noteq> ahead r i" using c by (auto simp: a)
    then show ?thesis using n t unfolding next_ok_def tour_ok_def by (metis (no_types, lifting))
  qed
  ultimately show ?thesis using n t by (auto simp: tour_ok_def next_ok_def)
qed

lemma nexts_ok: "ready k p \<Longrightarrow> \<exists>q ws. nexts atan k p = Some q \<and> tour_ok k p q ws"
proof (induction k arbitrary: p)
  case 0
  then show ?case by (intro exI[of _ p] exI[of _ "[]"]) (simp add: tour_ok_def)
next
  case (Suc k)
  from next_step[OF Suc.prems, of atan] obtain r us where
    r: "ACO_to_next atan p = Some r" "next_ok p r us" "room (2 * int k) (lg r)" "near_field (here r)" by blast
  from Suc.IH[OF ready_next[OF Suc.prems r(2-4)]] obtain q ws where
    q: "nexts atan k r = Some q" "tour_ok k r q ws" by blast
  then show ?case using r(1) tour_ok_Cons[OF Suc.prems r(2) q(2)]
    by (intro exI[of _ q] exI[of _ "us @ ws"]) simp
qed

end
