(* ===== verification/Tour_Plan.thy ===== *)
theory Tour_Plan
  imports Colony_Run Route_Chain Card_Locate
begin

text \<open>
  The first half of the task as \<^verbatim>\<open>CODE/aco.c\<close> plans it: \<open>ACO_to_first\<close> converts the cells of the
  cards, fills the distance tables (\<open>init_tag\<close>), runs the ant colony and shuffles the tour, then
  \<open>ACO_to_next\<close> is called once per card.
\<close>

section \<open>The distance tables\<close>

text \<open>
  The library's \<open>pow\<close> on positive arguments within the range of the tables: a result within a
  factor of two of the fifth power.
\<close>

definition pow_ok :: "(f64 \<Rightarrow> f64 \<Rightarrow> f64) \<Rightarrow> bool" where
  "pow_ok pow \<longleftrightarrow> (\<forall>q. 2 powi - 5 \<le> q \<and> q \<le> 2 powi 7
     \<longrightarrow> (\<exists>y. pow (F64 (Fin q)) ant_beta = F64 (Fin y) \<and> q ^ 5 / 2 \<le> y \<and> y \<le> 2 * q ^ 5))"

lemma idis_entry:
  assumes "1 \<le> d" "d \<le> 2000"
  shows "rng32 (2 powi - 5) (2 powi 7) (to_s (lit 100 / d_of_int d))"
proof -
  have i: "fround binary64 (of_int d) = Fin (of_int d)" "fround binary64 100 = Fin 100"
    using rep_int[of d] rep_int[of 100] assms by (simp_all add: rep64_def)
  have d: "(1 :: rat) \<le> of_int d" "of_int d \<le> (2000 :: rat)" using assms by simp_all
  have "lit 100 / d_of_int d = F64 (fround binary64 (100 / of_int d))"
    using i d by (simp add: lit_def d_of_int_def F64_arith)
  moreover have "2 powi - 5 \<le> 100 / (of_int d :: rat)" "100 / (of_int d :: rat) \<le> 2 powi 7"
    using d by (simp_all add: power_int_def divide_simps)
  ultimately have "rng64 (2 powi - 5) (2 powi 7) (lit 100 / d_of_int d)"
    using rep_pow2[of "- 5"] rep_pow2[of 7] by (simp add: round64_rng)
  then show ?thesis using rep_pow2[of "- 5"] rep_pow2[of 7] by (intro rng_to(2)) simp_all
qed

lemma pow_entry:
  assumes "pow_ok pow" and "rng32 (2 powi - 5) (2 powi 7) e"
  shows "rng32 (2 powi - 40) (2 powi 40) (to_s (pow (to_d e) ant_beta))"
proof -
  obtain q where q: "e = F32 (Fin q)" "2 powi - 5 \<le> q" "q \<le> 2 powi 7" using assms(2) unfolding rng32_def by blast
  then obtain y where y: "pow (F64 (Fin q)) ant_beta = F64 (Fin y)" "q ^ 5 / 2 \<le> y" "y \<le> 2 * q ^ 5"
    using assms(1) unfolding pow_ok_def by blast
  have "0 \<le> (2 powi - 5 :: rat)" by simp
  with q(2) have "0 \<le> q" by (rule order_trans[rotated])
  with q(2,3) have "(2 powi - 5 :: rat) ^ 5 \<le> q ^ 5" "q ^ 5 \<le> (2 powi 7 :: rat) ^ 5"
    by (intro power_mono; simp)+
  then have "(2 powi - 40 :: rat) \<le> y" "y \<le> 2 powi 40" using y(2,3) by (simp_all add: power_int_def power_divide)
  then have "rng64 (2 powi - 40) (2 powi 40) (pow (to_d e) ant_beta)" using y(1) q(1) by (auto simp: rng64_def)
  then show ?thesis using rep_pow2[of "- 40"] rep_pow2[of 40] by (intro rng_to(2)) simp_all
qed

text \<open>The cities are different places near the field.\<close>

definition places_ok :: "colony \<Rightarrow> bool" where
  "places_ok s \<longleftrightarrow> near_home s \<and> inj_on (\<lambda>a. (px s a, py s a)) {0..<cities s}"

lemma places_dist:
  assumes "places_ok s" and ab: "a \<in> {0..<cities s}" "b \<in> {0..<cities s}" "a \<noteq> b"
  shows "\<exists>d. calc_dis (px s a) (py s a) (px s b) (py s b) = Some d \<and> 1 \<le> d \<and> d \<le> 2000"
proof -
  let ?x = "px s a - px s b" and ?y = "py s a - py s b"
  have "near_home s" using assms(1) by (simp add: places_ok_def)
  then have n: "- 100 \<le> px s a" "px s a \<le> 800" "- 100 \<le> py s a" "py s a \<le> 800" "- 100 \<le> px s b" "px s b \<le> 800" "- 100 \<le> py s b" "py s b \<le> 800"
    using ab unfolding near_home_def by blast+
  have "\<bar>?x\<bar> \<le> 1000" "\<bar>?y\<bar> \<le> 1000" using n by linarith+
  then obtain d where d: "calc_dis (px s a) (py s a) (px s b) (py s b) = Some d" "d \<le> 2000" using calc_dis_small by blast
  have "\<bar>?x\<bar> < 2 ^ 19" "\<bar>?y\<bar> < 2 ^ 19" using n by (simp_all add: abs_less_iff)
  from isqrt_dist[OF this] d(1) have "d = isqrt (?x * ?x + ?y * ?y)" by simp
  moreover have "?x \<noteq> 0 \<or> ?y \<noteq> 0" using assms(1) ab unfolding places_ok_def inj_on_def by auto
  then have "1 * 1 \<le> ?x * ?x + ?y * ?y"
    by (metis add.left_neutral add_mono int_one_le_iff_zero_less mult.left_neutral not_square_less_zero sum_squares_gt_zero_iff)
  then have "isqrt (1 * 1) \<le> isqrt (?x * ?x + ?y * ?y)" by (intro isqrt_mono) simp_all
  ultimately have "1 \<le> d" using isqrt_square[of 1] by simp
  then show ?thesis using d by blast
qed

definition cell_ok :: "colony \<Rightarrow> int \<Rightarrow> int \<Rightarrow> int \<Rightarrow> f32 \<Rightarrow> f32 \<Rightarrow> bool" where
  "cell_ok s a b d e p \<longleftrightarrow> trail 0 p
     \<and> (a \<noteq> b \<longrightarrow> calc_dis (px s a) (py s a) (px s b) (py s b) = Some d \<and> 1 \<le> d \<and> d \<le> 2000 \<and> rng32 (2 powi - 5) (2 powi 7) e)"

definition init_inv :: "colony \<Rightarrow> int \<Rightarrow> int \<Rightarrow> colony \<Rightarrow> bool" where
  "init_inv s i j u \<longleftrightarrow> (\<exists>d e p. u = s\<lparr>dis := d, idis := e, pher := p\<rparr>
     \<and> (\<forall>a \<in> {0..<cities s}. \<forall>b \<in> {0..<cities s}. before i j a b \<longrightarrow> cell_ok s a b (d a b) (e a b) (p a b)))"

lemma one_trail: "trail 0 (to_s (lit 1))"
  using rep_int[of 1] by (simp add: rng32_def trail_lo_def trail_hi_def power_int_def rep32_def rep64_def lit_def to_s_def)

lemma init_step:
  assumes pl: "places_ok s" and inv: "init_inv s i j u" and ij: "0 \<le> i" "i < cities s" "0 \<le> j" "j < cities s" "cities s \<le> NP"
  shows "\<exists>v. init_cell 0 i j u = Some v \<and> init_inv s i (j + 1) v"
proof -
  obtain d e p where u: "u = s\<lparr>dis := d, idis := e, pher := p\<rparr>"
    "\<forall>a \<in> {0..<cities s}. \<forall>b \<in> {0..<cities s}. before i j a b \<longrightarrow> cell_ok s a b (d a b) (e a b) (p a b)"
    using inv unfolding init_inv_def by blast
  have b: "i < NP" "j < NP" using ij by simp_all
  obtain x y where xy: "init_cell 0 i j u = Some (s\<lparr>dis := d(i := (d i)(j := x)), idis := e(i := (e i)(j := y)), pher := p(i := (p i)(j := to_s (lit 1)))\<rparr>)"
    "cell_ok s i j x y (to_s (lit 1))"
  proof (cases "i = j")
    case True
    show ?thesis by (rule that[where x = 0 and y = "to_s (1 * d_of_int 0x3f3f3f3f)"])
      (use True b ij in \<open>simp_all add: init_cell_def wr2_def u(1) cell_ok_def one_trail\<close>)
  next
    case False
    then obtain v where v: "calc_dis (px s i) (py s i) (px s j) (py s j) = Some v" "1 \<le> v" "v \<le> 2000"
      using places_dist[OF pl, of i j] ij by auto
    have "init_cell 0 i j u = Some (s\<lparr>dis := d(i := (d i)(j := v)), idis := e(i := (e i)(j := to_s (lit 100 / d_of_int v))),
        pher := p(i := (p i)(j := to_s (lit 1)))\<rparr>)"
      using False b ij v(1) by (simp add: init_cell_def tag_entry_def plain_dist_def rdp_def rd_def wr2_def u(1))
    moreover have "cell_ok s i j v (to_s (lit 100 / d_of_int v)) (to_s (lit 1))"
      using v one_trail idis_entry[OF v(2,3)] unfolding cell_ok_def by blast
    ultimately show ?thesis by (rule that)
  qed
  have "init_inv s i (j + 1) (s\<lparr>dis := d(i := (d i)(j := x)), idis := e(i := (e i)(j := y)), pher := p(i := (p i)(j := to_s (lit 1)))\<rparr>)"
    unfolding init_inv_def
  proof (intro exI conjI ballI impI)
    fix a b assume "a \<in> {0..<cities s}" "b \<in> {0..<cities s}" "before i (j + 1) a b"
    then show "cell_ok s a b ((d(i := (d i)(j := x))) a b) ((e(i := (e i)(j := y))) a b) ((p(i := (p i)(j := to_s (lit 1)))) a b)"
      using u(2) xy(2) by (cases "a = i \<and> b = j") (auto simp: before_step)
  qed (rule refl)
  then show ?thesis using xy(1) by blast
qed

definition pow_inv :: "colony \<Rightarrow> int \<Rightarrow> int \<Rightarrow> colony \<Rightarrow> bool" where
  "pow_inv s i j u \<longleftrightarrow> (\<exists>e. u = s\<lparr>idis := e\<rparr>
     \<and> (\<forall>a \<in> {0..<cities s}. \<forall>b \<in> {0..<cities s}. a \<noteq> b \<longrightarrow> (if before i j a b
          then rng32 (2 powi - 40) (2 powi 40) (e a b) else rng32 (2 powi - 5) (2 powi 7) (e a b))))"

lemma pow_step:
  assumes pow: "pow_ok pow" and inv: "pow_inv s i j u" and ij: "0 \<le> i" "i < cities s" "0 \<le> j" "j < cities s" "cities s \<le> NP"
  shows "\<exists>v. pow_cell pow i j u = Some v \<and> pow_inv s i (j + 1) v"
proof -
  obtain e where u: "u = s\<lparr>idis := e\<rparr>"
    "\<forall>a \<in> {0..<cities s}. \<forall>b \<in> {0..<cities s}. a \<noteq> b \<longrightarrow> (if before i j a b
          then rng32 (2 powi - 40) (2 powi 40) (e a b) else rng32 (2 powi - 5) (2 powi 7) (e a b))"
    using inv unfolding pow_inv_def by blast
  let ?v = "to_s (pow (to_d (e i j)) ant_beta)"
  have new: "rng32 (2 powi - 40) (2 powi 40) ?v" if "i \<noteq> j"
  proof -
    have "i \<in> {0..<cities s}" "j \<in> {0..<cities s}" "\<not> before i j i j" using ij by (simp_all add: before_def)
    moreover from this have "if before i j i j then rng32 (2 powi - 40) (2 powi 40) (e i j) else rng32 (2 powi - 5) (2 powi 7) (e i j)"
      using u(2) that by blast
    ultimately have "rng32 (2 powi - 5) (2 powi 7) (e i j)" by (simp only: if_False)
    with pow show ?thesis by (rule pow_entry)
  qed
  have "pow_inv s i (j + 1) (s\<lparr>idis := e(i := (e i)(j := ?v))\<rparr>)"
    unfolding pow_inv_def
  proof (intro exI conjI ballI impI)
    fix a b :: int assume ab: "a \<in> {0..<cities s}" "b \<in> {0..<cities s}" "a \<noteq> b"
    have old: "if before i j a b then rng32 (2 powi - 40) (2 powi 40) (e a b) else rng32 (2 powi - 5) (2 powi 7) (e a b)"
      using u(2) ab by blast
    let ?w = "(e(i := (e i)(j := ?v))) a b"
    show "if before i (j + 1) a b then rng32 (2 powi - 40) (2 powi 40) ?w else rng32 (2 powi - 5) (2 powi 7) ?w"
    proof (cases "a = i \<and> b = j")
      case True
      then show ?thesis using new ab by (simp only: before_step fun_upd_same simp_thms if_True)
    next
      case False
      then have "before i (j + 1) a b = before i j a b" "?w = e a b" by (auto simp: before_step)
      then show ?thesis using old by (simp only:)
    qed
  qed (rule refl)
  moreover have "i < NP" "j < NP" using ij by simp_all
  ultimately show ?thesis using ij by (simp add: pow_cell_def u(1) rd2_def wr2_def)
qed

lemma init_tag_ok:
  assumes pow: "pow_ok pow" and pl: "places_ok s" and n: "0 \<le> cities s" "cities s \<le> NP"
  shows "\<exists>d e p. init_tag pow 0 s = Some (s\<lparr>dis := d, idis := e, pher := p\<rparr>)
    \<and> trails_ok (cities s) 0 p \<and> dist_ok (cities s) d \<and> near_ok (cities s) e
    \<and> (\<forall>a \<in> {0..<cities s}. \<forall>b \<in> {0..<cities s}. a \<noteq> b \<longrightarrow> calc_dis (px s a) (py s a) (px s b) (py s b) = Some (d a b))"
proof -
  have "\<exists>u. for_up 0 (cities s) (\<lambda>i u. for_up 0 (cities u) (\<lambda>j. init_cell 0 i j) u) s = Some u \<and> init_inv s (cities s) 0 u"
  proof (rule for_up_grid)
    show "init_inv s 0 0 s" unfolding init_inv_def
      by (intro exI[of _ "dis s"] exI[of _ "idis s"] exI[of _ "pher s"]) (simp add: before_ends)
    fix i u assume "init_inv s i (cities s) u"
    then obtain d e p where p: "u = s\<lparr>dis := d, idis := e, pher := p\<rparr>"
      "\<forall>a \<in> {0..<cities s}. \<forall>b \<in> {0..<cities s}. before i (cities s) a b \<longrightarrow> cell_ok s a b (d a b) (e a b) (p a b)"
      unfolding init_inv_def by blast
    show "init_inv s (i + 1) 0 u" unfolding init_inv_def
      by (intro exI[of _ d] exI[of _ e] exI[of _ p] conjI p(1))
         (rule before_row[where Q = "\<lambda>a b c. c \<longrightarrow> cell_ok s a b (d a b) (e a b) (p a b)", OF p(2)])
  next
    fix i u assume "init_inv s i 0 u"
    then show "cities u = cities s" by (auto simp: init_inv_def)
  qed (use n init_step[OF pl _ _ _ _ _ n(2)] in auto)
  then obtain d e p where u: "for_up 0 (cities s) (\<lambda>i u. for_up 0 (cities u) (\<lambda>j. init_cell 0 i j) u) s = Some (s\<lparr>dis := d, idis := e, pher := p\<rparr>)"
    "\<And>a b. a \<in> {0..<cities s} \<Longrightarrow> b \<in> {0..<cities s} \<Longrightarrow> cell_ok s a b (d a b) (e a b) (p a b)"
    by (auto simp: init_inv_def before_ends)
  let ?u = "s\<lparr>dis := d, idis := e, pher := p\<rparr>"
  have "\<exists>v. for_up 0 (cities s) (\<lambda>i u. for_up 0 (cities u) (\<lambda>j. pow_cell pow i j) u) ?u = Some v \<and> pow_inv ?u (cities s) 0 v"
  proof (rule for_up_grid)
    show "pow_inv ?u 0 0 ?u" unfolding pow_inv_def
    proof (intro exI[of _ e] conjI ballI impI)
      fix a b :: int assume "a \<in> {0..<cities ?u}" "b \<in> {0..<cities ?u}" "a \<noteq> b"
      then have "rng32 (2 powi - 5) (2 powi 7) (e a b)" "\<not> before 0 0 a b"
        using u(2)[of a b] by (auto simp: cell_ok_def before_ends)
      then show "if before 0 0 a b then rng32 (2 powi - 40) (2 powi 40) (e a b) else rng32 (2 powi - 5) (2 powi 7) (e a b)"
        by (simp only: if_False)
    qed simp
    fix i v assume "pow_inv ?u i (cities s) v"
    then obtain e' where e': "v = ?u\<lparr>idis := e'\<rparr>"
      "\<forall>a \<in> {0..<cities s}. \<forall>b \<in> {0..<cities s}. a \<noteq> b \<longrightarrow> (if before i (cities s) a b
          then rng32 (2 powi - 40) (2 powi 40) (e' a b) else rng32 (2 powi - 5) (2 powi 7) (e' a b))"
      unfolding pow_inv_def by auto
    show "pow_inv ?u (i + 1) 0 v" unfolding pow_inv_def
      by (intro exI[of _ e'] conjI e'(1))
         (use before_row[where Q = "\<lambda>a b c. a \<noteq> b \<longrightarrow> (if c then rng32 (2 powi - 40) (2 powi 40) (e' a b) else rng32 (2 powi - 5) (2 powi 7) (e' a b))", OF e'(2)] in simp)
  next
    fix i v assume "pow_inv ?u i 0 v"
    then show "cities v = cities s" by (auto simp: pow_inv_def)
  qed (use n pow_step[OF pow, of ?u] in auto)
  then obtain e' where v: "for_up 0 (cities s) (\<lambda>i u. for_up 0 (cities u) (\<lambda>j. pow_cell pow i j) u) ?u = Some (?u\<lparr>idis := e'\<rparr>)"
    "near_ok (cities s) e'"
    unfolding pow_inv_def near_ok_def by (auto simp: before_ends)
  have "init_tag pow 0 s = Some (s\<lparr>dis := d, idis := e', pher := p\<rparr>)" using u(1) v(1) by (simp add: init_tag_def)
  moreover have "trails_ok (cities s) 0 p" "dist_ok (cities s) d"
    using u(2) by (fastforce simp: trails_ok_def dist_ok_def cell_ok_def)+
  ultimately show ?thesis using v(2) u(2) unfolding cell_ok_def by blast
qed

section \<open>From cells to centimetres\<close>

text \<open>The stop of card \<open>i\<close>; entry \<open>n\<close> is the origin.\<close>

definition stop_of :: "int \<Rightarrow> plan \<Rightarrow> int \<Rightarrow> int \<times> int" where
  "stop_of n p i = (if i = n then (0, 0) else ((px (col p) i - 1) * 20 + 10 - erx, (py (col p) i - 1) * 20 + 10 - ery))"

lemma cm_loop:
  assumes "0 \<le> n" "n < NP"
  shows "\<exists>X Y A B. for_up 0 n to_cm_std p = Some (p\<lparr>col := (col p)\<lparr>px := X, py := Y\<rparr>, px_std := A, py_std := B\<rparr>)
    \<and> (\<forall>i \<in> {0..<n}. (X i, Y i) = stop_of n p i)"
proof -
  let ?I = "\<lambda>k u. \<exists>X Y A B. u = p\<lparr>col := (col p)\<lparr>px := X, py := Y\<rparr>, px_std := A, py_std := B\<rparr>
    \<and> (\<forall>i \<in> {0..<k}. (X i, Y i) = stop_of n p i) \<and> (\<forall>i \<in> {k..<n}. X i = px (col p) i \<and> Y i = py (col p) i)"
  have "\<exists>u. for_up 0 n to_cm_std p = Some u \<and> ?I n u"
  proof (rule for_up_total[where P = ?I])
    show "?I 0 p" by (intro exI[of _ "px (col p)"] exI[of _ "py (col p)"] exI[of _ "px_std p"] exI[of _ "py_std p"]) simp
    fix k u assume k: "0 \<le> k" "k < n" and "?I k u"
    then obtain X Y A B where u: "u = p\<lparr>col := (col p)\<lparr>px := X, py := Y\<rparr>, px_std := A, py_std := B\<rparr>"
      "\<forall>i \<in> {0..<k}. (X i, Y i) = stop_of n p i" "\<forall>i \<in> {k..<n}. X i = px (col p) i \<and> Y i = py (col p) i" by blast
    obtain x y where xy: "stop_of n p k = (x, y)" by fastforce
    have kN: "k < NP" using k assms by simp
    have "k \<in> {k..<n}" using k by simp
    with u(3) have "X k = px (col p) k" "Y k = py (col p) k" by blast+
    then have "to_cm_std k u = Some (p\<lparr>col := (col p)\<lparr>px := X(k := x), py := Y(k := y)\<rparr>, px_std := A(k := x), py_std := B(k := y)\<rparr>)"
      using k kN xy by (simp add: to_cm_std_def to_cm_def put_std_def put_xy_def put_x_def put_y_def get_x_def get_y_def rd_def wr_def u(1) stop_of_def)
    moreover have "\<forall>i \<in> {0..<k + 1}. ((X(k := x)) i, (Y(k := y)) i) = stop_of n p i" using u(2) xy by auto
    moreover have "\<forall>i \<in> {k + 1..<n}. (X(k := x)) i = px (col p) i \<and> (Y(k := y)) i = py (col p) i" using u(3) by auto
    ultimately show "\<exists>v. to_cm_std k u = Some v \<and> ?I (k + 1) v" by blast
  qed (use assms in simp)
  then show ?thesis by blast
qed

text \<open>The cards lie in different cells of the map.\<close>

definition cards_ok :: "int \<Rightarrow> plan \<Rightarrow> bool" where
  "cards_ok n p \<longleftrightarrow> (\<forall>i \<in> {0..<n}. on_map (px (col p) i, py (col p) i)) \<and> inj_on (\<lambda>i. (px (col p) i, py (col p) i)) {0..<n}"

lemma stop_field:
  assumes "cards_ok n p" and "i \<in> {0..n}"
  shows "0 \<le> fst (stop_of n p i) \<and> fst (stop_of n p i) \<le> 700 \<and> - 35 \<le> snd (stop_of n p i) \<and> snd (stop_of n p i) \<le> 465"
proof (cases "i = n")
  case False
  then have "i \<in> {0..<n}" using assms(2) by simp
  with assms(1) have "on_map (px (col p) i, py (col p) i)" unfolding cards_ok_def by blast
  then show ?thesis using False by (simp add: stop_of_def on_map_def erx_def ery_def)
qed (simp add: stop_of_def)

lemma stops_inj:
  assumes "cards_ok n p"
  shows "inj_on (stop_of n p) {0..n}"
proof (rule inj_onI)
  fix i j assume ij: "i \<in> {0..n}" "j \<in> {0..n}" "stop_of n p i = stop_of n p j"
  have no: "(y - 1) * 20 + 10 - ery \<noteq> 0" for y :: int by (simp add: ery_def) presburger
  show "i = j"
  proof (cases "i = n \<or> j = n")
    case True
    then show ?thesis using ij(3) no[of "py (col p) i"] no[of "py (col p) j"] by (auto simp: stop_of_def split: if_splits)
  next
    case False
    then have "(px (col p) i, py (col p) i) = (px (col p) j, py (col p) j)" using ij(3) by (simp add: stop_of_def)
    moreover have "i \<in> {0..<n}" "j \<in> {0..<n}" using ij False by auto
    ultimately show ?thesis using assms unfolding cards_ok_def inj_on_def by blast
  qed
qed

section \<open>The first leg\<close>

lemma same_mset_inj:
  assumes "image_mset f (mset_set A) = image_mset g (mset_set A)" and "inj_on g A" and "finite A"
  shows "inj_on f A" "f ` A = g ` A"
proof -
  have "set_mset (image_mset f (mset_set A)) = set_mset (image_mset g (mset_set A))" using assms(1) by simp
  then show "f ` A = g ` A" using assms(3) by simp
  then have "card (f ` A) = card A" using assms(2) by (simp add: card_image)
  then show "inj_on f A" using assms(3) by (simp add: eq_card_imp_inj_on)
qed

lemma shuffle_tour:
  assumes b: "bij_betw b {0..n} {0..n}" and n: "12 \<le> n" and r: "\<And>k. 0 \<le> rand k"
  shows "\<exists>a k'. shuffle rand b 13 k = Some (a, k') \<and> bij_betw a {0..n} {0..n}"
proof -
  obtain a k' where a: "shuffle rand b 13 k = Some (a, k')" "image_mset a (mset_set {0..<13}) = image_mset b (mset_set {0..<13})"
    "\<forall>i. i < 0 \<or> 13 \<le> i \<longrightarrow> a i = b i"
    using shuffle_ok[where rand = rand and n = 13 and a = b and k = k] r by auto
  have un: "{0..n} = {0..<13} \<union> {13..n}" using n by auto
  have "image_mset a (mset_set {13..n}) = image_mset b (mset_set {13..n})" using a(3) by (auto intro!: image_mset_cong)
  then have m: "image_mset a (mset_set {0..n}) = image_mset b (mset_set {0..n})"
    unfolding un by (subst (1 2) mset_set_Union) (use a(2) in auto)
  have "inj_on b {0..n}" "b ` {0..n} = {0..n}" using b by (simp_all add: bij_betw_def)
  then have "bij_betw a {0..n} {0..n}" using same_mset_inj[OF m] by (simp add: bij_betw_def)
  then show ?thesis using a(1) by blast
qed

lemma first_ok:
  assumes n: "12 \<le> n" "n < NP" and cards: "cards_ok n p" and clk: "path_clk p = 1" and rm: "room (2 * (n - 1) + 1) (lg p)"
    and pow: "pow_ok pow" and r: "\<And>k. 0 \<le> rand k"
  shows "\<exists>q. ACO_to_first pow rand n p = Some q \<and> room (2 * (n - 1)) (lg q) \<and> path_clk q = 1
    \<and> legs_along [(0, 0), here q] (lg p) = Some (lg q) \<and> bij_betw (best (col q) 0) {0..n} {0..n} \<and> lsttt q = best (col q) 0 1
    \<and> (\<forall>i \<in> {0..n}. px (col q) i = fst (stop_of n p i) \<and> py (col q) i = snd (stop_of n p i) + (if i = lsttt q then 10 else 0))"
proof -
  let ?p1 = "set_n n p"
  have st1: "stop_of n ?p1 i = stop_of n p i" for i by (simp add: stop_of_def set_n_def)
  have n0: "0 \<le> n" using n by simp
  obtain X Y A B where cm: "for_up 0 n to_cm_std ?p1 = Some (?p1\<lparr>col := (col ?p1)\<lparr>px := X, py := Y\<rparr>, px_std := A, py_std := B\<rparr>)"
    "\<forall>i \<in> {0..<n}. (X i, Y i) = stop_of n p i"
    using cm_loop[OF n0 n(2), of ?p1] unfolding st1 by blast
  define c4 where "c4 = (col p)\<lparr>px := X(n := 0), py := Y(n := 0), cities := n + 1\<rparr>"
  have xy: "(px c4 i, py c4 i) = stop_of n p i" if "i \<in> {0..n}" for i
    using cm(2) that by (cases "i = n") (auto simp: c4_def stop_of_def)
  have ivl: "{0..<n + 1} = {0..n}" by auto
  have "inj_on (\<lambda>i. (px c4 i, py c4 i)) {0..n}" using stops_inj[OF cards] xy by (simp add: inj_on_def)
  moreover have "near_home c4" unfolding near_home_def
  proof
    fix i assume "i \<in> {0..<cities c4}"
    then have i: "i \<in> {0..n}" by (auto simp: c4_def)
    show "- 100 \<le> px c4 i \<and> px c4 i \<le> 800 \<and> - 100 \<le> py c4 i \<and> py c4 i \<le> 800"
      using stop_field[OF cards i] unfolding xy[OF i, symmetric] by simp
  qed
  moreover have c4n: "cities c4 = n + 1" by (simp add: c4_def)
  ultimately have pl: "places_ok c4" by (simp add: places_ok_def ivl)
  have "0 \<le> cities c4" "cities c4 \<le> NP" using n c4n by simp_all
  from init_tag_ok[OF pow pl this] obtain d e h where
    tag: "init_tag pow 0 c4 = Some (c4\<lparr>dis := d, idis := e, pher := h\<rparr>)" "trails_ok (n + 1) 0 h" "dist_ok (n + 1) d" "near_ok (n + 1) e"
    unfolding c4n by blast
  let ?c5 = "c4\<lparr>dis := d, idis := e, pher := h\<rparr>"
  have "near_home ?c5" using pl by (simp add: places_ok_def near_home_def)
  then have "\<exists>v c. ant rand 100 50 n 1 0 0 ?c5 = Some (v, c)
    \<and> bij_betw (best c 0) {0..<cities ?c5} {0..<cities ?c5} \<and> best c 0 0 = n
    \<and> v = home_len ?c5 (best c 0)
    \<and> (\<forall>a \<in> {0..<100}. bij_betw (path_best c a) {0..<cities ?c5} {0..<cities ?c5} \<and> v \<le> home_len ?c5 (path_best c a))
    \<and> prefix_ok (best c 0) (cities ?c5) (cities ?c5) \<and> cities c = cities ?c5 \<and> px c = px ?c5 \<and> py c = py ?c5"
    by (intro ant_run) (use n tag(2-4) r in \<open>simp_all add: c4n ant_max_def iter_max_def\<close>)
  then obtain v c where c: "ant rand 100 50 n 1 0 0 ?c5 = Some (v, c)" "bij_betw (best c 0) {0..n} {0..n}"
    "cities c = n + 1" "px c = px c4" "py c = py c4" by (auto simp: c4n ivl)
  obtain a k where a: "shuffle rand (best c 0) 13 (seed c) = Some (a, k)" "bij_betw a {0..n} {0..n}"
    using shuffle_tour[where rand = rand, OF c(2) n(1) r] by blast
  have l: "a 1 \<in> {0..n}" using a(2) n by (auto dest: bij_betwE)
  then have lb: "0 \<le> a 1" "a 1 < NP" using n by simp_all
  define p8 where "p8 = p\<lparr>px_std := A, py_std := B, lsttt := a 1, lstttt := 0, vis := (vis p)(a 1 := 1),
    col := c\<lparr>cities := n, best := (best c)(0 := a), seed := k, py := (py c)(a 1 := py c (a 1) + 10)\<rparr>\<rparr>"
  have eq: "ACO_to_first pow rand n p = leg 0 0 (px c (a 1)) (py c (a 1) + 10) p8"
    using cm(1) tag(1) c(1,3) a(1) n lb clk
    by (simp add: ACO_to_first_def set_n_def put_xy_def put_x_def put_y_def get_x_def get_y_def rd_def wr_def run_init_tag_def
        with_col_def rd_path_def rd2_def Let_def c4_def p8_def)
  have f: "0 \<le> px c (a 1) \<and> px c (a 1) \<le> 700 \<and> - 35 \<le> py c (a 1) \<and> py c (a 1) \<le> 465"
    using stop_field[OF cards l] unfolding xy[OF l, symmetric] c(4,5) by simp
  have "\<bar>px c (a 1) - 0\<bar> \<le> 1000" "\<bar>py c (a 1) + 10 - 0\<bar> \<le> 1000" "room (2 * (n - 1) + 1) (lg p8)" "0 \<le> 2 * (n - 1)"
    using f rm n by (simp_all add: p8_def abs_le_iff)
  from leg_ok[OF this] obtain s where s: "leg 0 0 (px c (a 1)) (py c (a 1) + 10) p8 = Some (p8\<lparr>lg := s\<rparr>)"
    "legs_along [(0, 0), (px c (a 1), py c (a 1) + 10)] (lg p8) = Some s" "room (2 * (n - 1)) s" by blast
  have "\<forall>i \<in> {0..n}. px (col (p8\<lparr>lg := s\<rparr>)) i = fst (stop_of n p i)
      \<and> py (col (p8\<lparr>lg := s\<rparr>)) i = snd (stop_of n p i) + (if i = lsttt (p8\<lparr>lg := s\<rparr>) then 10 else 0)"
    using c(4,5) xy by (auto simp: p8_def prod_eq_iff)
  moreover have "lg p8 = lg p" "here (p8\<lparr>lg := s\<rparr>) = (px c (a 1), py c (a 1) + 10)" "path_clk p8 = 1" "best (col p8) 0 = a" "lsttt p8 = a 1"
    using clk by (simp_all add: p8_def here_def)
  ultimately show ?thesis using eq s a(2)
    by (intro exI[of _ "p8\<lparr>lg := s\<rparr>"]) (simp del: legs_along.simps)
qed

lemma first_ready:
  assumes n: "12 \<le> n" "n < NP" and cards: "cards_ok n p" and rm: "room (2 * (n - 1)) (lg q)" and clk: "path_clk q = 1"
    and b: "bij_betw (best (col q) 0) {0..n} {0..n}" "lsttt q = best (col q) 0 1"
    and xy: "\<forall>i \<in> {0..n}. px (col q) i = fst (stop_of n p i) \<and> py (col q) i = snd (stop_of n p i) + (if i = lsttt q then 10 else 0)"
  shows "ready (nat (n - 1)) q"
proof -
  have a: "ahead q j = best (col q) 0 (1 + j)" for j by (simp add: ahead_def clk)
  have inj: "inj_on (best (col q) 0) {0..n}" and mem: "\<And>i. i \<in> {0..n} \<Longrightarrow> best (col q) 0 i \<in> {0..n}"
    using b(1) by (auto simp: bij_betw_def)
  have l: "lsttt q \<in> {0..n}" using mem[of 1] b(2) n by simp
  have far: "1 + j \<in> {0..n} \<and> 1 + j \<noteq> 1" if "j \<in> {1..int (nat (n - 1))}" for j using that n by auto
  have "near_field (here q)"
    using stop_field[OF cards l] xy l by (simp add: near_field_def here_def)
  moreover have "0 \<le> ahead q j \<and> ahead q j < NP \<and> ahead q j \<noteq> lsttt q \<and> on_field (px (col q) (ahead q j)) (py (col q) (ahead q j))"
    if j: "j \<in> {1..int (nat (n - 1))}" for j
  proof -
    have m: "ahead q j \<in> {0..n}" using mem[of "1 + j"] far[OF j] by (simp add: a)
    have ne: "ahead q j \<noteq> lsttt q" using inj_onD[OF inj, of "1 + j" 1] far[OF j] n by (auto simp: a b(2))
    have "on_field (px (col q) (ahead q j)) (py (col q) (ahead q j))"
      using stop_field[OF cards m] xy m ne by (simp add: on_field_def)
    then show ?thesis using m ne n by auto
  qed
  moreover have "inj_on (ahead q) {1..int (nat (n - 1))}"
  proof (rule inj_onI)
    fix i j assume ij: "i \<in> {1..int (nat (n - 1))}" "j \<in> {1..int (nat (n - 1))}" "ahead q i = ahead q j"
    then show "i = j" using inj_onD[OF inj, of "1 + i" "1 + j"] far[OF ij(1)] far[OF ij(2)] by (simp add: a)
  qed
  ultimately show ?thesis using n rm clk l by (auto simp: ready_def NP_def)
qed

section \<open>The whole tour\<close>

text \<open>
  C15. Let \<open>n\<close> cards (12 to 29) lie in different cells of the map, let the way points have room
  for their legs and \<open>rand\<close> be non-negative, and let \<open>pow\<close> be within a factor of two of the fifth
  power. Then \<open>ACO_to_first\<close> and the \<open>n - 1\<close> calls of \<open>ACO_to_next\<close> after it run without undefined
  behaviour. The legs they enter are those of one polygon from the origin; of the \<open>n + 1\<close> stops
  (the cards and the origin, entry \<open>n\<close>) exactly the one that \<open>shuffle\<close> puts at entry 0 gets no
  corner of its own; every other one has a corner within 8 cm and 12 cm of it.
\<close>

theorem tour_covers_cards:
  assumes "12 \<le> n" "n < NP" and "cards_ok n p" and "path_clk p = 1" and "room (2 * (n - 1) + 1) (lg p)"
    and "pow_ok pow" and "\<forall>k. 0 \<le> rand k"
  shows "\<exists>f q ws. ACO_to_first pow rand n p = Some f \<and> nexts atan (nat (n - 1)) f = Some q
    \<and> legs_along ((0, 0) # ws) (lg p) = Some (lg q) \<and> n \<le> int (length ws) \<and> int (length ws) \<le> 2 * n - 1
    \<and> path_clk q = n \<and> bij_betw (best (col f) 0) {0..n} {0..n}
    \<and> (\<forall>c \<in> {0..n} - {best (col f) 0 0}. \<exists>w \<in> set ws. \<bar>fst w - fst (stop_of n p c)\<bar> \<le> 8 \<and> \<bar>snd w - snd (stop_of n p c)\<bar> \<le> 12)"
proof -
  have r: "\<And>k. 0 \<le> rand k" using assms(7) by blast
  obtain f where f: "ACO_to_first pow rand n p = Some f" "room (2 * (n - 1)) (lg f)" "path_clk f = 1"
    "legs_along [(0, 0), here f] (lg p) = Some (lg f)" "bij_betw (best (col f) 0) {0..n} {0..n}" "lsttt f = best (col f) 0 1"
    "\<forall>i \<in> {0..n}. px (col f) i = fst (stop_of n p i) \<and> py (col f) i = snd (stop_of n p i) + (if i = lsttt f then 10 else 0)"
    using first_ok[where rand = rand, OF assms(1-6) r] by blast
  have "ready (nat (n - 1)) f" by (rule first_ready[OF assms(1-3) f(2,3,5,6,7)])
  from nexts_ok[OF this, of atan] obtain q us where q: "nexts atan (nat (n - 1)) f = Some q" "tour_ok (nat (n - 1)) f q us" by blast
  let ?ws = "here f # us"
  have legs: "legs_along (here f # us) (lg f) = Some (lg q)" and len: "nat (n - 1) \<le> length us" "length us \<le> 2 * nat (n - 1)"
    and clk: "path_clk q = n"
    and stops: "\<And>j. j \<in> {1..n - 1} \<Longrightarrow> (px (col q) (ahead f j), py (col q) (ahead f j)) \<in> set us \<and> moved f q (ahead f j)"
    using q(2) assms(1) by (auto simp: tour_ok_def f(3))
  have "legs_along ([(0, 0), here f] @ us) (lg p) = Some (lg q)"
    by (rule legs_along_append[OF f(4)]) (use legs in simp)
  then have "legs_along ((0, 0) # ?ws) (lg p) = Some (lg q)" by simp
  moreover have "\<exists>w \<in> set ?ws. \<bar>fst w - fst (stop_of n p c)\<bar> \<le> 8 \<and> \<bar>snd w - snd (stop_of n p c)\<bar> \<le> 12"
    if c: "c \<in> {0..n} - {best (col f) 0 0}" for c
  proof -
    have cn: "c \<in> {0..n}" using c by blast
    then obtain i where i: "i \<in> {0..n}" "c = best (col f) 0 i" using f(5) unfolding bij_betw_def by blast
    have "i \<noteq> 0" using c i(2) by auto
    have xy: "px (col f) c = fst (stop_of n p c)" "py (col f) c = snd (stop_of n p c) + (if c = lsttt f then 10 else 0)"
      using f(7) cn by simp_all
    show ?thesis
    proof (cases "i = 1")
      case True
      then show ?thesis using xy i(2) f(6) by (intro bexI[of _ "here f"]) (simp_all add: here_def)
    next
      case False
      then have "i - 1 \<in> {1..n - 1}" using i(1) \<open>i \<noteq> 0\<close> by simp
      moreover have "ahead f (i - 1) = c" using i(2) by (simp add: ahead_def f(3))
      ultimately have m: "(px (col q) c, py (col q) c) \<in> set us" "moved f q c" using stops[of "i - 1"] by auto
      have "\<bar>py (col q) c - snd (stop_of n p c)\<bar> \<le> 12" using m(2) xy(2) by (auto simp: moved_def split: if_splits)
      moreover have "\<bar>px (col q) c - fst (stop_of n p c)\<bar> \<le> 8" using m(2) xy(1) by (simp add: moved_def)
      ultimately show ?thesis using m(1) by (intro bexI[of _ "(px (col q) c, py (col q) c)"]) simp_all
    qed
  qed
  moreover have "n \<le> int (length ?ws)" "int (length ?ws) \<le> 2 * n - 1" using len assms(1) by auto
  ultimately show ?thesis using f(1,5) q(1) clk by blast
qed

text \<open>Thirteen cards in a row, and a correctly rounded fifth power.\<close>

definition thirteen_cards :: plan where
  "thirteen_cards = small_plan\<lparr>col := small_colony\<lparr>px := \<lambda>i. 2 * i + 3, py := \<lambda>_. 7\<rparr>, vis := \<lambda>_. 0\<rparr>"

definition fifth_power :: "f64 \<Rightarrow> f64 \<Rightarrow> f64" where
  "fifth_power x y = (case x of F64 (Fin q) \<Rightarrow> F64 (fround binary64 (q ^ 5)) | _ \<Rightarrow> x)"

lemma fifth_power_ok: "pow_ok fifth_power"
  unfolding pow_ok_def
proof (intro allI impI)
  fix q :: rat assume q: "2 powi - 5 \<le> q \<and> q \<le> 2 powi 7"
  have "0 < (2 powi - 5 :: rat)" by simp
  then have q0: "0 < q" using q by linarith
  define e where "e = ilog2 (q ^ 5)"
  have b: "2 powi e \<le> q ^ 5" "q ^ 5 < 2 powi (e + 1)" using ilog2_bounds[of "q ^ 5"] q0 by (simp_all add: e_def)
  have "(2 powi - 5 :: rat) ^ 5 \<le> q ^ 5" "q ^ 5 \<le> (2 powi 7 :: rat) ^ 5" using q q0
    by (intro power_mono; simp)+
  then have "(2 powi - 25 :: rat) < 2 powi (e + 1)" "(2 powi e :: rat) < 2 powi 36"
    using b by (simp_all add: power_int_def power_divide)
  then have "- 25 < e + 1" "e < 36" by (simp_all only: powi2_less_iff)
  then have "rep64 (2 powi e)" "rep64 (2 powi (e + 1))" using rep_pow2[of e] rep_pow2[of "e + 1"] by simp_all
  from round64_rng[OF b(1) less_imp_le[OF b(2)] this] obtain y where
    y: "F64 (fround binary64 (q ^ 5)) = F64 (Fin y)" "2 powi e \<le> y" "y \<le> 2 powi (e + 1)" unfolding rng64_def by blast
  have "(2 powi (e + 1) :: rat) = 2 * 2 powi e" by (simp add: power_int_add)
  then have "q ^ 5 / 2 \<le> y" "y \<le> 2 * q ^ 5" using b y(2,3) by simp_all
  then show "\<exists>y. fifth_power (F64 (Fin q)) ant_beta = F64 (Fin y) \<and> q ^ 5 / 2 \<le> y \<and> y \<le> 2 * q ^ 5"
    using y(1) by (auto simp: fifth_power_def)
qed

lemma tour_covers_cards_witness:
  "\<exists>f q ws. ACO_to_first fifth_power (\<lambda>k. 7919 * int k) 13 thirteen_cards = Some f \<and> nexts (\<lambda>_. 0) 12 f = Some q
    \<and> legs_along ((0, 0) # ws) (blank_legs 0) = Some (lg q) \<and> 13 \<le> length ws
    \<and> bij_betw (best (col f) 0) {0..13} {0..13}"
proof -
  have "cards_ok 13 thirteen_cards"
    by (auto simp: cards_ok_def thirteen_cards_def small_plan_def on_map_def inj_on_def)
  moreover have "path_clk thirteen_cards = 1" "lg thirteen_cards = blank_legs 0" by (simp_all add: thirteen_cards_def small_plan_def)
  moreover have "room 25 (blank_legs 0)" by (simp add: room_def blank_legs_def)
  ultimately show ?thesis
    using tour_covers_cards[of 13 thirteen_cards fifth_power "\<lambda>k. 7919 * int k" "\<lambda>_. 0"] fifth_power_ok
    by (simp add: NP_def) blast
qed

end
