(* ===== verification/Located.thy ===== *)
theory Located
  imports Grid_Search Card_Locate Route_Plan
begin

text \<open>
  The path from the camera picture of the map to the way between two cards: \<open>find_pic\<close> gives the
  cells of the cards (\<open>locate_all\<close>), \<open>astar_init\<close> the obstacles, and \<open>no_trans_task\<close> searches
  from the stop of one card to the stop of the next.
\<close>

text \<open>The grid cell of a card's stop: \<open>to_cm\<close>, then the conversion of \<open>no_trans_task\<close>.\<close>

definition stop_cell :: "int \<times> int \<Rightarrow> int \<times> int" where
  "stop_cell c = (grid_of ((fst c - 1) * 20 + 10 - erx), grid_of ((snd c - 1) * 20 + 10 - ery))"

lemma to_cm_stop:
  "to_cm i p = Some p' \<Longrightarrow> (grid_of (px (col p') i), grid_of (py (col p') i)) = stop_cell (px (col p) i, py (col p) i)"
  by (auto simp: to_cm_def put_xy_def put_x_def put_y_def get_x_def get_y_def c_dest stop_cell_def split: bind_splits)

lemma stop_cell_eq:
  assumes "on_map c"
  shows "stop_cell c = (2 * fst c + 2, 2 * snd c - 1)"
proof -
  have eq: "(fst c - 1) * 20 + 10 - erx + 39 = 20 * fst c + 19" "(snd c - 1) * 20 + 10 - ery + 39 = 20 * snd c - 16"
    by (simp_all add: erx_def ery_def)
  have "(20 * fst c + 19) div 10 = 2 * fst c + 1" "(20 * snd c - 16) div 10 = 2 * snd c - 2" by presburger+
  moreover have "0 \<le> 20 * fst c + 19" "0 \<le> 20 * snd c - 16" using assms by (simp_all add: on_map_def)
  ultimately show ?thesis unfolding stop_cell_def grid_of_def eq by (simp add: cdiv_nonneg)
qed

lemma successively_first: "successively R xs \<Longrightarrow> p \<in> set (butlast xs) \<Longrightarrow> \<exists>q. R p q"
  by (induction xs rule: induct_list012) auto



end
