(* ===== verification/Display.thy ===== *)
theory Display
  imports Card_Locate "HOL-Library.Word"
begin

unbundle bit_operations_syntax

text \<open>
  Drawing of camera pictures: \<open>ips114_displayimage032_zoomT\<close> and the red marks
  \<open>show_red_corner\<close>, \<open>show_red_corner1\<close> and \<open>show_red_node\<close> (\<^verbatim>\<open>CODE/ips_refresh.c\<close>,
  \<^verbatim>\<open>CODE/pic_pick.c\<close>). The driver of the screen is
  a library; what is sent to it, the 16-bit colours of an image and the points drawn, is the
  result of the definitions.
\<close>

section \<open>Grey pictures\<close>

text \<open>A grey value in five, six and five bits.\<close>

definition grey_colour :: "16 word \<Rightarrow> 16 word" where
  "grey_colour temp =
     (let color = push_bit 11 (0x1f AND drop_bit 3 temp);
          color = color OR push_bit 5 (0x3f AND drop_bit 2 temp)
      in color OR (0x1f AND drop_bit 3 temp))"

definition u32 :: "int \<Rightarrow> int" where
  "u32 v = v mod 2 ^ 32"

text \<open>
  The place read for row \<open>i\<close> (a \<open>uint32\<close>) and column \<open>j\<close> (an \<open>int\<close>) of the screen; the sizes are
  \<open>uint16\<close>.
\<close>

definition zoom_place :: "int \<Rightarrow> int \<Rightarrow> int \<Rightarrow> int \<Rightarrow> int \<Rightarrow> int \<Rightarrow> int" where
  "zoom_place width height dis_width dis_height i j =
     cdiv (j * width) dis_width * height + u32 (u32 (dis_height - 1 - i) * height) div dis_height"

definition zoomT :: "int arr \<Rightarrow> int \<Rightarrow> int \<Rightarrow> int \<Rightarrow> int \<Rightarrow> 16 word list option" where
  "zoomT p width height dis_width dis_height =
     for_up 0 dis_height (\<lambda>i. for_up 0 dis_width (\<lambda>j out. do {
       temp \<leftarrow> rd (width * height) p (zoom_place width height dis_width dis_height i j);
       Some (out @ [grey_colour (word_of_int temp)]) })) []"

text \<open>The nine points around a mark, as the arguments of \<open>ips114_drawpoint\<close>.\<close>

definition red_square :: "int \<Rightarrow> int \<Rightarrow> (int \<times> int) list" where
  "red_square x_tmp y_tmp = concat (map (\<lambda>i. map (\<lambda>j. (u16 i, u16 j)) [y_tmp - 1..y_tmp + 1]) [x_tmp - 1..x_tmp + 1])"

definition show_red_corner1 :: "int \<Rightarrow> int \<Rightarrow> (int \<times> int) list" where
  "show_red_corner1 i j = red_square (u16 (cdiv (i * 240) 188)) (u16 (cdiv ((120 - j - 1) * 135) 120))"

definition show_red_node :: "int \<Rightarrow> int \<Rightarrow> (int \<times> int) list" where
  "show_red_node x y = red_square (u16 (cdiv (x * 239) 700)) (u16 (134 - cdiv (y * 134) 500))"

text \<open>The mark of a corner of the map, whose coordinates are \<open>float\<close>s.\<close>

definition to_u16 :: "f32 \<Rightarrow> int option" where
  "to_u16 v = do { k \<leftarrow> s_int v; if 0 \<le> k \<and> k < 65536 then Some k else None }"

definition show_red_corner :: "node \<Rightarrow> (int \<times> int) list option" where
  "show_red_corner ls = do {
     x_tmp \<leftarrow> to_u16 (node_x ls * s_of_int 235 / s_of_int 188);
     y_tmp \<leftarrow> to_u16 ((s_of_int 120 - node_y ls - s_of_int 1) * s_of_int 135 / s_of_int 120);
     Some (red_square x_tmp y_tmp)
   }"

section \<open>Properties\<close>

definition carries :: "16 word \<Rightarrow> int \<Rightarrow> bool" where
  "carries c v \<longleftrightarrow> uint (drop_bit 11 c) = v div 8 \<and> uint (0x3f AND drop_bit 5 c) = v div 4 \<and> uint (0x1f AND c) = v div 8"

lemma grey_bits_all: "\<forall>v \<in> set [0..255]. carries (grey_colour (word_of_int v)) v"
  by code_simp

lemma grey_bits: "0 \<le> v \<Longrightarrow> v < 256 \<Longrightarrow> carries (grey_colour (word_of_int v)) v"
  using grey_bits_all by simp

text \<open>The picture of \<open>width\<close> columns of \<open>height\<close> pixels in memory.\<close>

definition flat :: "int \<Rightarrow> int arr2 \<Rightarrow> int arr" where
  "flat height a k = a (k div height) (k mod height)"

definition scaled :: "int arr2 \<Rightarrow> int \<Rightarrow> int \<Rightarrow> int \<Rightarrow> int \<Rightarrow> int \<Rightarrow> int \<Rightarrow> int" where
  "scaled a width height dw dh i j = a (j * width div dw) ((dh - 1 - i) * height div dh)"

lemma scale_range:
  fixes k m d :: int
  assumes "0 \<le> k" "k < d" "0 < m"
  shows "0 \<le> k * m div d" "k * m div d < m"
proof -
  show "0 \<le> k * m div d" using assms by (simp add: pos_imp_zdiv_nonneg_iff)
  have "k * m < m * d" using assms by (simp add: mult.commute)
  show "k * m div d < m"
  proof (rule ccontr)
    assume "\<not> k * m div d < m"
    then have "m * d \<le> (k * m div d) * d" using assms by (intro mult_right_mono) simp_all
    also have "\<dots> \<le> k * m" using div_mult_mod_eq[of "k * m" d] pos_mod_sign[of d "k * m"] assms by linarith
    finally show False using \<open>k * m < m * d\<close> by simp
  qed
qed

lemma zoom_read:
  assumes "0 < width" "width < 2 ^ 16" "0 < height" "height < 2 ^ 16" "dh < 2 ^ 16"
    and "0 \<le> i" "i < dh" "0 \<le> j" "j < dw"
  shows "rd (width * height) (flat height a) (zoom_place width height dw dh i j) = Some (scaled a width height dw dh i j)"
proof -
  let ?x = "j * width div dw" and ?y = "(dh - 1 - i) * height div dh"
  have x: "0 \<le> ?x" "?x < width" using scale_range[of j dw width] assms by simp_all
  have y: "0 \<le> ?y" "?y < height" using scale_range[of "dh - 1 - i" dh height] assms by simp_all
  have "(dh - 1 - i) * height < 2 ^ 16 * 2 ^ 16" using assms by (intro mult_strict_mono) simp_all
  then have "u32 (u32 (dh - 1 - i) * height) = (dh - 1 - i) * height"
    using assms by (simp add: u32_def)
  moreover have "0 \<le> j * width" using assms by simp
  ultimately have pl: "zoom_place width height dw dh i j = ?x * height + ?y"
    using assms by (simp add: zoom_place_def cdiv_nonneg)
  have "?x * height + ?y < (?x + 1) * height" using y by (simp add: algebra_simps)
  also have "\<dots> \<le> width * height" using x assms by (intro mult_right_mono) simp_all
  finally have "?x * height + ?y < width * height" .
  moreover have "0 \<le> ?x * height + ?y" using x y assms by simp
  moreover have "(?x * height + ?y) div height = ?x" "(?x * height + ?y) mod height = ?y" using y by simp_all
  ultimately show ?thesis unfolding pl by (simp add: rd_def flat_def scaled_def)
qed

text \<open>
  C39. The screen shows the camera picture scaled by nearest neighbours and turned by a quarter:
  no read leaves the picture, and the colours sent carry the upper bits of each grey value.
\<close>

definition shown :: "int arr2 \<Rightarrow> int \<Rightarrow> int \<Rightarrow> int \<Rightarrow> int \<Rightarrow> int \<Rightarrow> 16 word list" where
  "shown a width height dw dh n = map (\<lambda>j. grey_colour (word_of_int (scaled a width height dw dh n j))) [0..dw - 1]"

lemma zoom_row:
  assumes "0 < width" "width < 2 ^ 16" "0 < height" "height < 2 ^ 16" "dh < 2 ^ 16" and "0 \<le> i" "i < dh" "0 \<le> dw"
  shows "for_up 0 dw (\<lambda>j out. do {
       temp \<leftarrow> rd (width * height) (flat height a) (zoom_place width height dw dh i j);
       Some (out @ [grey_colour (word_of_int temp)]) }) out = Some (out @ shown a width height dw dh i)"
proof -
  let ?c = "\<lambda>j. grey_colour (word_of_int (scaled a width height dw dh i j))"
  have "\<exists>r. for_up 0 dw (\<lambda>j out. do {
       temp \<leftarrow> rd (width * height) (flat height a) (zoom_place width height dw dh i j);
       Some (out @ [grey_colour (word_of_int temp)]) }) out = Some r \<and> r = out @ map ?c [0..dw - 1]"
    by (rule for_up_total[where P = "\<lambda>j r. r = out @ map ?c [0..j - 1]"])
      (use assms in \<open>auto simp: zoom_read upto_rec2\<close>)
  then show ?thesis by (simp add: shown_def)
qed

lemma zoom_all:
  assumes "0 < width" "width < 2 ^ 16" "0 < height" "height < 2 ^ 16" "dh < 2 ^ 16" and "0 \<le> dw" "0 \<le> dh"
  shows "zoomT (flat height a) width height dw dh = Some (concat (map (shown a width height dw dh) [0..dh - 1]))"
proof -
  have "\<exists>r. zoomT (flat height a) width height dw dh = Some r \<and> r = concat (map (shown a width height dw dh) [0..dh - 1])"
    unfolding zoomT_def
    by (rule for_up_total[where P = "\<lambda>i r. r = concat (map (shown a width height dw dh) [0..i - 1])"])
      (use assms in \<open>auto simp: zoom_row upto_rec2\<close>)
  then show ?thesis by simp
qed



text \<open>
  C40. The red mark of a corner lies on the screen of 240 by 135 points exactly when the corner is
  neither in the first column nor in the last row of the picture; otherwise coordinates wrap to
  65535.
\<close>

theorem mark_on_screen:
  assumes "0 \<le> i" "i < 188" "0 \<le> j" "j < 120"
  shows "(\<forall>p \<in> set (show_red_corner1 i j). fst p < 240 \<and> snd p < 135) \<longleftrightarrow> i \<noteq> 0 \<and> j \<noteq> 119"
proof -
  define x y where "x = i * 240 div 188" and "y = (119 - j) * 135 div 120"
  have x: "0 \<le> x" "x \<le> 238" "x = 0 \<longleftrightarrow> i = 0" using assms by (auto simp: x_def)
  have y: "0 \<le> y" "y \<le> 133" "y = 0 \<longleftrightarrow> j = 119" using assms by (auto simp: y_def)
  have "show_red_corner1 i j = red_square x y"
  proof -
    have "cdiv (i * 240) 188 = x" "cdiv ((120 - j - 1) * 135) 120 = y"
      using assms by (simp_all add: cdiv_nonneg x_def y_def)
    then show ?thesis using x y unfolding show_red_corner1_def by (simp add: u16_id)
  qed
  moreover have "set (red_square x y) = {u16 (x - 1), x, x + 1} \<times> {u16 (y - 1), y, y + 1}"
  proof -
    have "{x - 1..x + 1} = {x - 1, x, x + 1}" "{y - 1..y + 1} = {y - 1, y, y + 1}" by auto
    then show ?thesis using x y by (simp add: red_square_def u16_id) blast
  qed
  ultimately show ?thesis using x y by (auto simp: u16_def)
qed

lemma mark_on_screen_witness:
  "list_all (\<lambda>p. fst p < 240 \<and> snd p < 135) (show_red_corner1 94 60)
    \<and> \<not> list_all (\<lambda>p. fst p < 240 \<and> snd p < 135) (show_red_corner1 0 60)"
  using mark_on_screen[of 94 60] mark_on_screen[of 0 60] by (simp add: list_all_iff)

end
