(* ===== verification/Uart_Line.thy ===== *)
theory Uart_Line
  imports Uart_Protocol
begin

text \<open>
  The serial line of \<^verbatim>\<open>CODE/more_uart.c\<close> byte by byte: the interrupt routine fills \<open>uart8_rx_buffer\<close>
  and calls \<open>uart8_callback\<close>, which posts a mail; the tasks \<open>uart8_mb_recv\<close> and \<open>data_analysis\<close> and the
  gyroscope timer run at any time between. The receiving task may read a buffer whose first bytes
  are already those of the next round. A step of a task is atomic, and no byte is lost to an
  overrun. Last, the printing on the line, with which the robot asks for a picture.
\<close>

section \<open>The port\<close>

text \<open>
  \<open>rx_at\<close> and \<open>rx_left\<close> are \<open>rxData\<close> and \<open>rxDataSize\<close> of the driver's handle. The last two fields
  describe the camera module: the number of bytes it has sent, and the picture whose packet is its
  \<open>b\<close>-th one.
\<close>

record port =
  lk :: link
  rx :: "int arr"
  rx_at :: int
  rx_left :: int
  mail :: bool
  n_sent :: nat
  who :: "nat \<Rightarrow> nat"

definition uart8_init :: "port \<Rightarrow> port" where
  "uart8_init p = p\<lparr>rx_at := 0, rx_left := 1, mail := False\<rparr>"

definition uart8_callback :: "bool \<Rightarrow> port \<Rightarrow> port" where
  "uart8_callback rx_idle p =
     (let p = (if rx_idle then p\<lparr>mail := True\<rparr> else p)
      in p\<lparr>rx_left := 2 * PACK_LEN, rx_at := 0\<rparr>)"

text \<open>
  The receive loop of the interrupt routine in \<^verbatim>\<open>fsl_lpuart.c\<close>, one byte of the FIFO at a time: it
  goes to \<open>*rxData++\<close>, the last one of a transfer calls back. \<open>rxState\<close> and the
  ring buffer, which is not used, are left out.
\<close>

definition rx_byte :: "int \<Rightarrow> port \<Rightarrow> port option" where
  "rx_byte v p =
     (if rx_left p > 0 then do {
        b \<leftarrow> wr (2 * PACK_LEN) (rx p) (rx_at p) v;
        let p = p\<lparr>rx := b, rx_at := rx_at p + 1, rx_left := rx_left p - 1\<rparr>;
        Some (if rx_left p = 0 then uart8_callback True p else p)
      } else Some p)"

section \<open>The steps\<close>

abbreviation frame_of :: "(int \<times> int) list \<Rightarrow> nat \<Rightarrow> int list" where
  "frame_of ps k \<equiv> pos_frame (int k) (ps ! k)"

text \<open>The \<open>t\<close>-th byte the module sends.\<close>

definition stream_byte :: "(int \<times> int) list \<Rightarrow> (nat \<Rightarrow> nat) \<Rightarrow> nat \<Rightarrow> int" where
  "stream_byte ps w t = frame_of ps (w (t div 21)) ! (t mod 21)"

abbreviation now_at :: "port \<Rightarrow> nat" where
  "now_at p \<equiv> who p (n_sent p div 21)"

text \<open>A packet is repeated unless the module moves on.\<close>

definition one_sent :: "port \<Rightarrow> port" where
  "one_sent p =
     (let k = Suc (n_sent p)
      in p\<lparr>n_sent := k, who := (if k mod 21 = 0 then (who p)(k div 21 := who p (n_sent p div 21)) else who p)\<rparr>)"

definition tick_link :: "int \<times> int \<times> int \<Rightarrow> link \<Rightarrow> link" where
  "tick_link g l =
     (let (h, c) = icm_read_timer3 g (heading (bot l), car (bot l))
      in l\<lparr>bot := (bot l)\<lparr>heading := h, car := c\<rparr>\<rparr>)"

inductive port_step :: "mlib \<Rightarrow> int \<Rightarrow> (int \<times> int) list \<Rightarrow> port \<Rightarrow> port \<Rightarrow> bool" for m left_n ps where
  byte: "rx_byte (stream_byte ps (who p) (n_sent p)) p = Some q \<Longrightarrow> port_step m left_n ps p (one_sent q)"
| move_on: "n_sent p mod 21 = 0 \<Longrightarrow> Suc (now_at p) < length ps \<Longrightarrow> int (now_at p) < pos_cnt (lk p) \<Longrightarrow>
    port_step m left_n ps p (p\<lparr>who := (who p)(n_sent p div 21 := Suc (now_at p))\<rparr>)"
| recv: "mail p \<Longrightarrow> port_step m left_n ps p (p\<lparr>mail := False, lk := uart8_mb_recv (rx p) (lk p)\<rparr>)"
| analyse: "data_analysis m left_n (lk p) = Some l \<Longrightarrow> port_step m left_n ps p (p\<lparr>lk := l\<rparr>)"
| tick: "port_step m left_n ps p (p\<lparr>lk := tick_link g (lk p)\<rparr>)"

section \<open>Packets\<close>

lemma digits3_range: "coord v \<Longrightarrow> x \<in> set (digits3 v) \<Longrightarrow> 48 \<le> x \<and> x \<le> 57"
proof -
  assume v: "coord v" and x: "x \<in> set (digits3 v)"
  have "0 \<le> v div 100" "v div 100 \<le> 9" using v zdiv_mono1[of v 999 100] by (simp_all add: coord_def pos_imp_zdiv_nonneg_iff)
  moreover have "v mod 100 \<le> 99" using pos_mod_bound[of 100 v] by simp
  then have "0 \<le> v mod 100 div 10" "v mod 100 div 10 \<le> 9"
    using zdiv_mono1[of "v mod 100" 99 10] by (simp_all add: pos_imp_zdiv_nonneg_iff)
  moreover have "0 \<le> v mod 10" "v mod 10 \<le> 9" using pos_mod_bound[of 10 v] by simp_all
  moreover have "x = v div 100 + 48 \<or> x = v mod 100 div 10 + 48 \<or> x = v mod 10 + 48" using x unfolding digits3_def by auto
  ultimately show ?thesis by linarith
qed

text \<open>The header byte and the newline mark the ends of a position packet and nothing else.\<close>

lemma frame_ends:
  assumes "coord n" "coord (fst p)" "coord (snd p)" and "i < 21"
  shows "pos_frame n p ! i = 36 \<longleftrightarrow> i = 0" "pos_frame n p ! i = 10 \<longleftrightarrow> i = 20"
proof -
  have d: "x \<noteq> 36 \<and> x \<noteq> 10" if "x \<in> set (digits3 (fst p)) \<union> set (digits3 (snd p)) \<union> set (digits3 n)" for x
    using that digits3_range assms(1-3) by fastforce
  have len: "length (butlast (tl (pos_frame n p))) = 19" by (simp add: pos_frame_def digits3_def)
  have inner: "\<forall>x \<in> set (butlast (tl (pos_frame n p))). x \<noteq> 36 \<and> x \<noteq> 10"
    using d by (auto simp: pos_frame_def butlast_append digits3_def)
  have mid: "pos_frame n p ! i \<noteq> 36 \<and> pos_frame n p ! i \<noteq> 10" if "0 < i" "i < 20"
  proof -
    have "pos_frame n p ! i = butlast (tl (pos_frame n p)) ! (i - 1)"
      using that len nth_butlast[of "i - 1" "tl (pos_frame n p)"] nth_tl[of "i - 1" "pos_frame n p"] by simp
    moreover have "i - 1 < length (butlast (tl (pos_frame n p)))" using that len by simp
    ultimately show ?thesis using inner nth_mem by metis
  qed
  have ends: "pos_frame n p ! 0 = 36" "pos_frame n p ! 20 = 10" by (simp_all add: pos_frame_def digits3_def)
  consider "i = 0" | "i = 20" | "0 < i" "i < 20" using assms(4) by linarith
  then have "(pos_frame n p ! i = 36 \<longleftrightarrow> i = 0) \<and> (pos_frame n p ! i = 10 \<longleftrightarrow> i = 20)"
    by cases (use ends mid in auto)
  then show "pos_frame n p ! i = 36 \<longleftrightarrow> i = 0" "pos_frame n p ! i = 10 \<longleftrightarrow> i = 20" by blast+
qed

lemma sync_hit: "i \<le> PACK_LEN \<Longrightarrow> sync d i \<le> PACK_LEN \<Longrightarrow> i \<le> sync d i \<and> d (sync d i) = 36 \<and> d (sync d i + PACK_LEN - 1) = 10"
proof (induction d i rule: sync.induct)
  case (1 d i)
  show ?case
  proof (cases "d i = 36 \<and> d (i + PACK_LEN - 1) = 10")
    case True
    then show ?thesis using 1 by (simp add: sync.simps[of d i])
  next
    case False
    then have eq: "sync d i = sync d (i + 1)" using 1(2) by (subst sync.simps) auto
    have "i \<noteq> PACK_LEN"
    proof
      assume "i = PACK_LEN"
      then have "sync d i = PACK_LEN + 1" using eq by (simp add: sync.simps[of d "PACK_LEN + 1"])
      then show False using 1(3) by simp
    qed
    then show ?thesis using 1 False eq by simp
  qed
qed

section \<open>The invariant\<close>

abbreviation last_at :: "port \<Rightarrow> nat" where
  "last_at p \<equiv> who p ((n_sent p - 1) div 21)"

definition sends_ok :: "(int \<times> int) list \<Rightarrow> bool" where
  "sends_ok ps \<longleftrightarrow> ps \<noteq> [] \<and> length ps \<le> 30 \<and> (\<forall>p \<in> set ps. coord (fst p) \<and> coord (snd p))"

text \<open>The module moves through the pictures one at a time, never past the first one not stored.\<close>

definition sender_inv :: "(int \<times> int) list \<Rightarrow> port \<Rightarrow> bool" where
  "sender_inv ps p \<longleftrightarrow>
     (\<forall>b < n_sent p div 21. who p b \<le> who p (Suc b) \<and> who p (Suc b) \<le> Suc (who p b)) \<and> now_at p < length ps
     \<and> int (now_at p) \<le> pos_cnt (lk p) \<and> pos_cnt (lk p) \<le> int (last_at p) + 1 \<and> (n_sent p = 0 \<longrightarrow> pos_cnt (lk p) = 0)"

text \<open>Bytes of this round up to the driver's pointer, then those of the last round.\<close>

definition round_inv :: "(int \<times> int) list \<Rightarrow> nat \<Rightarrow> nat \<Rightarrow> port \<Rightarrow> bool" where
  "round_inv ps base k p \<longleftrightarrow>
     n_sent p = base + k \<and> 0 < base \<and> k < 42 \<and> rx_at p = int k \<and> rx_left p = 42 - int k
     \<and> (\<forall>i < k. rx p (int i) = stream_byte ps (who p) (base + i))
     \<and> ((\<forall>i < 42. k \<le> i \<and> 0 < i \<longrightarrow> rx p (int i) = 0)
        \<or> 42 \<le> base \<and> (\<forall>i < 42. k \<le> i \<longrightarrow> rx p (int i) = stream_byte ps (who p) (base + i - 42)))"

definition rx_inv :: "(int \<times> int) list \<Rightarrow> port \<Rightarrow> bool" where
  "rx_inv ps p \<longleftrightarrow> rx_at p = 0 \<and> rx_left p = 1 \<and> rx p = (\<lambda>_. 0) \<or> (\<exists>base k. round_inv ps base k p)"

text \<open>The buffer of \<open>data_analysis\<close>: one packet, or the head of one and the tail of an earlier one.\<close>

definition buff_ok :: "(int \<times> int) list \<Rightarrow> port \<Rightarrow> bool" where
  "buff_ok ps p \<longleftrightarrow>
     (\<exists>a e c. (\<forall>i < 21. uart_buff (lk p) (int i) = (if i < c then frame_of ps a ! i else frame_of ps e ! i))
        \<and> e \<le> a \<and> a \<le> last_at p \<and> int a \<le> pos_cnt (lk p) \<and> 0 < n_sent p \<and> (a = e \<or> a \<le> e + 2 \<and> pos_cnt (lk p) \<le> int a + 1))"

definition port_inv :: "(int \<times> int) list \<Rightarrow> port \<Rightarrow> bool" where
  "port_inv ps p \<longleftrightarrow>
     sends_ok ps \<and> sender_inv ps p \<and> rx_inv ps p \<and> (\<forall>v. data_mb (lk p) = Some v \<longrightarrow> v = SP_OK \<and> buff_ok ps p)
     \<and> (\<forall>i < length ps. int i < pos_cnt (lk p) \<longrightarrow> stored (lk p) (int i) = ps ! i)"

definition port_start :: "(int \<times> int) list \<Rightarrow> port \<Rightarrow> bool" where
  "port_start ps p \<longleftrightarrow>
     sends_ok ps \<and> rx p = (\<lambda>_. 0) \<and> who p = (\<lambda>_. 0) \<and> data_mb (lk p) = None \<and> pos_cnt (lk p) = 0"

lemma port_inv_start: "port_start ps p \<Longrightarrow> port_inv ps (uart8_init p)"
  by (auto simp: port_start_def port_inv_def uart8_init_def sender_inv_def rx_inv_def sends_ok_def)

lemma who_mono: "sender_inv ps p \<Longrightarrow> b \<le> d \<Longrightarrow> d \<le> n_sent p div 21 \<Longrightarrow> who p b \<le> who p d"
proof (induction d)
  case (Suc d)
  show ?case
  proof (cases "b = Suc d")
    case False
    then have "who p b \<le> who p d" using Suc by simp
    also have "who p d \<le> who p (Suc d)" using Suc.prems by (simp add: sender_inv_def)
    finally show ?thesis .
  qed simp
qed simp

lemma who_far: "sender_inv ps p \<Longrightarrow> Suc (Suc b) \<le> n_sent p div 21 \<Longrightarrow> who p (Suc (Suc b)) \<le> who p b + 2"
  by (simp add: sender_inv_def) (metis Suc_le_eq Suc_le_mono le_trans less_Suc_eq_le less_imp_le)

lemma stream_mark:
  assumes "sends_ok ps" and "sender_inv ps p" and "t \<le> n_sent p"
  shows "stream_byte ps (who p) t = 36 \<longleftrightarrow> t mod 21 = 0" "stream_byte ps (who p) t = 10 \<longleftrightarrow> t mod 21 = 20"
proof -
  let ?k = "who p (t div 21)"
  have "?k \<le> now_at p" using who_mono[OF assms(2)] div_le_mono[OF assms(3)] by simp
  then have k: "?k < length ps" using assms(2) by (simp add: sender_inv_def)
  then have "coord (int ?k)" "coord (fst (ps ! ?k))" "coord (snd (ps ! ?k))"
    using assms(1) nth_mem[OF k] by (auto simp: sends_ok_def coord_def)
  then show "stream_byte ps (who p) t = 36 \<longleftrightarrow> t mod 21 = 0" "stream_byte ps (who p) t = 10 \<longleftrightarrow> t mod 21 = 20"
    using frame_ends[of "int ?k" "ps ! ?k" "t mod 21"] by (simp_all add: stream_byte_def)
qed

lemma stream_cong: "(\<And>b. b \<le> t div 21 \<Longrightarrow> w b = w' b) \<Longrightarrow> stream_byte ps w t = stream_byte ps w' t"
  by (simp add: stream_byte_def)

section \<open>A byte arrives\<close>

lemma one_sent_who: "b \<le> n_sent p div 21 \<Longrightarrow> who (one_sent p) b = who p b"
  by (auto simp: one_sent_def Let_def div_Suc)

lemma one_sent_next: "who (one_sent p) (Suc (n_sent p) div 21) = now_at p"
  by (auto simp: one_sent_def Let_def div_Suc)

lemma one_sent_rest [simp]:
  "n_sent (one_sent p) = Suc (n_sent p)" "lk (one_sent p) = lk p" "rx (one_sent p) = rx p" "rx_at (one_sent p) = rx_at p"
  "rx_left (one_sent p) = rx_left p" "mail (one_sent p) = mail p"
  by (simp_all add: one_sent_def Let_def)

lemma last_one_sent: "last_at (one_sent p) = now_at p"
  by (simp add: one_sent_who)

lemma last_le_now: "sender_inv ps p \<Longrightarrow> last_at p \<le> now_at p"
  by (rule who_mono) (simp_all add: div_le_mono)

lemma sender_one_sent:
  assumes "sender_inv ps p"
  shows "sender_inv ps (one_sent p)"
proof -
  have "who (one_sent p) b \<le> who (one_sent p) (Suc b) \<and> who (one_sent p) (Suc b) \<le> Suc (who (one_sent p) b)"
    if b: "b < Suc (n_sent p) div 21" for b
  proof (cases "b < n_sent p div 21")
    case True
    then show ?thesis using assms by (simp add: one_sent_who sender_inv_def)
  next
    case False
    then have "b = n_sent p div 21" "Suc (n_sent p) div 21 = Suc b" using b by (auto simp: div_Suc split: if_splits)
    then show ?thesis using one_sent_next[of p] by (simp add: one_sent_who)
  qed
  then show ?thesis
    using assms last_le_now[OF assms] one_sent_next[of p] last_one_sent[of p]
    unfolding sender_inv_def by (auto simp del: diff_Suc_1)
qed

lemma rx_byte_keeps: "rx_byte v p = Some q \<Longrightarrow> lk q = lk p \<and> n_sent q = n_sent p \<and> who q = who p"
  by (auto simp: rx_byte_def wr_def Let_def uart8_callback_def split: if_splits option.splits)

lemma stream_one_sent: "t \<le> n_sent p \<Longrightarrow> stream_byte ps (who (one_sent p)) t = stream_byte ps (who p) t"
  by (rule stream_cong) (meson div_le_mono le_trans one_sent_who)

lemma round_step:
  assumes r: "round_inv ps base k p"
  shows "\<exists>q. rx_byte (stream_byte ps (who p) (n_sent p)) p = Some q
    \<and> (if k = 41 then mail q \<and> round_inv ps (base + 42) 0 (one_sent q)
         \<and> (\<forall>i < 42. rx q (int i) = stream_byte ps (who (one_sent q)) (base + i))
       else round_inv ps base (Suc k) (one_sent q))"
proof -
  let ?v = "stream_byte ps (who p) (n_sent p)"
  have k: "n_sent p = base + k" "0 < base" "k < 42" "rx_at p = int k" "rx_left p = 42 - int k"
    and now: "\<And>i. i < k \<Longrightarrow> rx p (int i) = stream_byte ps (who p) (base + i)"
    using r by (auto simp: round_inv_def)
  have byte: "stream_byte ps (who (one_sent p)) t = stream_byte ps (who p) t" if "t \<le> base + k" for t
    using that k(1) by (simp add: stream_one_sent)
  show ?thesis
  proof (cases "k = 41")
    case True
    define q where "q = p\<lparr>rx := (rx p)(41 := ?v), mail := True, rx_left := 42, rx_at := 0\<rparr>"
    have e: "rx_byte ?v p = Some q"
      using k True by (simp add: rx_byte_def wr_def Let_def uart8_callback_def PACK_LEN_def q_def)
    have w: "who (one_sent q) = who (one_sent p)" by (simp add: one_sent_def Let_def q_def)
    have full: "rx q (int i) = stream_byte ps (who (one_sent q)) (base + i)" if "i < 42" for i
      using that now[of i] k True byte unfolding w by (cases "i = 41") (auto simp: q_def)
    then have "round_inv ps (base + 42) 0 (one_sent q)"
      using k True by (simp add: round_inv_def) (simp add: q_def)
    then show ?thesis using e full True by (intro exI[of _ q]) (simp add: q_def)
  next
    case False
    define q where "q = p\<lparr>rx := (rx p)(int k := ?v), rx_left := 41 - int k, rx_at := int k + 1\<rparr>"
    have e: "rx_byte ?v p = Some q"
      using k False by (simp add: rx_byte_def wr_def Let_def PACK_LEN_def q_def)
    have w: "who (one_sent q) = who (one_sent p)" by (simp add: one_sent_def Let_def q_def)
    have n: "rx q (int i) = stream_byte ps (who p) (base + i)" if "i < Suc k" for i
      using that now[of i] k by (cases "i = k") (auto simp: q_def)
    have o: "rx q (int i) = rx p (int i)" if "Suc k \<le> i" for i using that by (simp add: q_def)
    have old: "(\<forall>i < 42. Suc k \<le> i \<and> 0 < i \<longrightarrow> rx q (int i) = 0)
        \<or> 42 \<le> base \<and> (\<forall>i < 42. Suc k \<le> i \<longrightarrow> rx q (int i) = stream_byte ps (who p) (base + i - 42))"
      using r o unfolding round_inv_def by (metis Suc_leD)
    have "round_inv ps base (Suc k) (one_sent q)"
      unfolding round_inv_def w one_sent_rest
    proof (intro conjI)
      show "\<forall>i < Suc k. rx q (int i) = stream_byte ps (who (one_sent p)) (base + i)" using n byte by simp
      show "(\<forall>i < 42. Suc k \<le> i \<and> 0 < i \<longrightarrow> rx q (int i) = 0)
        \<or> 42 \<le> base \<and> (\<forall>i < 42. Suc k \<le> i \<longrightarrow> rx q (int i) = stream_byte ps (who (one_sent p)) (base + i - 42))"
        using old byte k by auto
    qed (use k False in \<open>simp_all add: q_def\<close>)
    then show ?thesis using e False by auto
  qed
qed

lemma fresh_step:
  assumes "rx_at p = 0" "rx_left p = 1" "rx p = (\<lambda>_. 0)"
  shows "\<exists>q. rx_byte (stream_byte ps (who p) (n_sent p)) p = Some q \<and> round_inv ps (Suc (n_sent p)) 0 (one_sent q)"
proof -
  define q where "q = p\<lparr>rx := (\<lambda>_. 0)(0 := stream_byte ps (who p) (n_sent p)), mail := True, rx_left := 42, rx_at := 0\<rparr>"
  have "round_inv ps (Suc (n_sent p)) 0 (one_sent q)" by (simp add: round_inv_def) (simp add: q_def)
  moreover have "rx_byte (stream_byte ps (who p) (n_sent p)) p = Some q"
    using assms by (simp add: rx_byte_def wr_def Let_def uart8_callback_def PACK_LEN_def q_def)
  ultimately show ?thesis by blast
qed

lemma rx_byte_runs:
  assumes "rx_inv ps p"
  shows "\<exists>q. rx_byte (stream_byte ps (who p) (n_sent p)) p = Some q \<and> rx_inv ps (one_sent q)"
  using assms unfolding rx_inv_def by (metis fresh_step round_step)

lemma buff_mono:
  assumes "buff_ok ps p" and "uart_buff (lk q) = uart_buff (lk p)" "pos_cnt (lk q) = pos_cnt (lk p)"
    and "last_at p \<le> last_at q" and "0 < n_sent p \<Longrightarrow> 0 < n_sent q"
  shows "buff_ok ps q"
proof -
  from assms(1) obtain a e c where
    b: "\<forall>i < 21. uart_buff (lk p) (int i) = (if i < c then frame_of ps a ! i else frame_of ps e ! i)"
    and o: "e \<le> a" "a \<le> last_at p" "int a \<le> pos_cnt (lk p)" "0 < n_sent p" "a = e \<or> a \<le> e + 2 \<and> pos_cnt (lk p) \<le> int a + 1"
    unfolding buff_ok_def by blast
  have "a \<le> last_at q" "0 < n_sent q" using o(2,4) assms(4,5) by simp_all
  then show ?thesis unfolding buff_ok_def assms(2,3) using b o(1,3,5) by blast
qed

lemma buff_one_sent: "sender_inv ps p \<Longrightarrow> buff_ok ps p \<Longrightarrow> buff_ok ps (one_sent p)"
  by (erule buff_mono) (simp_all only: last_one_sent[unfolded one_sent_rest] last_le_now one_sent_rest zero_less_Suc)

lemma port_byte:
  assumes inv: "port_inv ps p" and q: "rx_byte (stream_byte ps (who p) (n_sent p)) p = Some q"
  shows "port_inv ps (one_sent q)"
proof -
  note k = rx_byte_keeps[OF q]
  have s: "sender_inv ps q" using inv k by (simp add: port_inv_def sender_inv_def)
  have "rx_inv ps (one_sent q)" using rx_byte_runs[of ps p] inv q by (auto simp: port_inv_def)
  moreover have "buff_ok ps q" if "buff_ok ps p" using that k by (simp add: buff_ok_def)
  ultimately show ?thesis
    using inv k sender_one_sent[OF s] buff_one_sent[OF s] by (simp add: port_inv_def)
qed

section \<open>The module moves on\<close>

lemma round_cong:
  assumes "round_inv ps base k p" and "rx q = rx p" "rx_at q = rx_at p" "rx_left q = rx_left p" "n_sent q = n_sent p"
    and "\<And>t. t < n_sent p \<Longrightarrow> stream_byte ps (who q) t = stream_byte ps (who p) t"
  shows "round_inv ps base k q"
proof -
  have n: "n_sent p = base + k" using assms(1) by (simp add: round_inv_def)
  have a: "stream_byte ps (who q) (base + i) = stream_byte ps (who p) (base + i)" if "i < k" for i using that assms(6) n by simp
  have b: "stream_byte ps (who q) (base + i - 42) = stream_byte ps (who p) (base + i - 42)" if "i < 42" "42 \<le> base" for i
    using that assms(6) n by simp
  show ?thesis using assms(1) a b unfolding round_inv_def assms(2-5) by auto
qed

lemma port_move:
  assumes inv: "port_inv ps p" and m: "n_sent p mod 21 = 0" "Suc (now_at p) < length ps" "int (now_at p) < pos_cnt (lk p)"
  defines "q \<equiv> p\<lparr>who := (who p)(n_sent p div 21 := Suc (now_at p))\<rparr>"
  shows "port_inv ps q"
proof -
  let ?b = "n_sent p div 21"
  have s: "sender_inv ps p" using inv by (simp add: port_inv_def)
  have n: "0 < n_sent p" using s m(3) by (auto simp: sender_inv_def)
  then have d: "n_sent p = 21 * ?b" "0 < ?b" using m(1) by auto
  have "(21 * c - 1) div 21 = c - 1" if "0 < c" for c :: nat using that by (cases c) simp_all
  then have l: "(n_sent p - 1) div 21 = ?b - 1" using d by metis
  have now: "now_at p = last_at p" "pos_cnt (lk p) = int (now_at p) + 1"
    using s m(3) last_le_now[OF s] unfolding sender_inv_def by linarith+
  have lq: "last_at q = last_at p" "now_at q = Suc (now_at p)" using l d(2) by (simp_all add: q_def)
  have keep: "lk q = lk p" "rx q = rx p" "rx_at q = rx_at p" "rx_left q = rx_left p" "n_sent q = n_sent p" by (simp_all add: q_def)
  have low: "who q b = who p b" if "b < ?b" for b using that by (simp add: q_def)
  have "who q b \<le> who q (Suc b) \<and> who q (Suc b) \<le> Suc (who q b)" if b: "b < ?b" for b
  proof (cases "Suc b = ?b")
    case True
    then have "who p b = last_at p" using l by (metis diff_Suc_1)
    then show ?thesis using True now(1) by (simp add: q_def)
  next
    case False
    then show ?thesis using b s by (simp add: low sender_inv_def)
  qed
  then have "\<forall>b < n_sent p div 21. who q b \<le> who q (Suc b) \<and> who q (Suc b) \<le> Suc (who q b)" by blast
  moreover have "Suc (now_at p) < length ps" "int (Suc (now_at p)) \<le> pos_cnt (lk p)" "pos_cnt (lk p) \<le> int (last_at p) + 1"
    using m(2) now by linarith+
  ultimately have "sender_inv ps q" unfolding sender_inv_def keep lq[unfolded keep] using n by (intro conjI impI) (assumption | linarith)+
  moreover have "rx_inv ps q"
  proof -
    have "stream_byte ps (who q) t = stream_byte ps (who p) t" if "t < n_sent p" for t
    proof (rule stream_cong)
      fix b assume "b \<le> t div 21"
      moreover have "t div 21 < ?b" using that d(1) by (simp add: less_mult_imp_div_less mult.commute)
      ultimately show "who q b = who p b" using low by simp
    qed
    then have "round_inv ps base k q" if "round_inv ps base k p" for base k
      by (intro round_cong[OF that] keep)
    then show ?thesis using inv unfolding port_inv_def rx_inv_def keep by blast
  qed
  moreover have "buff_ok ps q" if "buff_ok ps p" 
    using that by (rule buff_mono) (simp_all only: keep lq[unfolded keep] order_refl)
  ultimately show ?thesis using inv unfolding port_inv_def keep by blast
qed

section \<open>The receiving task\<close>

text \<open>The time of the byte at an index of the driver's buffer.\<close>

lemma found_at:
  assumes inv: "port_inv ps p" and s: "0 \<le> s" "s \<le> PACK_LEN" "rx p s = 36" "rx p (s + PACK_LEN - 1) = 10"
  shows "\<exists>a e c. (\<forall>i < 21. rx p (s + int i) = (if i < c then frame_of ps a ! i else frame_of ps e ! i))
        \<and> e \<le> a \<and> a \<le> last_at p \<and> 0 < n_sent p \<and> (a = e \<or> a \<le> e + 2 \<and> a = now_at p)"
proof -
  have ok: "sends_ok ps" "sender_inv ps p" using inv by (simp_all add: port_inv_def)
  define j where "j = nat s"
  have j: "s = int j" "j \<le> 21" "rx p (int j) = 36" "rx p (int (j + 20)) = 10"
    using s by (simp_all add: j_def PACK_LEN_def algebra_simps)
  note mark = stream_mark[OF ok]
  have "\<not> (rx_at p = 0 \<and> rx_left p = 1 \<and> rx p = (\<lambda>_. 0))" using j(3) by auto
  then obtain base k where r: "round_inv ps base k p" using inv by (auto simp: port_inv_def rx_inv_def)
  then have n: "n_sent p = base + k" "0 < base" "k < 42"
    and now: "\<And>i. i < k \<Longrightarrow> rx p (int i) = stream_byte ps (who p) (base + i)" by (auto simp: round_inv_def)
  have whole: ?thesis if t: "\<And>i. i < 21 \<Longrightarrow> rx p (int (j + i)) = stream_byte ps (who p) (t + i)" "t + 20 < n_sent p" for t
  proof -
    have "t mod 21 = 0" using t(1)[of 0] j(3) mark(1)[of t] t(2) by simp
    then obtain b where b: "t = 21 * b" by auto
    have "b \<le> (n_sent p - 1) div 21" using t(2) b by (simp add: less_eq_div_iff_mult_less_eq)
    then have "who p b \<le> last_at p" by (intro who_mono[OF ok(2)]) (simp_all add: div_le_mono)
    moreover have "rx p (s + int i) = frame_of ps (who p b) ! i" if "i < 21" for i
      using t(1)[OF that] that by (simp add: j(1) b stream_byte_def)
    moreover have "0 < n_sent p" using t(2) by simp
    ultimately show ?thesis by (intro exI[of _ "who p b"] exI[of _ 0]) simp
  qed
  show ?thesis
  proof (cases "j + 20 < k")
    case True
    have "rx p (int (j + i)) = stream_byte ps (who p) (base + j + i)" if "i < 21" for i
      using now[of "j + i"] that True by (simp add: add.assoc)
    then show ?thesis by (rule whole) (use True n in simp_all)
  next
    case False
    have old: "42 \<le> base" "\<And>i. i < 42 \<Longrightarrow> k \<le> i \<Longrightarrow> rx p (int i) = stream_byte ps (who p) (base + i - 42)"
    proof -
      have "\<not> (\<forall>i < 42. k \<le> i \<and> 0 < i \<longrightarrow> rx p (int i) = 0)"
      proof
        assume z: "\<forall>i < 42. k \<le> i \<and> 0 < i \<longrightarrow> rx p (int i) = 0"
        have "rx p (int (j + 20)) = 0" using False j(2) by (intro z[rule_format]) simp_all
        then show False using j(4) by simp
      qed
      then show "42 \<le> base" "\<And>i. i < 42 \<Longrightarrow> k \<le> i \<Longrightarrow> rx p (int i) = stream_byte ps (who p) (base + i - 42)"
        using r unfolding round_inv_def by blast+
    qed
    show ?thesis
    proof (cases "k \<le> j")
      case True
      have "rx p (int (j + i)) = stream_byte ps (who p) (base + j - 42 + i)" if "i < 21" for i
      proof -
        have "base + (j + i) - 42 = base + j - 42 + i" using old(1) by simp
        then show ?thesis using old(2)[of "j + i"] that True j(2) by simp
      qed
      then show ?thesis by (rule whole) (use old n j(2) in simp_all)
    next
      case False
      define B where "B = n_sent p div 21"
      define c where "c = k - j"
      have c: "0 < c" "c \<le> 20" "k = j + c" using False \<open>\<not> j + 20 < k\<close> by (simp_all add: c_def)
      have "stream_byte ps (who p) (base + j) = 36" using now[of j] j(3) c by simp
      then have "(base + j) mod 21 = 0" using mark(1)[of "base + j"] n c by simp
      then obtain b where b: "base + j = 21 * b" by auto
      have nb: "n_sent p = 21 * b + c" using n(1) c(3) b by simp
      then have B: "b = B" using c by (simp add: B_def)
      have b2: "2 \<le> b" using b old(1) by simp
      have hi: "rx p (s + int i) = frame_of ps (now_at p) ! i" if "i < c" for i
      proof -
        have "rx p (int (j + i)) = stream_byte ps (who p) (21 * b + i)" using now[of "j + i"] that c b by (simp add: add.assoc[symmetric])
        then show ?thesis using that c B by (simp add: j(1) stream_byte_def B_def)
      qed
      have lo: "rx p (s + int i) = frame_of ps (who p (b - 2)) ! i" if "i < 21" "c \<le> i" for i
      proof -
        have e: "base + (j + i) - 42 = 21 * (b - 2) + i" using b b2 by simp
        have "rx p (int (j + i)) = stream_byte ps (who p) (21 * (b - 2) + i)"
          using old(2)[of "j + i"] that c \<open>\<not> j + 20 < k\<close> j(2) unfolding e by simp
        then show ?thesis using that by (simp add: j(1) stream_byte_def)
      qed
      have "(21 * b + d) div 21 = b" if "d < 21" for d using that by simp
      from this[of c] this[of "c - 1"] have "n_sent p div 21 = b" "(n_sent p - 1) div 21 = b" using c nb by (simp_all del: One_nat_def)
      then have l: "last_at p = now_at p" by (simp only:)
      have "who p (b - 2) \<le> now_at p" using who_mono[OF ok(2), of "b - 2" b] b2 B by (simp add: B_def)
      moreover have "now_at p \<le> who p (b - 2) + 2" using who_far[OF ok(2), of "b - 2"] b2 B by (simp add: B_def numeral_2_eq_2 Suc_diff_Suc)
      ultimately show ?thesis using hi lo l nb c
        by (intro exI[of _ "now_at p"] exI[of _ "who p (b - 2)"] exI[of _ c]) simp
    qed
  qed
qed

lemma port_recv:
  assumes inv: "port_inv ps p"
  shows "port_inv ps (p\<lparr>mail := False, lk := uart8_mb_recv (rx p) (lk p)\<rparr>)"
proof -
  define q where "q = p\<lparr>mail := False, lk := uart8_mb_recv (rx p) (lk p)\<rparr>"
  have keep: "rx q = rx p" "rx_at q = rx_at p" "rx_left q = rx_left p" "n_sent q = n_sent p" "who q = who p" by (simp_all add: q_def)
  have l: "pos_cnt (lk q) = pos_cnt (lk p)" "stored (lk q) = stored (lk p)"
    by (simp_all add: q_def uart8_mb_recv_def Let_def with_car_def stored_def fun_eq_iff)
  have s: "sender_inv ps p" using inv by (simp add: port_inv_def)
  have "v = SP_OK \<and> buff_ok ps q" if v: "data_mb (lk q) = Some v" for v
  proof (cases "sync (rx p) 0 \<le> PACK_LEN")
    case True
    define i where "i = sync (rx p) 0"
    have hit: "0 \<le> i" "i \<le> PACK_LEN" "rx p i = 36" "rx p (i + PACK_LEN - 1) = 10"
      using sync_hit[of 0 "rx p"] True by (simp_all add: i_def PACK_LEN_def)
    from found_at[OF inv hit] obtain a e c where
      b: "\<forall>j < 21. rx p (i + int j) = (if j < c then frame_of ps a ! j else frame_of ps e ! j)"
      and o: "e \<le> a" "a \<le> last_at p" "0 < n_sent p" "a = e \<or> a \<le> e + 2 \<and> a = now_at p" by blast
    have u: "\<forall>j < 21. uart_buff (lk q) (int j) = rx p (i + int j)"
      using True by (simp add: q_def uart8_mb_recv_def Let_def with_car_def PACK_LEN_def i_def add.commute)
    have "int a \<le> pos_cnt (lk p)" "a = e \<or> a \<le> e + 2 \<and> pos_cnt (lk p) \<le> int a + 1"
      using o(2,4) last_le_now[OF s] s unfolding sender_inv_def by linarith+
    then have "buff_ok ps q" unfolding buff_ok_def l keep using b u o(1-3) by (intro exI[of _ a] exI[of _ e] exI[of _ c]) simp
    moreover have "v = SP_OK" using v True inv
      by (auto simp: q_def uart8_mb_recv_def Let_def with_car_def port_inv_def split: if_splits)
    ultimately show ?thesis by simp
  next
    case False
    then have "uart_buff (lk q) = uart_buff (lk p)" "data_mb (lk q) = data_mb (lk p)"
      by (simp_all add: q_def uart8_mb_recv_def Let_def with_car_def)
    moreover from this have "v = SP_OK" "buff_ok ps p" using v inv unfolding port_inv_def by metis+
    ultimately show ?thesis using buff_mono[of ps p q] unfolding l keep by simp
  qed
  moreover have "sender_inv ps q" using s by (simp add: sender_inv_def keep l)
  moreover have "rx_inv ps q" using inv round_cong[of ps _ _ p q] unfolding port_inv_def rx_inv_def keep by blast
  ultimately show ?thesis using inv unfolding q_def[symmetric] port_inv_def l by blast
qed

section \<open>The analysing task\<close>

text \<open>A head and a tail of different packets never give the number of the next picture.\<close>

lemma number_read:
  fixes a e c :: nat
  assumes "e \<le> a" and "a < 30" and "int a \<le> P" and "a = e \<or> a \<le> e + 2 \<and> P \<le> int a + 1"
    and n: "(if 16 < c then int a div 10 else int e div 10) * 10 + (if 17 < c then int a mod 10 else int e mod 10) = P"
  shows "int a = P \<and> (a = e \<or> 18 \<le> c)"
proof -
  have d: "int v div 10 * 10 + int v mod 10 = int v" for v by simp
  consider "17 < c" | "c = 17" | "c \<le> 16" by linarith
  then show ?thesis
  proof cases
    case 1
    then show ?thesis using n d[of a] by simp
  next
    case 2
    then have m: "int a div 10 * 10 + int e mod 10 = P" using n by simp
    have "P mod 10 = int e mod 10" unfolding m[symmetric] by simp
    then have "10 dvd P - int e" by (simp add: mod_eq_dvd_iff)
    then have "\<not> (0 < P - int e \<and> P - int e < 10)" using zdvd_imp_le[of 10 "P - int e"] by auto
    then have "a = e" using assms(1,3,4) by auto
    then show ?thesis using m d[of a] by simp
  next
    case 3
    then show ?thesis using n d[of e] assms(1,3) by simp
  qed
qed

lemma on_positions_reads:
  assumes "uart_buff s 2 = 88" "uart_buff s 8 = 89" "uart_buff s 14 = 78" and "0 \<le> pos_cnt s" "N = pos_cnt s \<Longrightarrow> N < NP"
    and "u8 ((uart_buff s 16 - 48) * 10 + uart_buff s 17 - 48) = N"
  shows "\<exists>s'. on_positions left_n s = Some s' \<and> data_mb s' = data_mb s
    \<and> (if N = pos_cnt s then pos_cnt s' = N + 1 \<and> stored s' = (stored s)(N := (num3 (uart_buff s) 3, num3 (uart_buff s) 9))
       else pos_cnt s' = pos_cnt s \<and> stored s' = stored s)"
  using assms by (auto simp: on_positions_def Let_def with_route_def put_x_def put_y_def c_simps stored_def NP_def u8_def)

lemma frame_bytes:
  assumes "coord n"
  shows "pos_frame n p ! Suc 0 = 38" "pos_frame n p ! 2 = 88" "pos_frame n p ! 8 = 89" "pos_frame n p ! 14 = 78"
    "pos_frame n p ! 16 = n mod 100 div 10 + 48" "pos_frame n p ! 17 = n mod 10 + 48"
  by (simp_all add: pos_frame_def digits3_def)

lemma frame_coords:
  assumes "coord (fst p)" "coord (snd p)" and "\<And>i. i < 12 \<Longrightarrow> b (int i) = pos_frame n p ! i"
  shows "(num3 b 3, num3 b 9) = p"
proof -
  have b: "b 3 = pos_frame n p ! 3" "b 4 = pos_frame n p ! 4" "b 5 = pos_frame n p ! 5"
    "b 9 = pos_frame n p ! 9" "b 10 = pos_frame n p ! 10" "b 11 = pos_frame n p ! 11"
    using assms(3)[of 3] assms(3)[of 4] assms(3)[of 5] assms(3)[of 9] assms(3)[of 10] assms(3)[of 11] by simp_all
  have "num3 b 3 = fst p div 100 * 100 + fst p mod 100 div 10 * 10 + fst p mod 10"
    "num3 b 9 = snd p div 100 * 100 + snd p mod 100 div 10 * 10 + snd p mod 10"
    by (simp_all add: num3_def b pos_frame_def digits3_def)
  then show ?thesis unfolding digits3_num[OF assms(1)] digits3_num[OF assms(2)] by simp
qed

lemma buff_read:
  assumes inv: "port_inv ps p" and b: "buff_ok ps p" and l: "uart_buff l = uart_buff (lk p)" "pos_cnt l = pos_cnt (lk p)"
  shows "uart_buff l 1 = 38 \<and> (\<exists>l'. on_positions left_n l = Some l' \<and> data_mb l' = data_mb l
    \<and> (pos_cnt l' = pos_cnt l \<and> stored l' = stored l
       \<or> pos_cnt l = int (last_at p) \<and> pos_cnt l' = pos_cnt l + 1 \<and> stored l' = (stored l)(pos_cnt l := ps ! last_at p)))"
proof -
  let ?b = "uart_buff l" and ?P = "pos_cnt l"
  from b obtain a e c where u: "\<And>i. i < 21 \<Longrightarrow> ?b (int i) = (if i < c then frame_of ps a ! i else frame_of ps e ! i)"
    and o: "e \<le> a" "a \<le> last_at p" "int a \<le> ?P" "a = e \<or> a \<le> e + 2 \<and> ?P \<le> int a + 1"
    unfolding buff_ok_def l by blast
  have ok: "sends_ok ps" and s: "sender_inv ps p" using inv by (simp_all add: port_inv_def)
  have P: "0 \<le> ?P" "?P \<le> int (last_at p) + 1" using s unfolding sender_inv_def l by auto
  have lt: "last_at p < length ps" using last_le_now[OF s] s unfolding sender_inv_def by linarith
  then have al: "a < length ps" "a < 30" "e < 30" "?P < 31" using o(1,2) P ok by (simp_all add: sends_ok_def)
  have cn: "coord (int a)" "coord (int e)" using al by (simp_all add: coord_def)
  note B = u[of 1] u[of 2] u[of 8] u[of 14] u[of 16] u[of 17]
  have m: "int a mod 100 = int a" "int e mod 100 = int e" using al by simp_all
  have f: "?b 1 = 38" "?b 2 = 88" "?b 8 = 89" "?b 14 = 78"
    "?b 16 = (if 16 < c then int a div 10 else int e div 10) + 48" "?b 17 = (if 17 < c then int a mod 10 else int e mod 10) + 48"
    using B by (simp_all add: frame_bytes[OF cn(1)] frame_bytes[OF cn(2)] m split: if_splits)
  define N where "N = (if 16 < c then int a div 10 else int e div 10) * 10 + (if 17 < c then int a mod 10 else int e mod 10)"
  have "0 \<le> N \<and> N < 256"
    using al zdiv_mono1[of "int a" 29 10] zdiv_mono1[of "int e" 29 10] pos_mod_bound[of 10 "int a"] pos_mod_bound[of 10 "int e"]
      pos_mod_sign[of 10 "int a"] pos_mod_sign[of 10 "int e"] by (auto simp: N_def pos_imp_zdiv_nonneg_iff)
  then have n: "u8 ((?b 16 - 48) * 10 + ?b 17 - 48) = N" unfolding f by (simp add: u8_def N_def)
  have a: "int a = ?P \<and> (a = e \<or> 18 \<le> c)" if "N = ?P"
    by (rule number_read[OF o(1) al(2) o(3,4)]) (use that in \<open>simp add: N_def\<close>)
  then have "N < NP" if "N = ?P" using that al(2) by (simp add: NP_def)
  from on_positions_reads[OF f(2,3,4) P(1) this n, of left_n] obtain l' where
    l': "on_positions left_n l = Some l'" "data_mb l' = data_mb l" and
    r: "if N = ?P then pos_cnt l' = N + 1 \<and> stored l' = (stored l)(N := (num3 ?b 3, num3 ?b 9)) else pos_cnt l' = ?P \<and> stored l' = stored l"
    by blast
  show ?thesis
  proof (cases "N = ?P")
    case True
    then have a: "int a = ?P" "a = e \<or> 18 \<le> c" using a by simp_all
    have "coord (fst (ps ! a)) \<and> coord (snd (ps ! a))" using ok al(1) by (simp add: sends_ok_def)
    then have "(num3 ?b 3, num3 ?b 9) = ps ! a"
      by (intro frame_coords[where n = "int a"]) (use u a(2) in auto)
    moreover have "a = last_at p" using o(2) a(1) last_le_now[OF s] s unfolding sender_inv_def l by linarith
    ultimately show ?thesis using True r l' f(1) a(1) by auto
  qed (use r l' f(1) in auto)
qed

lemma port_analyse:
  assumes inv: "port_inv ps p"
  shows "\<exists>l. data_analysis m left_n (lk p) = Some l \<and> port_inv ps (p\<lparr>lk := l\<rparr>) \<and> data_mb l = None"
proof (cases "data_mb (lk p)")
  case None
  then show ?thesis using inv by (simp add: data_analysis_def)
next
  case (Some v)
  then have v: "v = SP_OK" and b: "buff_ok ps p" using inv by (simp_all add: port_inv_def)
  define g where "g = (lk p)\<lparr>data_mb := None\<rparr>"
  have g: "uart_buff g = uart_buff (lk p)" "pos_cnt g = pos_cnt (lk p)" "data_mb g = None" "stored g = stored (lk p)"
    by (simp_all add: g_def stored_def fun_eq_iff)
  from buff_read[OF inv b g(1,2), of left_n] obtain l' where k: "uart_buff g 1 = 38"
    and l': "on_positions left_n g = Some l'" "data_mb l' = None" and
    r: "pos_cnt l' = pos_cnt g \<and> stored l' = stored g
      \<or> pos_cnt g = int (last_at p) \<and> pos_cnt l' = pos_cnt g + 1 \<and> stored l' = (stored g)(pos_cnt g := ps ! last_at p)"
    unfolding g(3) by blast
  define l where "l = with_car (uart_update (\<lambda>_. SP_WAIT)) l'"
  have l: "data_mb l = None" "pos_cnt l = pos_cnt l'" "stored l = stored l'"
    using l'(2) by (simp_all add: l_def with_car_def stored_def fun_eq_iff)
  have run: "data_analysis m left_n (lk p) = Some l"
    using Some v k l'(1) by (simp add: data_analysis_def Let_def g_def[symmetric] SP_OK_def u8_def l_def)
  define q where "q = p\<lparr>lk := l\<rparr>"
  have keep: "rx q = rx p" "rx_at q = rx_at p" "rx_left q = rx_left p" "n_sent q = n_sent p" "who q = who p" "lk q = l"
    by (simp_all add: q_def)
  have n: "n_sent p \<noteq> 0" using b by (auto simp: buff_ok_def)
  have s: "sender_inv ps p" using inv by (simp add: port_inv_def)
  have "sender_inv ps q" using s r n unfolding sender_inv_def keep l g by auto
  moreover have "rx_inv ps q" using inv round_cong[of ps _ _ p q] unfolding port_inv_def rx_inv_def keep by blast
  moreover have "\<forall>i < length ps. int i < pos_cnt l \<longrightarrow> stored l (int i) = ps ! i"
    using inv r unfolding port_inv_def l g by auto
  ultimately have "port_inv ps q" using inv l(1) unfolding port_inv_def keep by simp
  then show ?thesis using run l(1) by (simp add: q_def)
qed

lemma port_tick: "port_inv ps p \<Longrightarrow> port_inv ps (p\<lparr>lk := tick_link g (lk p)\<rparr>)"
proof -
  assume inv: "port_inv ps p"
  define q where "q = p\<lparr>lk := tick_link g (lk p)\<rparr>"
  have keep: "rx q = rx p" "rx_at q = rx_at p" "rx_left q = rx_left p" "n_sent q = n_sent p" "who q = who p"
    "uart_buff (lk q) = uart_buff (lk p)" "pos_cnt (lk q) = pos_cnt (lk p)" "data_mb (lk q) = data_mb (lk p)" "stored (lk q) = stored (lk p)"
    by (simp_all add: q_def tick_link_def case_prod_unfold Let_def stored_def fun_eq_iff)
  have "rx_inv ps q" using inv round_cong[of ps _ _ p q] unfolding port_inv_def rx_inv_def keep by blast
  moreover have "sender_inv ps q" "buff_ok ps p \<Longrightarrow> buff_ok ps q"
    using inv by (simp_all add: port_inv_def sender_inv_def buff_ok_def keep)
  ultimately have "port_inv ps q" using inv unfolding port_inv_def keep by blast
  then show ?thesis by (simp add: q_def)
qed

section \<open>Every interleaving\<close>

text \<open>The code runs without a fault, and every position counted is the one that was sent.\<close>

definition port_safe :: "mlib \<Rightarrow> int \<Rightarrow> (int \<times> int) list \<Rightarrow> port \<Rightarrow> bool" where
  "port_safe m left_n ps p \<longleftrightarrow>
     rx_byte (stream_byte ps (who p) (n_sent p)) p \<noteq> None \<and> data_analysis m left_n (lk p) \<noteq> None
     \<and> (\<forall>i < length ps. int i < pos_cnt (lk p) \<longrightarrow> stored (lk p) (int i) = ps ! i)"

lemma port_inv_step: "port_step m left_n ps p q \<Longrightarrow> port_inv ps p \<Longrightarrow> port_inv ps q"
proof (induction rule: port_step.induct)
  case (analyse p l)
  then show ?case using port_analyse[of ps p m left_n] by auto
qed (rule port_byte port_move port_recv port_tick; assumption)+

lemma port_inv_safe: "port_inv ps p \<Longrightarrow> port_safe m left_n ps p"
  using rx_byte_runs[of ps p] port_analyse[of ps p m left_n] by (auto simp: port_safe_def port_inv_def)

interpretation serial: safe_machine "port_step m left_n ps" "port_inv ps" "port_safe m left_n ps" for m left_n ps
  by unfold_locales (blast intro: port_inv_step port_inv_safe)+

section \<open>The line is never stuck\<close>

text \<open>A run of bytes only, in which the packet on the line stays the same.\<close>

definition bytes_to :: "mlib \<Rightarrow> int \<Rightarrow> (int \<times> int) list \<Rightarrow> port \<Rightarrow> port \<Rightarrow> bool" where
  "bytes_to m left_n ps p q \<longleftrightarrow>
     (port_step m left_n ps)\<^sup>*\<^sup>* p q \<and> port_inv ps q \<and> lk q = lk p \<and> n_sent p \<le> n_sent q
     \<and> (\<forall>b \<le> n_sent p div 21. who q b = who p b)
     \<and> (\<forall>b. n_sent p div 21 \<le> b \<and> b \<le> n_sent q div 21 \<longrightarrow> who q b = now_at p)"

lemma bytes_refl: "port_inv ps p \<Longrightarrow> bytes_to m left_n ps p p"
  by (auto simp: bytes_to_def)

lemma bytes_trans:
  assumes pq: "bytes_to m left_n ps p q" and qr: "bytes_to m left_n ps q r"
  shows "bytes_to m left_n ps p r"
proof -
  have le: "n_sent p div 21 \<le> n_sent q div 21" using pq by (simp add: bytes_to_def div_le_mono)
  have old: "who r b = who q b" if "b \<le> n_sent q div 21" for b using qr that by (simp add: bytes_to_def)
  have new: "who r b = now_at q" if "n_sent q div 21 \<le> b" "b \<le> n_sent r div 21" for b using qr that by (simp add: bytes_to_def)
  have q: "now_at q = now_at p" using pq le by (simp add: bytes_to_def)
  have "who r b = now_at p" if "n_sent p div 21 \<le> b" "b \<le> n_sent r div 21" for b
  proof (cases "b \<le> n_sent q div 21")
    case True
    then show ?thesis using pq that old[OF True] by (simp add: bytes_to_def)
  next
    case False
    then show ?thesis using new[of b] that q by simp
  qed
  moreover have "who r b = who p b" if "b \<le> n_sent p div 21" for b using that le old[of b] pq by (simp add: bytes_to_def)
  moreover have "(port_step m left_n ps)\<^sup>*\<^sup>* p r" "n_sent p \<le> n_sent r" "lk r = lk p" "port_inv ps r"
    using pq qr by (auto simp: bytes_to_def)
  ultimately show ?thesis by (simp add: bytes_to_def)
qed

lemma bytes_one:
  assumes "port_inv ps p" and q: "rx_byte (stream_byte ps (who p) (n_sent p)) p = Some q"
  shows "bytes_to m left_n ps p (one_sent q)"
proof -
  note k = rx_byte_keeps[OF q]
  have "who (one_sent q) b = now_at p" if "n_sent p div 21 \<le> b" "b \<le> Suc (n_sent p) div 21" for b
  proof (cases "b = n_sent p div 21")
    case True
    then show ?thesis using k one_sent_who[of b q] by simp
  next
    case False
    then have "b = Suc (n_sent p) div 21" using that by (auto simp: div_Suc split: if_splits)
    then show ?thesis using k one_sent_next[of q] by simp
  qed
  moreover have "who (one_sent q) b = who p b" if "b \<le> n_sent p div 21" for b using that k one_sent_who[of b q] by simp
  ultimately show ?thesis
    using port_byte[OF assms] port_step.byte[of ps p q m left_n, OF q] k by (simp add: bytes_to_def r_into_rtranclp)
qed

lemma bytes_some: "port_inv ps p \<Longrightarrow> \<exists>q. bytes_to m left_n ps p q \<and> n_sent q = n_sent p + k"
proof (induction k)
  case 0
  then show ?case by (intro exI[of _ p]) (simp add: bytes_refl)
next
  case (Suc k)
  then obtain q where q: "bytes_to m left_n ps p q" "n_sent q = n_sent p + k" by blast
  then have "port_inv ps q" by (simp add: bytes_to_def)
  moreover from this obtain r where r: "rx_byte (stream_byte ps (who q) (n_sent q)) q = Some r"
    using rx_byte_runs[of ps q] by (auto simp: port_inv_def)
  ultimately have "bytes_to m left_n ps p (one_sent r)" using bytes_trans[OF q(1) bytes_one] by blast
  then show ?case using q(2) rx_byte_keeps[OF r] by (intro exI[of _ "one_sent r"]) simp
qed

lemma round_bytes:
  "port_inv ps p \<Longrightarrow> round_inv ps base k p \<Longrightarrow> k + d < 42 \<Longrightarrow> \<exists>q. bytes_to m left_n ps p q \<and> round_inv ps base (k + d) q"
proof (induction d)
  case 0
  then show ?case by (intro exI[of _ p]) (simp add: bytes_refl)
next
  case (Suc d)
  then obtain q where q: "bytes_to m left_n ps p q" "round_inv ps base (k + d) q" by auto
  then have "port_inv ps q" by (simp add: bytes_to_def)
  moreover obtain r where r: "rx_byte (stream_byte ps (who q) (n_sent q)) q = Some r" "round_inv ps base (Suc (k + d)) (one_sent r)"
    using round_step[OF q(2)] Suc.prems(3) by auto
  ultimately have "bytes_to m left_n ps p (one_sent r)" using bytes_trans[OF q(1) bytes_one] by blast
  then show ?case using r(2) by auto
qed

lemma round_full:
  assumes "port_inv ps p" and "round_inv ps base k p"
  shows "\<exists>q. bytes_to m left_n ps p q \<and> round_inv ps (base + 42) 0 q \<and> mail q \<and> (\<forall>i < 42. rx q (int i) = stream_byte ps (who q) (base + i))"
proof -
  have "k < 42" using assms(2) by (simp add: round_inv_def)
  then obtain q where q: "bytes_to m left_n ps p q" "round_inv ps base 41 q"
    using round_bytes[OF assms, of "41 - k" m left_n] by auto
  then have "port_inv ps q" by (simp add: bytes_to_def)
  moreover obtain r where r: "rx_byte (stream_byte ps (who q) (n_sent q)) q = Some r" "mail r" "round_inv ps (base + 42) 0 (one_sent r)"
      "\<forall>i < 42. rx r (int i) = stream_byte ps (who (one_sent r)) (base + i)"
    using round_step[OF q(2)] by auto
  ultimately have "bytes_to m left_n ps p (one_sent r)" using bytes_trans[OF q(1) bytes_one] by blast
  then show ?thesis using r by (intro exI[of _ "one_sent r"]) simp
qed

text \<open>Two rounds fill the buffer with the packet that is on the line now.\<close>

lemma full_buffer:
  assumes inv: "port_inv ps p"
  shows "\<exists>q base. bytes_to m left_n ps p q \<and> mail q \<and> (\<forall>i < 42. rx q (int i) = frame_of ps (now_at p) ! ((base + i) mod 21))"
proof -
  have "\<exists>q base. bytes_to m left_n ps p q \<and> round_inv ps base 0 q"
  proof (cases "rx_at p = 0 \<and> rx_left p = 1 \<and> rx p = (\<lambda>_. 0)")
    case True
    then obtain r where "rx_byte (stream_byte ps (who p) (n_sent p)) p = Some r" "round_inv ps (Suc (n_sent p)) 0 (one_sent r)"
      using fresh_step[of p ps] by blast
    then show ?thesis using bytes_one[OF inv] by blast
  next
    case False
    then obtain base k where "round_inv ps base k p" using inv by (auto simp: port_inv_def rx_inv_def)
    then show ?thesis using round_full[OF inv, of base k m left_n] by blast
  qed
  then obtain q base where q: "bytes_to m left_n ps p q" "round_inv ps base 0 q" by blast
  then have "port_inv ps q" by (simp add: bytes_to_def)
  from round_full[OF this q(2), of m left_n] obtain r where
    r: "bytes_to m left_n ps q r" "round_inv ps (base + 42) 0 r" "mail r" "\<forall>i < 42. rx r (int i) = stream_byte ps (who r) (base + i)" by blast
  have pr: "bytes_to m left_n ps p r" using bytes_trans[OF q(1) r(1)] .
  have n: "n_sent p \<le> base" "n_sent r = base + 42" using q r(2) by (simp_all add: bytes_to_def round_inv_def)
  have "rx r (int i) = frame_of ps (now_at p) ! ((base + i) mod 21)" if "i < 42" for i
  proof -
    have "n_sent p div 21 \<le> (base + i) div 21" "(base + i) div 21 \<le> n_sent r div 21" using n that by (simp_all add: div_le_mono)
    then have "who r ((base + i) div 21) = now_at p" using pr by (simp add: bytes_to_def)
    then show ?thesis using r(4) that by (simp add: stream_byte_def)
  qed
  then show ?thesis using pr r(3) by blast
qed

lemma sync_cong:
  "0 \<le> i \<Longrightarrow> (\<And>j. 0 \<le> j \<Longrightarrow> j < 42 \<Longrightarrow> d j = d' j) \<Longrightarrow> sync d i = sync d' i"
proof (induction d i rule: sync.induct)
  case (1 d i)
  have "d i = d' i" "d (i + PACK_LEN - 1) = d' (i + PACK_LEN - 1)" if "i \<le> PACK_LEN" using 1(2,3) that by (simp_all add: PACK_LEN_def)
  moreover have "sync d (i + 1) = sync d' (i + 1)" if "i \<le> PACK_LEN" "\<not> (d i = 36 \<and> d (i + PACK_LEN - 1) = 10)"
    using 1(1)[OF that] 1(2,3) by simp
  ultimately show ?case by (simp add: sync.simps[of d i] sync.simps[of d' i])
qed

lemma recv_cong:
  assumes "\<And>j. 0 \<le> j \<Longrightarrow> j < 42 \<Longrightarrow> d j = d' j"
  shows "uart8_mb_recv d s = uart8_mb_recv d' s"
proof -
  have e: "sync d 0 = sync d' 0" using sync_cong[of 0 d d'] assms by simp
  have "0 \<le> sync d' 0" if "sync d' 0 \<le> PACK_LEN" using sync_hit[of 0 d'] that by (simp add: PACK_LEN_def)
  then have "(\<lambda>c. if 0 \<le> c \<and> c < PACK_LEN then d (c + sync d' 0) else uart_buff s c)
      = (\<lambda>c. if 0 \<le> c \<and> c < PACK_LEN then d' (c + sync d' 0) else uart_buff s c)" if "sync d' 0 \<le> PACK_LEN"
    using that assms by (auto simp: PACK_LEN_def fun_eq_iff)
  then show ?thesis by (simp add: uart8_mb_recv_def Let_def e)
qed

lemma now_stored:
  assumes inv: "port_inv ps p" and now: "int (now_at p) = pos_cnt (lk p)" and mb: "data_mb (lk p) = None"
  shows "\<exists>q. (port_step m left_n ps)\<^sup>*\<^sup>* p q \<and> port_inv ps q \<and> data_mb (lk q) = None \<and> pos_cnt (lk q) = pos_cnt (lk p) + 1"
proof -
  from full_buffer[OF inv] obtain q base where q: "bytes_to m left_n ps p q" "mail q"
    and rx: "\<forall>i < 42. rx q (int i) = frame_of ps (now_at p) ! ((base + i) mod 21)" by blast
  let ?n = "now_at p"
  define d where "d = window (frame_of ps ?n) base"
  have "rx q j = d j" if "0 \<le> j" "j < 42" for j
    using rx[rule_format, of "nat j"] that by (simp add: d_def window_def add.commute)
  then have e: "uart8_mb_recv (rx q) (lk q) = uart8_mb_recv d (lk q)" by (rule recv_cong)
  have lq: "lk q = lk p" and iq: "port_inv ps q" using q(1) by (simp_all add: bytes_to_def)
  have n: "?n < length ps" using inv by (simp add: port_inv_def sender_inv_def)
  have "coord (fst (ps ! ?n))" "coord (snd (ps ! ?n))" "int ?n < NP" "shows_pos (int ?n) (ps ! ?n) d"
    using inv n by (auto simp: port_inv_def sends_ok_def NP_def shows_pos_def d_def)
  from on_line_pos[OF this(4) _ this(3,1,2) mb, of m left_n] now obtain l where
    l: "on_line m left_n d (lk p) = Some l" "data_mb l = None" "pos_cnt l = pos_cnt (lk p) + 1" by auto
  define r where "r = q\<lparr>mail := False, lk := uart8_mb_recv (rx q) (lk q)\<rparr>"
  have qr: "port_step m left_n ps q r" unfolding r_def by (rule port_step.recv[OF q(2)])
  have ra: "data_analysis m left_n (lk r) = Some l" using l(1) by (simp add: r_def lq e[unfolded lq] on_line_def)
  have rs: "port_step m left_n ps r (r\<lparr>lk := l\<rparr>)" by (rule port_step.analyse[OF ra])
  have "port_inv ps (r\<lparr>lk := l\<rparr>)" using port_inv_step[OF rs] port_inv_step[OF qr iq] by blast
  moreover have "(port_step m left_n ps)\<^sup>*\<^sup>* p (r\<lparr>lk := l\<rparr>)"
    using q(1) qr rs unfolding bytes_to_def by (meson rtranclp.rtrancl_into_rtrancl)
  ultimately show ?thesis using l(2,3) by (intro exI[of _ "r\<lparr>lk := l\<rparr>"]) simp
qed

lemma next_stored:
  assumes inv: "port_inv ps p" and lt: "pos_cnt (lk p) < int (length ps)" and mb: "data_mb (lk p) = None"
  shows "\<exists>q. (port_step m left_n ps)\<^sup>*\<^sup>* p q \<and> port_inv ps q \<and> data_mb (lk q) = None \<and> pos_cnt (lk q) = pos_cnt (lk p) + 1"
proof (cases "int (now_at p) = pos_cnt (lk p)")
  case True
  then show ?thesis using now_stored[OF inv _ mb] by blast
next
  case False
  from bytes_some[OF inv, of m left_n "(21 - n_sent p mod 21) mod 21"] obtain q where
    q: "bytes_to m left_n ps p q" "n_sent q = n_sent p + (21 - n_sent p mod 21) mod 21" by blast
  have "(n + (21 - n mod 21) mod 21) mod 21 = 0" for n :: nat
    using mod_add_left_eq[of n 21 "21 - n mod 21"] by (simp add: mod_add_right_eq)
  then have z: "n_sent q mod 21 = 0" unfolding q(2) .
  have lq: "lk q = lk p" and iq: "port_inv ps q" and nq: "now_at q = now_at p"
    using q(1) by (simp_all add: bytes_to_def div_le_mono)
  have s: "sender_inv ps p" using inv by (simp add: port_inv_def)
  have nx: "pos_cnt (lk p) = int (now_at p) + 1"
    using False last_le_now[OF s] s unfolding sender_inv_def by linarith
  define r where "r = q\<lparr>who := (who q)(n_sent q div 21 := Suc (now_at q))\<rparr>"
  have qr: "port_step m left_n ps q r" unfolding r_def
    by (rule port_step.move_on) (use z nq lq nx lt in simp_all)
  have "now_at r = Suc (now_at p)" "lk r = lk p" by (simp_all add: r_def nq lq)
  moreover have "port_inv ps r" by (rule port_inv_step[OF qr iq])
  ultimately obtain t where "(port_step m left_n ps)\<^sup>*\<^sup>* r t" "port_inv ps t" "data_mb (lk t) = None" "pos_cnt (lk t) = pos_cnt (lk p) + 1"
    using now_stored[of ps r m left_n] nx mb by auto
  moreover have "(port_step m left_n ps)\<^sup>*\<^sup>* p r" using q(1) qr unfolding bytes_to_def by (meson rtranclp.rtrancl_into_rtrancl)
  ultimately show ?thesis by (meson rtranclp_trans)
qed

lemma all_stored:
  assumes "port_inv ps p" and "data_mb (lk p) = None"
  shows "\<exists>q. (port_step m left_n ps)\<^sup>*\<^sup>* p q \<and> port_inv ps q \<and> int (length ps) \<le> pos_cnt (lk q)"
  using assms
proof (induction "nat (int (length ps) - pos_cnt (lk p))" arbitrary: p rule: less_induct)
  case less
  show ?case
  proof (cases "pos_cnt (lk p) < int (length ps)")
    case True
    from next_stored[OF less.prems(1) True less.prems(2)] obtain q where
      q: "(port_step m left_n ps)\<^sup>*\<^sup>* p q" "port_inv ps q" "data_mb (lk q) = None" "pos_cnt (lk q) = pos_cnt (lk p) + 1" by blast
    from less.hyps[OF _ q(2,3)] True q(4) obtain r where "(port_step m left_n ps)\<^sup>*\<^sup>* q r" "port_inv ps r" "int (length ps) \<le> pos_cnt (lk r)"
      by auto
    then show ?thesis using q(1) by (meson rtranclp_trans)
  next
    case False
    then show ?thesis using less.prems(1) by (intro exI[of _ p]) simp
  qed
qed

lemma reaches_end:
  assumes "port_inv ps p"
  shows "\<exists>q. (port_step m left_n ps)\<^sup>*\<^sup>* p q \<and> pos_cnt (lk q) = int (length ps) \<and> (\<forall>i < length ps. stored (lk q) (int i) = ps ! i)"
proof -
  from port_analyse[OF assms, of m left_n] obtain l where
    l: "data_analysis m left_n (lk p) = Some l" "port_inv ps (p\<lparr>lk := l\<rparr>)" "data_mb l = None" by blast
  from all_stored[OF l(2), of m left_n] l(3) obtain q where
    q: "(port_step m left_n ps)\<^sup>*\<^sup>* (p\<lparr>lk := l\<rparr>) q" "port_inv ps q" "int (length ps) \<le> pos_cnt (lk q)" by auto
  have s: "sender_inv ps q" using q(2) by (simp add: port_inv_def)
  then have "pos_cnt (lk q) \<le> int (length ps)" using last_le_now[OF s] unfolding sender_inv_def by linarith
  then show ?thesis
    using q port_step.analyse[OF l(1)] unfolding port_inv_def by (intro exI[of _ q]) (auto intro: converse_rtranclp_into_rtranclp)
qed

section \<open>The line as a whole\<close>


definition quiet_port :: port where
  "quiet_port = \<lparr>lk = quiet_link, rx = \<lambda>_. 0, rx_at = 0, rx_left = 0, mail = False, n_sent = 8, who = \<lambda>_. 0\<rparr>"


text \<open>
  The condition on the module is needed: when it moves on before the first position is stored, a
  buffer read in the middle of the change holds the coordinates of the second picture with the
  number of the first, and they are stored under it.
\<close>

definition torn :: "int arr" where
  "torn i = (if i < 14 then pos_frame 1 (699, 8) ! nat i else pos_frame 0 (120, 45) ! nat i)"

lemma early_switch: "\<exists>s. on_line m left_n torn quiet_link = Some s \<and> pos_cnt s = 1 \<and> stored s 0 = (699, 8)"
proof -
  have "sync torn 0 = 0" by (simp add: sync.simps[of torn 0] torn_def PACK_LEN_def pos_frame_def digits3_def)
  then show ?thesis
    by (simp add: on_line_def uart8_mb_recv_def data_analysis_def Let_def with_car_def quiet_link_def torn_def PACK_LEN_def
        pos_frame_def digits3_def on_positions_def num3_def u8_def SP_OK_def with_route_def put_x_def put_y_def c_simps NP_def stored_def)
qed

section \<open>Printing on the line\<close>

text \<open>
  The characters of a string from the pointer on, up to the end of its array. The pictures are
  asked for with \<open>rt_kprintf8("3")\<close> and \<open>rt_kprintf8("4")\<close>. The kernel is built without
  \<open>RT_USING_DEVICE\<close>; \<open>rt_vsnprintf\<close> is the parameter \<open>vsn\<close>, from the size to the returned length
  and the buffer.
\<close>

primrec rt_hw_console_output8 :: "int list \<Rightarrow> act list option" where
  "rt_hw_console_output8 [] = None"
| "rt_hw_console_output8 (c # str) =
     (if c \<noteq> 0 then do {
        as \<leftarrow> rt_hw_console_output8 str;
        Some ((if c = 10 then [Tx_8 [13]] else []) @ [Tx_8 [c]] @ as)
      } else Some [])"

definition RT_CONSOLEBUF_SIZE :: int where "RT_CONSOLEBUF_SIZE = 128"

definition rt_kprintf8 :: "(int \<Rightarrow> int list \<Rightarrow> int \<times> int list) \<Rightarrow> int list \<Rightarrow> act list option" where
  "rt_kprintf8 vsn fmt =
     (let (len, rt_log_buf) = vsn (RT_CONSOLEBUF_SIZE - 1) fmt;
          len = (if len > RT_CONSOLEBUF_SIZE - 1 then RT_CONSOLEBUF_SIZE - 1 else len)
      in rt_hw_console_output8 rt_log_buf)"

lemma console_sends:
  "0 \<notin> set cs \<Longrightarrow> rt_hw_console_output8 (cs @ 0 # rest) = Some (concat (map (\<lambda>c. if c = 10 then [Tx_8 [13], Tx_8 [10]] else [Tx_8 [c]]) cs))"
  by (induction cs) auto

text \<open>The request of a picture is the one byte that \<open>to_pic\<close> sends.\<close>

lemma kprintf8_request:
  assumes "\<And>n cs. 0 \<notin> set cs \<Longrightarrow> 37 \<notin> set cs \<Longrightarrow> int (length cs) < n \<Longrightarrow> \<exists>rest. vsn n (cs @ [0]) = (int (length cs), cs @ 0 # rest)"
  shows "rt_kprintf8 vsn [51, 0] = Some [Tx_8 [51]]"
proof -
  obtain rest where "vsn (RT_CONSOLEBUF_SIZE - 1) [51, 0] = (1, [51] @ 0 # rest)"
    using assms[of "[51]" "RT_CONSOLEBUF_SIZE - 1"] by (auto simp: RT_CONSOLEBUF_SIZE_def)
  then show ?thesis using console_sends[of "[51]" rest] by (simp add: rt_kprintf8_def)
qed

end
