(* ===== verification/Spec2Isabelle.thy ===== *)
theory Spec2Isabelle
  imports C_Prelude Soft_Float Float_Sqrt Path_Heap Geometry Leg_Store Grid_Search Ant_Colony
    Route_Plan Point_Queue Flood_Fill Template_Match Raster Float_Bounds Otsu Card_Locate
    Corner_Pick Pid Car Servo Attitude Robot Chassis Chassis_Safe Report Uart_Protocol Menu Menu_Spec Main_Loop Handshake
    Colony_Run Route_Chain Tour_Plan Located Display Uart_Line
begin

text \<open>
  A model of the firmware of a robot that collects picture cards
  (\<^verbatim>\<open>Software/Project/CODE\<close>, \<^verbatim>\<open>Software/Project/USER/src/main.c\<close>), for an i.MX RT1064 under
  RT-Thread.

  \<^bold>\<open>The program.\<close> The robot photographs a printed map of the field, finds the cards on it
  (\<^verbatim>\<open>coor_pick.c\<close>), plans a tour (\<^verbatim>\<open>aco.c\<close>), drives from card to card (\<^verbatim>\<open>motionPlanning.c\<close>,
  \<^verbatim>\<open>motor.c\<close>, \<^verbatim>\<open>pid.c\<close>, \<^verbatim>\<open>encoder.c\<close>, heading from \<^verbatim>\<open>icm.c\<close>), lets a camera module name each
  card over a serial line (\<^verbatim>\<open>more_uart.c\<close>), picks the card up with an arm (\<^verbatim>\<open>servo.c\<close>, the task
  \<open>servo_ctrl\<close>) and carries it to a depot. A menu on a small screen (\<^verbatim>\<open>ips_refresh.c\<close>) starts
  the runs and edits the gains of the controllers. Timers of 10 ms (\<open>motorControl_timer1\<close>,
  \<open>icm_read_timer3\<close>), threads and the main loop share the globals, above all the flags of
  \<open>car\<close>.

  \<^bold>\<open>Theories and sources.\<close>
  \<^item> \<open>C_Prelude\<close>: array accesses, loops, narrow integers and step relations of C;
    \<open>Soft_Float\<close>, \<open>Float_Sqrt\<close>, \<open>Float_Bounds\<close>: \<open>float\<close> and \<open>double\<close> as IEEE 754 binary32 and
    binary64 with rounding to nearest even, the correctly rounded square root, and error bounds.
  \<^item> Planning, \<^verbatim>\<open>aco.c\<close>: \<open>Path_Heap\<close> (\<open>push\<close>, \<open>pop\<close> of the open list), \<open>Geometry\<close>
    (\<open>calc_dis\<close>, \<open>calc_tag\<close>, \<open>check_yaw\<close>), \<open>Leg_Store\<close> (\<open>make_path\<close> and the arrays of way
    points), \<open>Grid_Search\<close> (\<open>astar_init\<close>, \<open>astar\<close>), \<open>Ant_Colony\<close> (\<open>init_tag\<close>, \<open>shuffle\<close>, \<open>ant\<close>)
    and \<open>Colony_Run\<close> (\<open>ant\<close> over all iterations), \<open>Route_Plan\<close> (the tours and the incremental planners),
    \<open>Route_Chain\<close> (repeated \<open>ACO_to_next\<close>), \<open>Tour_Plan\<close> (from the cards' cells to the last leg).
  \<^item> The map, \<^verbatim>\<open>coor_pick.c\<close>: \<open>Point_Queue\<close> (linked queue), \<open>Flood_Fill\<close> (\<open>BFS\<close>), \<open>Raster\<close>
    (\<open>GetOSTU\<close>, \<open>get_smlarA4\<close>, \<open>line_\<close>, \<open>get_a4\<close>), \<open>Otsu\<close> (the threshold), \<open>Card_Locate\<close>
    (\<open>init\<close>, \<open>find_pic\<close>), \<open>Located\<close> (from the map to the grid search).
  \<^item> The card under the camera, \<^verbatim>\<open>pic_pick.c\<close>: \<open>Template_Match\<close> (shared with the map) and
    \<open>Corner_Pick\<close> (\<open>sobel\<close>, \<open>get_similarity\<close>, \<open>get_center\<close>, \<open>get_pic\<close>).
  \<^item> Driving: \<open>Pid\<close> (\<^verbatim>\<open>pid.c\<close>, \<^verbatim>\<open>encoder.c\<close>), \<open>Attitude\<close> (\<^verbatim>\<open>icm.c\<close>), \<open>Car\<close> (\<open>car\<close>, \<open>flag_init\<close>),
    \<open>Servo\<close> (\<^verbatim>\<open>servo.c\<close>), \<open>Robot\<close> (the globals, \<^verbatim>\<open>motionPlanning.c\<close>), \<open>Chassis\<close> (\<^verbatim>\<open>motor.c\<close>: every
    mode of the control timer, \<open>servo_ctrl\<close>, \<open>uart_trans\<close>), \<open>Chassis_Safe\<close>, \<open>Report\<close>.
  \<^item> Around it: \<open>Uart_Protocol\<close> (\<^verbatim>\<open>more_uart.c\<close>, its two tasks), \<open>Uart_Line\<close> (the same line byte by
    byte, with the interrupt routine, and \<open>rt_kprintf8\<close>), \<open>Menu\<close> and \<open>Menu_Spec\<close>
    (\<^verbatim>\<open>ips_refresh.c\<close>), \<open>Display\<close> (pictures on the screen), \<open>Main_Loop\<close> (\<^verbatim>\<open>main.c\<close>), \<open>Handshake\<close> (the timer, the arm task and
    the serial line interleaved).

  \<^bold>\<open>Conventions.\<close> Undefined behaviour is \<^const>\<open>None\<close>; where a loop may also run forever the result is
  an \<open>option option\<close> whose outer \<^const>\<open>None\<close> is divergence. An array is a function with its extent
  checked at every access, a C \<open>int\<close> an unbounded integer (the values stay far below its range),
  a narrower type a conversion (\<open>u8\<close>, \<open>i8\<close>, \<open>u16\<close>, \<open>i16\<close>) at every store. Static variables of a
  function are fields of its component's record. Reads that the code itself makes outside an
  array (\<open>obs\<close>, the pictures of the template searches) come from a parameter \<open>junk\<close>. What is sent
  to the hardware is a list of actions. There is no fuel: every loop is a \<open>for\<close> over a range, a
  \<open>while_ub\<close> whose end is proved, or a recursion with its measure.

  \<^bold>\<open>Parameters.\<close> \<open>rand\<close> is a stream with a position; the sine, cosine, arc tangent and power
  functions, the frames of the camera, the bytes of the serial line, the flash, the encoder and
  gyroscope readings and the allocator are arguments. What is assumed of them is named:
  \<open>mlib_ok\<close> (finite arguments give values of magnitude at most one, or a finite angle),
  \<open>pow_ok\<close> (a fifth power within a factor of two), \<open>good_board\<close>
  (a page of flash reads back as written), a fresh address from the allocator.

  \<^bold>\<open>What is shown.\<close>
  \<^item> The planner: the open list is a priority queue and sorts (locale \<open>prio_queue\<close>,
    interpreted on \<open>push\<close> and \<open>pop\<close>); \<open>astar\<close> always returns, its way is a chain of table moves
    through free cells, and its failure proves that there is no way by unit moves; from located
    pictures on, no way enters a card (\<open>Located\<close>). \<open>shuffle\<close> permutes, \<open>find_\<close> is a
    least detour. The trails of the ant colony stay within powers of two that grow with the
    iterations, so no draw of a city is undefined and \<open>ant\<close> returns the shortest of the tours it
    recorded (\<open>Colony_Run\<close>); with it \<open>ACO_to_first\<close> and the calls of \<open>ACO_to_next\<close> append the legs of
    one polygon that misses only the stop that \<open>shuffle\<close> moves to entry 0 (\<open>Tour_Plan\<close>).
  \<^item> Pictures: the queue is first-in first-out (locale \<open>fifo\<close>), \<open>BFS\<close> labels exactly one component,
    the template searches with their early exits find best matches (locale \<open>cell_cost\<close>, interpreted
    for both), the line drawing and the two nested \<open>float\<close> loops of \<open>find_pic\<close> end, a square card's
    centre is found, the image sent to the screen is the nearest-neighbour scaling.
  \<^item> Motion: controller outputs stay within 10000 for any run, the heading within 0 and 360, the
    turning command is the shortest way; in every mode the control timer has no undefined
    behaviour and sets each duty once within 0 and 10000; any sequence of arm functions moves the
    servo in small steps. From power-on, in any order of the timers and the main loop, all this
    stays true (locale \<open>safe_machine\<close>, interpreted on the steps of \<open>Main_Loop\<close>, \<open>Handshake\<close> and
    \<open>Uart_Line\<close>); the car never leaves a card that the arm has not picked up.
  \<^item> Communication: positions arrive as sent wherever a buffer starts and in every interleaving of
    bytes and tasks, provided the module repeats a packet until it is stored; then the line is never
    stuck, and \<open>early_switch\<close> shows what happens otherwise. The message of a card reads
    back, the menu table implements a tree of rings, its keys undo each other, saved gains read
    back but are not used.

  \<^bold>\<open>Not modelled.\<close> The libraries under \<^verbatim>\<open>Software/Libraries\<close> (NXP SDK, CMSIS, RT-Thread, the board's
  drivers), \<^verbatim>\<open>isr.c\<close> and \<^verbatim>\<open>watchDog.c\<close>, which only call them, the set-up of UARTs, threads and
  mailboxes, the unused thread \<open>speedChange\<close>, and debug prints. Threads are preempted
  between the steps of the models only: a step of a thread is taken to be atomic with respect to
  the timers. Of dead code behind an early \<open>return\<close> (\<open>check_task\<close>) only the \<open>return\<close> is modelled.
\<close>

end
